(* ===== verification/JS_Prelude.thy ===== *)
theory JS_Prelude
  imports Main "HOL-Library.AList" "HOL-Library.Multiset" "HOL-Library.Code_Target_Nat"
begin

text \<open>
  The prelude of the development: the part of JavaScript's standard library that the modelled
  sources use, and the generic lemmas the components share.

  \<^item> A JavaScript string is a sequence of UTF-16 code units. \<open>jstring\<close> is a list of code
    units, \<open>js\<close> embeds an ASCII literal (\<open>js ''abc''\<close>). The operations \<open>trim\<close>,
    \<open>trimEnd\<close>, \<open>startsWith\<close>, \<open>endsWith\<close>, \<open>split\<close> and \<open>join\<close> work on code units, as
    the language's do.
  \<^item> A \<open>Map\<close> keeps its entries in insertion order: an association list with distinct keys,
    read by \<open>map_of\<close>, written by \<open>jmap_set\<close> (in place when the key is there, else at the
    end) and \<open>jmap_delete\<close>. The locale \<open>keyed_store\<close> states what the services rely on,
    and is interpreted on these operations.
  \<^item> Values the code does not look into, and parsed ones, are of type \<open>json\<close>.
  \<^item> \<open>findLast\<close> and \<open>findIndex\<close> are the array methods of that name.
\<close>

named_theorems js_defs \<open>definitions of the string operations\<close>
named_theorems inv_intros \<open>introduction rules for component invariants\<close>

section \<open>Strings\<close>

type_synonym jstring = "nat list"

definition js :: "string \<Rightarrow> jstring" where
  "js s = map of_char s"

definition is_space :: "nat \<Rightarrow> bool" where
  "is_space c \<longleftrightarrow> c \<in> {9, 10, 11, 12, 13, 32, 160, 5760, 8232, 8233, 8239, 8287, 12288, 65279}
     \<or> (8192 \<le> c \<and> c \<le> 8202)"

definition trimStart :: "jstring \<Rightarrow> jstring" where
  "trimStart s = dropWhile is_space s"

definition trimEnd :: "jstring \<Rightarrow> jstring" where
  "trimEnd s = rev (dropWhile is_space (rev s))"

definition trim :: "jstring \<Rightarrow> jstring" where
  "trim s = trimEnd (trimStart s)"

definition startsWith :: "jstring \<Rightarrow> jstring \<Rightarrow> bool" where
  "startsWith s p \<longleftrightarrow> take (length p) s = p"

definition endsWith :: "jstring \<Rightarrow> jstring \<Rightarrow> bool" where
  "endsWith s p \<longleftrightarrow> length p \<le> length s \<and> drop (length s - length p) s = p"

text \<open>\<open>s.slice(0, -n)\<close>: everything but the last \<open>n\<close> code units.\<close>

definition dropEnd :: "nat \<Rightarrow> 'a list \<Rightarrow> 'a list" where
  "dropEnd n s = take (length s - n) s"

text \<open>\<open>s.split(c)\<close> for a one-character separator, and \<open>xs.join(sep)\<close>.\<close>

fun split_on :: "nat \<Rightarrow> jstring \<Rightarrow> jstring list" where
  "split_on c [] = [[]]"
| "split_on c (x # xs) =
     (if x = c then [] # split_on c xs
      else (case split_on c xs of [] \<Rightarrow> [[x]] | w # ws \<Rightarrow> (x # w) # ws))"

fun join :: "jstring \<Rightarrow> jstring list \<Rightarrow> jstring" where
  "join sep [] = []"
| "join sep [w] = w"
| "join sep (w # v # ws) = w @ sep @ join sep (v # ws)"

definition replace_unit :: "nat \<Rightarrow> nat \<Rightarrow> jstring \<Rightarrow> jstring" where
  "replace_unit a b s = map (\<lambda>c. if c = a then b else c) s"

abbreviation newline :: nat where "newline \<equiv> 10"

lemma js_inject [simp]: "js s = js t \<longleftrightarrow> s = t"
proof -
  have "inj (of_char :: char \<Rightarrow> nat)" by (rule inj_of_char)
  then show ?thesis by (simp add: js_def inj_map_eq_map)
qed

lemma js_Nil [simp]: "js [] = []" by (simp add: js_def)

lemma js_eq_Nil [simp]: "js s = [] \<longleftrightarrow> s = []" by (simp add: js_def)

lemma length_js [simp]: "length (js s) = length s" by (simp add: js_def)

lemma startsWith_prefix: "startsWith s p \<longleftrightarrow> (\<exists>r. s = p @ r)"
  by (auto simp: startsWith_def) (metis append_take_drop_id)

lemma endsWith_suffix: "endsWith s p \<longleftrightarrow> (\<exists>r. s = r @ p)"
  by (auto simp: endsWith_def) (metis append_take_drop_id)

lemma dropEnd_append [simp]: "length r = n \<Longrightarrow> dropEnd n (s @ r) = s"
  by (simp add: dropEnd_def)

lemma split_on_nonempty [simp]: "split_on c s \<noteq> []"
  by (induction s) (auto split: list.splits)

lemma join_Cons: "ws \<noteq> [] \<Longrightarrow> join sep (w # ws) = w @ sep @ join sep ws"
  by (cases ws) auto

lemma join_Cons_hd: "join sep ((x # w) # ws) = x # join sep (w # ws)"
  by (cases ws) auto

lemma join_split_on [simp]: "join [c] (split_on c s) = s"
proof (induction s)
  case Nil
  then show ?case by simp
next
  case (Cons x xs)
  show ?case
  proof (cases "x = c")
    case True
    then show ?thesis using Cons by (simp add: join_Cons)
  next
    case False
    obtain w ws where "split_on c xs = w # ws"
      using split_on_nonempty by (cases "split_on c xs") auto
    then show ?thesis using Cons False by (simp add: join_Cons_hd)
  qed
qed

lemma split_on_no_sep: "w \<in> set (split_on c s) \<Longrightarrow> c \<notin> set w"
proof (induction s arbitrary: w)
  case Nil
  then show ?case by simp
next
  case (Cons x xs)
  then show ?case by (auto split: list.splits if_splits)
qed

lemma split_on_append_free: "c \<notin> set w \<Longrightarrow> split_on c (w @ c # s) = w # split_on c s"
  by (induction w) auto

lemma split_on_free: "c \<notin> set w \<Longrightarrow> split_on c w = [w]"
  by (induction w) auto

lemma split_on_join:
  "ws \<noteq> [] \<Longrightarrow> \<forall>w\<in>set ws. c \<notin> set w \<Longrightarrow> split_on c (join [c] ws) = ws"
proof (induction ws rule: induct_list012)
  case 1
  then show ?case by simp
next
  case (2 w)
  then show ?case by (simp add: split_on_free)
next
  case (3 w v ws)
  then show ?case by (simp add: split_on_append_free)
qed

text \<open>\<open>s.split(/\s+/)\<close>.\<close>

function split_ws :: "jstring \<Rightarrow> jstring list" where
  "split_ws s =
     (let w = takeWhile (\<lambda>c. \<not> is_space c) s; r = dropWhile (\<lambda>c. \<not> is_space c) s
      in if r = [] then [w] else w # split_ws (dropWhile is_space r))"
  by pat_completeness auto
termination
proof (relation "measure length", goal_cases)
  case 1
  then show ?case by simp
next
  case (2 s w r)
  then have "is_space (hd r)" using hd_dropWhile by blast
  moreover have "r \<noteq> []" using 2 by simp
  then obtain x xs where r: "r = x # xs" by (cases r) auto
  ultimately have "length (dropWhile is_space r) < length r"
    by (simp add: le_imp_less_Suc length_dropWhile_le)
  also have "length r \<le> length s" using 2 by (simp add: length_dropWhile_le)
  finally show ?case by simp
qed

declare split_ws.simps [simp del]

lemma trimEnd_idem [simp]: "trimEnd (trimEnd s) = trimEnd s"
  by (simp add: trimEnd_def dropWhile_idem)

text \<open>A number as a decimal string.\<close>

fun decimal :: "nat \<Rightarrow> jstring" where
  "decimal n = (if n < 10 then [48 + n] else decimal (n div 10) @ [48 + n mod 10])"

declare decimal.simps [simp del]

definition num_str :: "int \<Rightarrow> jstring" where
  "num_str n = (if n < 0 then js ''-'' @ decimal (nat (- n)) else decimal (nat n))"

section \<open>Arrays\<close>

definition findLast :: "('a \<Rightarrow> bool) \<Rightarrow> 'a list \<Rightarrow> 'a option" where
  "findLast P xs = find P (rev xs)"

fun findIndex :: "('a \<Rightarrow> bool) \<Rightarrow> 'a list \<Rightarrow> nat option" where
  "findIndex P [] = None"
| "findIndex P (x # xs) = (if P x then Some 0 else map_option Suc (findIndex P xs))"

lemma findLast_None: "findLast P xs = None \<longleftrightarrow> (\<forall>x\<in>set xs. \<not> P x)"
  by (auto simp: findLast_def find_None_iff)

lemma findLast_Nil [simp]: "findLast P [] = None"
  by (simp add: findLast_def)

lemma find_append: "find P (xs @ ys) = (case find P xs of None \<Rightarrow> find P ys | Some x \<Rightarrow> Some x)"
  by (induction xs) auto

lemma findLast_append:
  "findLast P (xs @ ys) = (case findLast P ys of None \<Rightarrow> findLast P xs | Some y \<Rightarrow> Some y)"
  by (simp add: findLast_def find_append split: option.splits)

lemma findLast_snoc [simp]: "findLast P (xs @ [x]) = (if P x then Some x else findLast P xs)"
  by (simp add: findLast_def)

lemma findLast_SomeD: "findLast P xs = Some x \<Longrightarrow> x \<in> set xs \<and> P x"
  unfolding findLast_def by (metis find_Some_iff length_rev nth_mem set_rev)

lemma findLast_cong:
  "(\<And>x. x \<in> set xs \<Longrightarrow> P x = Q x) \<Longrightarrow> findLast P xs = findLast Q xs"
  by (induction xs rule: rev_induct) auto

lemma findLast_split:
  "findLast P xs = Some x \<Longrightarrow> \<exists>ys zs. xs = ys @ x # zs \<and> P x \<and> (\<forall>z\<in>set zs. \<not> P z)"
proof (induction xs rule: rev_induct)
  case Nil
  then show ?case by simp
next
  case (snoc y ys)
  show ?case
  proof (cases "P y")
    case True
    then show ?thesis using snoc.prems by (intro exI [of _ ys] exI [of _ "[]"]) auto
  next
    case False
    then obtain us vs where "ys = us @ x # vs" "P x" "\<forall>z\<in>set vs. \<not> P z"
      using snoc by auto
    then show ?thesis using False
      by (intro exI [of _ us] exI [of _ "vs @ [y]"]) auto
  qed
qed

lemma findIndex_Some:
  "findIndex P xs = Some i \<longleftrightarrow> i < length xs \<and> P (xs ! i) \<and> (\<forall>j<i. \<not> P (xs ! j))"
proof (induction xs arbitrary: i)
  case Nil
  then show ?case by simp
next
  case (Cons x xs)
  then show ?case by (cases i) (auto simp: less_Suc_eq_0_disj nth_Cons split: nat.splits)
qed

lemma findIndex_None: "findIndex P xs = None \<longleftrightarrow> (\<forall>x\<in>set xs. \<not> P x)"
  by (induction xs) auto

section \<open>Values of any type\<close>

datatype json = JNull | JBool bool | JNum int | JStr jstring | JArr "json list" | JObj "(jstring \<times> json) list"

section \<open>Insertion-ordered maps\<close>

type_synonym ('k, 'v) jmap = "('k \<times> 'v) list"

abbreviation jmap_get :: "('k, 'v) jmap \<Rightarrow> 'k \<Rightarrow> 'v option" where
  "jmap_get m k \<equiv> map_of m k"

abbreviation jmap_set :: "'k \<Rightarrow> 'v \<Rightarrow> ('k, 'v) jmap \<Rightarrow> ('k, 'v) jmap" where
  "jmap_set k v m \<equiv> AList.update k v m"

abbreviation jmap_delete :: "'k \<Rightarrow> ('k, 'v) jmap \<Rightarrow> ('k, 'v) jmap" where
  "jmap_delete k m \<equiv> AList.delete k m"

abbreviation jmap_keys :: "('k, 'v) jmap \<Rightarrow> 'k list" where
  "jmap_keys m \<equiv> map fst m"

text \<open>
  What a service that keeps its open requests in a \<open>Map\<close> relies on. The services prove their
  own facts from these laws only.
\<close>

locale keyed_store =
  fixes get :: "'m \<Rightarrow> 'k \<Rightarrow> 'v option"
    and put :: "'k \<Rightarrow> 'v \<Rightarrow> 'm \<Rightarrow> 'm"
    and del :: "'k \<Rightarrow> 'm \<Rightarrow> 'm"
    and wf :: "'m \<Rightarrow> bool"
  assumes get_put: "get (put k v m) = (get m)(k \<mapsto> v)"
    and get_del: "get (del k m) = (get m)(k := None)"
    and wf_put: "wf m \<Longrightarrow> wf (put k v m)"
    and wf_del: "wf m \<Longrightarrow> wf (del k m)"
begin

lemma del_put_get: "get (del k (put k v m)) = (get m)(k := None)"
  by (simp add: get_put get_del)

lemma put_fresh_del: "get m k = None \<Longrightarrow> get (del k (put k v m)) = get m"
  by (simp add: get_put get_del fun_upd_idem)

lemma get_fold_del: "get (fold del ks m) = (get m) |` (- set ks)"
proof (induction ks arbitrary: m)
  case Nil
  then show ?case by (simp add: restrict_map_def)
next
  case (Cons k ks)
  then show ?case by (auto simp: get_del restrict_map_def fun_eq_iff)
qed

lemma wf_fold_del: "wf m \<Longrightarrow> wf (fold del ks m)"
  by (induction ks arbitrary: m) (auto simp: wf_del)

end

interpretation jmap_store: keyed_store
  "map_of :: ('k, 'v) jmap \<Rightarrow> 'k \<Rightarrow> 'v option" "AList.update" "AList.delete" "\<lambda>m. distinct (map fst m)"
  by unfold_locales (simp_all add: update_conv' delete_conv' distinct_update distinct_delete)

lemma set_jmap_delete: "set (AList.delete k m) = {e \<in> set m. fst e \<noteq> k}"
  by (auto simp: AList.delete_eq)

lemma jmap_set_fresh: "k \<notin> set (map fst m) \<Longrightarrow> AList.update k v m = m @ [(k, v)]"
  by (induction m) auto

end
