(* ===== verification/Bash_Arity.thy ===== *)
theory Bash_Arity
  imports JS_Prelude
begin

text \<open>
  \<open>permission/arity.ts\<close>: how many leading tokens of a shell command name the command. The
  bash tool turns the result into the pattern of an "always" approval. \<open>ARITY\<close> is the table of
  the source; a lookup goes through the object's prototype as the source's \<open>ARITY[prefix]\<close>
  does, so the names \<open>Object.prototype\<close> carries are found too, with a value that is no number
  and that \<open>slice\<close> coerces to 0.
\<close>

section \<open>The table and the lookup\<close>

definition ARITY :: "(string \<times> nat) list" where
  "ARITY = [
    (''cat'', 1), (''cd'', 1), (''chmod'', 1), (''chown'', 1), (''cp'', 1), (''echo'', 1),
    (''env'', 1), (''export'', 1), (''grep'', 1), (''kill'', 1), (''killall'', 1), (''ln'', 1),
    (''ls'', 1), (''mkdir'', 1), (''mv'', 1), (''ps'', 1), (''pwd'', 1), (''rm'', 1),
    (''rmdir'', 1), (''sleep'', 1), (''source'', 1), (''tail'', 1), (''touch'', 1),
    (''unset'', 1), (''which'', 1), (''aws'', 3), (''az'', 3), (''bazel'', 2), (''brew'', 2),
    (''bun'', 2), (''bun run'', 3), (''bun x'', 3), (''cargo'', 2), (''cargo add'', 3),
    (''cargo run'', 3), (''cdk'', 2), (''cf'', 2), (''cmake'', 2), (''composer'', 2),
    (''consul'', 2), (''consul kv'', 3), (''crictl'', 2), (''deno'', 2), (''deno task'', 3),
    (''doctl'', 3), (''docker'', 2), (''docker builder'', 3), (''docker compose'', 3),
    (''docker container'', 3), (''docker image'', 3), (''docker network'', 3),
    (''docker volume'', 3), (''eksctl'', 2), (''eksctl create'', 3), (''firebase'', 2),
    (''flyctl'', 2), (''gcloud'', 3), (''gh'', 3), (''git'', 2), (''git config'', 3),
    (''git remote'', 3), (''git stash'', 3), (''go'', 2), (''gradle'', 2), (''helm'', 2),
    (''heroku'', 2), (''hugo'', 2), (''ip'', 2), (''ip addr'', 3), (''ip link'', 3),
    (''ip netns'', 3), (''ip route'', 3), (''kind'', 2), (''kind create'', 3), (''kubectl'', 2),
    (''kubectl kustomize'', 3), (''kubectl rollout'', 3), (''kustomize'', 2), (''make'', 2),
    (''mc'', 2), (''mc admin'', 3), (''minikube'', 2), (''mongosh'', 2), (''mysql'', 2),
    (''mvn'', 2), (''ng'', 2), (''npm'', 2), (''npm exec'', 3), (''npm init'', 3),
    (''npm run'', 3), (''npm view'', 3), (''nvm'', 2), (''nx'', 2), (''openssl'', 2),
    (''openssl req'', 3), (''openssl x509'', 3), (''pip'', 2), (''pipenv'', 2), (''pnpm'', 2),
    (''pnpm dlx'', 3), (''pnpm exec'', 3), (''pnpm run'', 3), (''poetry'', 2), (''podman'', 2),
    (''podman container'', 3), (''podman image'', 3), (''psql'', 2), (''pulumi'', 2),
    (''pulumi stack'', 3), (''pyenv'', 2), (''python'', 2), (''rake'', 2), (''rbenv'', 2),
    (''redis-cli'', 2), (''rustup'', 2), (''serverless'', 2), (''sfdx'', 3), (''skaffold'', 2),
    (''sls'', 2), (''sst'', 2), (''swift'', 2), (''systemctl'', 2), (''terraform'', 2),
    (''terraform workspace'', 3), (''tmux'', 2), (''turbo'', 2), (''ufw'', 2), (''vault'', 2),
    (''vault auth'', 3), (''vault kv'', 3), (''vercel'', 2), (''volta'', 2), (''wp'', 2),
    (''yarn'', 2), (''yarn dlx'', 3), (''yarn run'', 3)]"

definition prototype_names :: "string list" where
  "prototype_names = [''constructor'', ''hasOwnProperty'', ''isPrototypeOf'', ''propertyIsEnumerable'',
    ''toString'', ''valueOf'', ''toLocaleString'', ''__defineGetter__'', ''__defineSetter__'',
    ''__lookupGetter__'', ''__lookupSetter__'', ''__proto__'']"

text \<open>The number of tokens the looked-up value makes \<open>slice\<close> keep, \<open>None\<close> for undefined.\<close>

definition arity_of :: "jstring \<Rightarrow> nat option" where
  "arity_of k =
     (case map_of (map (\<lambda>(s, n). (js s, n)) ARITY) k of
        Some n \<Rightarrow> Some n
      | None \<Rightarrow> if k \<in> set (map js prototype_names) then Some 0 else None)"

fun prefix_from :: "jstring list \<Rightarrow> nat \<Rightarrow> jstring list" where
  "prefix_from tokens 0 = (if tokens = [] then [] else take 1 tokens)"
| "prefix_from tokens (Suc n) =
     (case arity_of (join (js '' '') (take (Suc n) tokens)) of
        Some arity \<Rightarrow> take arity tokens
      | None \<Rightarrow> prefix_from tokens n)"

definition command_prefix :: "jstring list \<Rightarrow> jstring list" where
  "command_prefix tokens = prefix_from tokens (length tokens)"

section \<open>Lemmas\<close>

lemma prefix_from_None:
  "\<forall>j. n < j \<and> j \<le> m \<longrightarrow> arity_of (join (js '' '') (take j tokens)) = None \<Longrightarrow> n \<le> m \<Longrightarrow>
   prefix_from tokens m = prefix_from tokens n"
proof (induction m)
  case 0
  then show ?case by simp
next
  case (Suc m)
  then show ?case by (cases "n = Suc m") auto
qed

lemma prefix_from_take: "\<exists>k. prefix_from tokens n = take k tokens"
  by (induction n) (auto split: option.splits intro: exI [of _ 0])

lemma longest_entry_wins:
  assumes "1 \<le> n" and "n \<le> length tokens"
    and "arity_of (join (js '' '') (take n tokens)) = Some a"
    and "\<forall>j. n < j \<and> j \<le> length tokens \<longrightarrow> arity_of (join (js '' '') (take j tokens)) = None"
  shows "command_prefix tokens = take a tokens"
proof -
  have "prefix_from tokens (length tokens) = prefix_from tokens n"
    using assms(2,4) by (intro prefix_from_None) auto
  then show ?thesis using assms(1,3) by (cases n) (auto simp: command_prefix_def)
qed

lemma map_of_js: "map_of (map (\<lambda>(s, n). (js s, n)) t) (js k) = map_of t k"
  by (induction t) auto

lemma arity_of_js:
  "arity_of (js s) = (case map_of ARITY s of Some n \<Rightarrow> Some n
     | None \<Rightarrow> if s \<in> set prototype_names then Some 0 else None)"
  by (auto simp: arity_of_def map_of_js split: option.splits)

lemma not_listed:
  "map_of ARITY ''constructor'' = None"
  "map_of ARITY ''hasOwnProperty'' = None"
  "map_of ARITY ''isPrototypeOf'' = None"
  "map_of ARITY ''propertyIsEnumerable'' = None"
  "map_of ARITY ''toString'' = None"
  "map_of ARITY ''valueOf'' = None"
  "map_of ARITY ''toLocaleString'' = None"
  "map_of ARITY ''__defineGetter__'' = None"
  "map_of ARITY ''__defineSetter__'' = None"
  "map_of ARITY ''__lookupGetter__'' = None"
  "map_of ARITY ''__lookupSetter__'' = None"
  "map_of ARITY ''__proto__'' = None"
  by code_simp+

lemma prototype_names_not_listed: "\<forall>s\<in>set prototype_names. map_of ARITY s = None"
  using not_listed unfolding prototype_names_def by (simp only: list.set ball_simps simp_thms)

section \<open>Properties\<close>

text \<open>
  The longest prefix of the command that the table knows decides how many tokens are kept.
\<close>

theorem command_prefix_longest:
  assumes "1 \<le> n" and "n \<le> length tokens"
    and "arity_of (join (js '' '') (take n tokens)) = Some a"
    and "\<forall>j. n < j \<and> j \<le> length tokens \<longrightarrow> arity_of (join (js '' '') (take j tokens)) = None"
  shows "command_prefix tokens = take a tokens"
  using assms by (rule longest_entry_wins)

theorem command_prefix_longest_witness:
  "command_prefix [js ''npm'', js ''run'', js ''dev'', js ''-x''] = [js ''npm'', js ''run'', js ''dev'']"
proof -
  let ?t = "[js ''npm'', js ''run'', js ''dev'', js ''-x'']"
  have a: "arity_of (join (js '' '') (take 2 ?t)) = Some 3" by code_simp
  have b: "arity_of (join (js '' '') (take 3 ?t)) = None" "arity_of (join (js '' '') (take 4 ?t)) = None"
    by code_simp+
  have "\<forall>j. 2 < j \<and> j \<le> length ?t \<longrightarrow> arity_of (join (js '' '') (take j ?t)) = None"
  proof (intro allI impI)
    fix j :: nat
    assume "2 < j \<and> j \<le> length ?t"
    then have "j = 3 \<or> j = 4" by auto
    with b show "arity_of (join (js '' '') (take j ?t)) = None" by blast
  qed
  from command_prefix_longest [of 2 ?t 3, OF _ _ a this] show ?thesis by simp
qed

text \<open>
  A command whose name is a property of \<open>Object.prototype\<close> is cut to no token at all: the
  table is a plain object, the inherited member is not undefined, and the approval built from the
  result then names no command.
\<close>

theorem command_prefix_prototype_name:
  "\<forall>s\<in>set prototype_names. command_prefix [js s] = []"
proof -
  have "\<forall>s\<in>set prototype_names. arity_of (js s) = Some 0"
    using prototype_names_not_listed by (simp add: arity_of_js)
  then show ?thesis by (simp add: command_prefix_def)
qed

theorem command_prefix_prototype_name_witness:
  "command_prefix [js ''toString''] = []"
  using command_prefix_prototype_name by (simp add: prototype_names_def)

end
