(* ===== verification/Wildcard.thy ===== *)
theory Wildcard
  imports JS_Prelude "HOL-Library.List_Lexorder" "HOL-Library.Product_Lexorder" "HOL-Library.Sublist"
begin

text \<open>
  \<open>util/wildcard.ts\<close>: the glob matcher that permission rules, tool filters and command
  approvals go through. The source builds a regular expression from the pattern; here the
  expression is the list of its atoms (a literal code unit, \<open>.\<close>, \<open>.*\<close>) together with the
  optional tail \<open>( .*)?\<close>, and \<open>rmatch\<close> is the anchored backtracking match of that
  expression. Matching is shown equal to the set-theoretic meaning of the expression.

  The regular expression's flags are \<open>si\<close> on Windows and \<open>s\<close> elsewhere. \<open>ci\<close> is the
  case canonicalisation the flag \<open>i\<close> applies to both sides: the identity off Windows.
\<close>

section \<open>The matcher\<close>

datatype ratom = RUnit nat | RDot | RDotStar

definition atom_of :: "nat \<Rightarrow> ratom" where
  "atom_of c = (if c = of_char (CHR ''*'') then RDotStar
                else if c = of_char (CHR ''?'') then RDot else RUnit c)"

abbreviation backslash :: nat where "backslash \<equiv> 92"
abbreviation slash :: nat where "slash \<equiv> 47"

record regex =
  atoms :: "ratom list"
  opt_tail :: bool

definition compile :: "jstring \<Rightarrow> regex" where
  "compile pattern =
     (let p = replace_unit backslash slash pattern
      in if endsWith p (js '' *'')
         then \<lparr>atoms = map atom_of (dropEnd 2 p), opt_tail = True\<rparr>
         else \<lparr>atoms = map atom_of p, opt_tail = False\<rparr>)"

fun rmatch :: "(nat \<Rightarrow> nat) \<Rightarrow> bool \<Rightarrow> ratom list \<Rightarrow> jstring \<Rightarrow> bool" where
  "rmatch ci ot [] s = (case s of [] \<Rightarrow> True | c # _ \<Rightarrow> ot \<and> ci c = ci 32)"
| "rmatch ci ot (RUnit a # r) s =
     (case s of [] \<Rightarrow> False | c # cs \<Rightarrow> ci c = ci a \<and> rmatch ci ot r cs)"
| "rmatch ci ot (RDot # r) s = (case s of [] \<Rightarrow> False | c # cs \<Rightarrow> rmatch ci ot r cs)"
| "rmatch ci ot (RDotStar # r) s =
     (rmatch ci ot r s \<or> (case s of [] \<Rightarrow> False | c # cs \<Rightarrow> rmatch ci ot (RDotStar # r) cs))"

definition wildcard_match :: "(nat \<Rightarrow> nat) \<Rightarrow> jstring \<Rightarrow> jstring \<Rightarrow> bool" where
  "wildcard_match ci str pattern =
     (let r = compile pattern
      in rmatch ci (opt_tail r) (atoms r) (replace_unit backslash slash str))"

section \<open>Pattern tables\<close>

text \<open>
  \<open>all\<close> and \<open>allStructured\<close> walk the entries of a pattern table in the order of
  remeda's \<open>sortBy\<close> by key length, then by key, and keep the last value whose pattern matches.
  \<open>sortBy\<close> is a third-party function: it is an argument, and \<open>entry_sort\<close> is what its
  documentation promises.
\<close>

definition key_rank :: "jstring \<times> 'v \<Rightarrow> nat \<times> jstring" where
  "key_rank e = (length (fst e), fst e)"

definition wildcard_all ::
  "(nat \<Rightarrow> nat) \<Rightarrow> ((jstring \<times> 'v) list \<Rightarrow> (jstring \<times> 'v) list) \<Rightarrow> jstring \<Rightarrow>
   (jstring \<times> 'v) list \<Rightarrow> 'v option" where
  "wildcard_all ci sortBy input patterns =
     foldl (\<lambda>result (pattern, value). if wildcard_match ci input pattern then Some value else result)
       None (sortBy patterns)"

fun matchSequence :: "(nat \<Rightarrow> nat) \<Rightarrow> jstring list \<Rightarrow> jstring list \<Rightarrow> bool" where
  "matchSequence ci items [] = True"
| "matchSequence ci items (pattern # rest) =
     (if pattern = js ''*'' then matchSequence ci items rest
      else list_ex (\<lambda>i. wildcard_match ci (items ! i) pattern \<and>
                        matchSequence ci (drop (Suc i) items) rest) [0..<length items])"

definition allStructured ::
  "(nat \<Rightarrow> nat) \<Rightarrow> ((jstring \<times> 'v) list \<Rightarrow> (jstring \<times> 'v) list) \<Rightarrow> jstring \<Rightarrow> jstring list \<Rightarrow>
   (jstring \<times> 'v) list \<Rightarrow> 'v option" where
  "allStructured ci sortBy head tail patterns =
     foldl (\<lambda>result (pattern, value).
         case split_ws pattern of
           [] \<Rightarrow> result
         | first # parts \<Rightarrow>
             if \<not> wildcard_match ci head first then result
             else if parts = [] \<or> matchSequence ci tail parts then Some value else result)
       None (sortBy patterns)"

section \<open>What a match means\<close>

fun atom_lang :: "(nat \<Rightarrow> nat) \<Rightarrow> ratom \<Rightarrow> jstring set" where
  "atom_lang ci (RUnit a) = {[c] |c. ci c = ci a}"
| "atom_lang ci RDot = {[c] |c. True}"
| "atom_lang ci RDotStar = UNIV"

fun lang :: "(nat \<Rightarrow> nat) \<Rightarrow> ratom list \<Rightarrow> jstring set" where
  "lang ci [] = {[]}"
| "lang ci (a # r) = {u @ v |u v. u \<in> atom_lang ci a \<and> v \<in> lang ci r}"

definition tail_lang :: "(nat \<Rightarrow> nat) \<Rightarrow> bool \<Rightarrow> jstring set" where
  "tail_lang ci ot = insert [] (if ot then {c # w |c w. ci c = ci 32} else {})"

lemma rmatch_star: "rmatch ci ot (RDotStar # r) s \<longleftrightarrow> (\<exists>u v. s = u @ v \<and> rmatch ci ot r v)"
proof (induction s)
  case Nil
  then show ?case by simp
next
  case (Cons c s)
  have "(\<exists>u v. c # s = u @ v \<and> rmatch ci ot r v) \<longleftrightarrow>
        rmatch ci ot r (c # s) \<or> (\<exists>u v. s = u @ v \<and> rmatch ci ot r v)"
    by (auto simp: Cons_eq_append_conv)
  then show ?case using Cons by simp
qed

lemma lang_unit_Cons:
  "s \<in> lang ci (RUnit a # r) \<longleftrightarrow> (\<exists>c v. s = c # v \<and> ci c = ci a \<and> v \<in> lang ci r)"
proof
  assume "\<exists>c v. s = c # v \<and> ci c = ci a \<and> v \<in> lang ci r"
  then obtain c v where "s = [c] @ v" "ci c = ci a" "v \<in> lang ci r" by auto
  then show "s \<in> lang ci (RUnit a # r)" by (simp only: lang.simps atom_lang.simps) blast
qed auto

lemma lang_dot_Cons: "s \<in> lang ci (RDot # r) \<longleftrightarrow> (\<exists>c v. s = c # v \<and> v \<in> lang ci r)"
proof
  assume "\<exists>c v. s = c # v \<and> v \<in> lang ci r"
  then obtain c v where "s = [c] @ v" "v \<in> lang ci r" by auto
  then show "s \<in> lang ci (RDot # r)" by (simp only: lang.simps atom_lang.simps) blast
qed auto

lemma lang_star_Cons: "s \<in> lang ci (RDotStar # r) \<longleftrightarrow> (\<exists>u v. s = u @ v \<and> v \<in> lang ci r)"
  by simp

lemmas lang_Cons = lang_unit_Cons lang_dot_Cons lang_star_Cons

lemma rmatch_lang:
  "rmatch ci ot r s \<longleftrightarrow> (\<exists>u v. s = u @ v \<and> u \<in> lang ci r \<and> v \<in> tail_lang ci ot)"
proof (induction r arbitrary: s)
  case Nil
  then show ?case by (auto simp: tail_lang_def split: list.splits)
next
  case (Cons a r)
  show ?case
  proof (cases a)
    case (RUnit c)
    then show ?thesis
      by (cases s) (auto simp: Cons lang_Cons Cons_eq_append_conv simp del: lang.simps)
  next
    case RDot
    then show ?thesis
      by (cases s) (auto simp: Cons lang_Cons Cons_eq_append_conv simp del: lang.simps)
  next
    case RDotStar
    have "(\<exists>u v. s = u @ v \<and> rmatch ci ot r v) \<longleftrightarrow>
        (\<exists>u u' v. s = (u @ u') @ v \<and> u' \<in> lang ci r \<and> v \<in> tail_lang ci ot)"
      by (auto simp: Cons)
    then show ?thesis
      unfolding RDotStar rmatch_star lang_star_Cons by blast
  qed
qed

lemma lang_units: "s \<in> lang ci (map RUnit w) \<longleftrightarrow> map ci s = map ci w"
proof (induction w arbitrary: s)
  case Nil
  then show ?case by simp
next
  case (Cons c w)
  then show ?case by (auto simp: lang_Cons map_eq_Cons_conv simp del: lang.simps)
qed

lemma map_atom_of_plain:
  "42 \<notin> set p \<Longrightarrow> 63 \<notin> set p \<Longrightarrow> map atom_of p = map RUnit p"
  by (induction p) (auto simp: atom_of_def)

lemma replace_unit_append [simp]: "replace_unit a b (s @ t) = replace_unit a b s @ replace_unit a b t"
  by (simp add: replace_unit_def)

lemma replace_unit_js_tail [simp]: "replace_unit backslash slash (js '' *'') = js '' *''"
  by (simp add: replace_unit_def js_def)

lemma replace_unit_set: "c \<noteq> slash \<Longrightarrow> c \<notin> set s \<Longrightarrow> c \<notin> set (replace_unit backslash slash s)"
  by (auto simp: replace_unit_def)

lemma map_atom_of_replace:
  "42 \<notin> set p \<Longrightarrow> 63 \<notin> set p \<Longrightarrow>
   map atom_of (replace_unit backslash slash p) = map RUnit (replace_unit backslash slash p)"
  by (simp add: map_atom_of_plain replace_unit_set)

lemma compile_star: "compile (js ''*'') = \<lparr>atoms = [RDotStar], opt_tail = False\<rparr>"
  by (simp add: compile_def js_def replace_unit_def endsWith_def atom_of_def)

text \<open>The pattern \<open>*\<close> matches everything: the fallback rule of every permission table.\<close>

lemma match_star [simp]: "wildcard_match ci s (js ''*'')"
  by (simp add: wildcard_match_def compile_star rmatch_lang tail_lang_def)

lemma compile_opt:
  "compile (p @ js '' *'') = \<lparr>atoms = map atom_of (replace_unit backslash slash p), opt_tail = True\<rparr>"
  by (auto simp: compile_def endsWith_suffix Let_def)

lemma compile_plain:
  "42 \<notin> set p \<Longrightarrow> compile p = \<lparr>atoms = map atom_of (replace_unit backslash slash p), opt_tail = False\<rparr>"
  using replace_unit_set [of 42 p]
  by (auto simp: compile_def endsWith_suffix Let_def js_def)

lemma wildcard_match_lang:
  "wildcard_match ci s p \<longleftrightarrow>
     (\<exists>u v. replace_unit backslash slash s = u @ v \<and> u \<in> lang ci (atoms (compile p)) \<and>
            v \<in> tail_lang ci (opt_tail (compile p)))"
  by (simp add: wildcard_match_def rmatch_lang Let_def)

lemma match_plain:
  assumes "42 \<notin> set p" and "63 \<notin> set p"
  shows "wildcard_match ci s p \<longleftrightarrow>
     map ci (replace_unit backslash slash s) = map ci (replace_unit backslash slash p)"
  using assms
  by (auto simp: wildcard_match_lang compile_plain lang_units tail_lang_def map_atom_of_replace)

lemma self_lang: "p \<in> lang ci (map atom_of p)"
proof (induction p)
  case Nil
  then show ?case by simp
next
  case (Cons c p)
  have "[c] \<in> atom_lang ci (atom_of c)" by (simp add: atom_of_def)
  with Cons show ?case by (simp only: list.map lang.simps) (metis (mono_tags, lifting) append_Cons append_Nil mem_Collect_eq)
qed

text \<open>Every pattern matches its own text.\<close>

lemma match_refl [simp]: "wildcard_match ci p p"
proof (cases "endsWith (replace_unit backslash slash p) (js '' *'')")
  case True
  then obtain q where q: "replace_unit backslash slash p = q @ js '' *''"
    by (auto simp: endsWith_suffix)
  then have "compile p = \<lparr>atoms = map atom_of q, opt_tail = True\<rparr>"
    by (auto simp: compile_def endsWith_suffix)
  then show ?thesis using q self_lang [of q ci]
    by (auto simp: wildcard_match_lang tail_lang_def js_def)
next
  case False
  then have "compile p = \<lparr>atoms = map atom_of (replace_unit backslash slash p), opt_tail = False\<rparr>"
    by (simp add: compile_def)
  then show ?thesis using self_lang [of "replace_unit backslash slash p" ci]
    by (auto simp: wildcard_match_lang tail_lang_def)
qed

section \<open>The table walk\<close>

lemma foldl_last_match:
  "foldl (\<lambda>res (k, v). if Q k v then Some v else res) acc xs =
     (case findLast (\<lambda>(k, v). Q k v) xs of None \<Rightarrow> acc | Some (k, v) \<Rightarrow> Some v)"
  by (induction xs rule: rev_induct) (auto split: option.splits)

locale entry_sort =
  fixes sortBy :: "(jstring \<times> 'v) list \<Rightarrow> (jstring \<times> 'v) list"
  assumes sort_perm: "mset (sortBy xs) = mset xs"
    and sort_sorted: "sorted (map key_rank (sortBy xs))"
begin

lemma sort_set [simp]: "set (sortBy xs) = set xs"
  using sort_perm [of xs] by (metis set_mset_mset)

lemma last_match_greatest:
  assumes "findLast Q (sortBy xs) = Some e" and "e' \<in> set xs" and "Q e'"
  shows "key_rank e' \<le> key_rank e"
proof -
  obtain ys zs where split: "sortBy xs = ys @ e # zs" "\<forall>z\<in>set zs. \<not> Q z"
    using findLast_split [OF assms(1)] by blast
  have "e' \<in> set (sortBy xs)" using assms(2) by simp
  with split assms(3) have "e' \<in> set ys \<or> e' = e" by auto
  then show ?thesis using sort_sorted [of xs] split(1) by (auto simp: sorted_append)
qed

lemma all_cases:
  "wildcard_all ci sortBy input xs =
     map_option snd (findLast (\<lambda>(p, v). wildcard_match ci input p) (sortBy xs))"
  unfolding wildcard_all_def
  by (subst foldl_last_match) (auto split: option.splits)

lemma all_None: "wildcard_all ci sortBy input xs = None \<longleftrightarrow>
    (\<forall>(p, v)\<in>set xs. \<not> wildcard_match ci input p)"
  by (auto simp: all_cases findLast_None)

lemma all_Some:
  assumes "wildcard_all ci sortBy input xs = Some v"
  shows "\<exists>p. (p, v) \<in> set xs \<and> wildcard_match ci input p \<and>
    (\<forall>(p', v')\<in>set xs. wildcard_match ci input p' \<longrightarrow>
       length p' < length p \<or> length p' = length p \<and> p' \<le> p)"
proof -
  obtain p where f: "findLast (\<lambda>(p, v). wildcard_match ci input p) (sortBy xs) = Some (p, v)"
    using assms by (auto simp: all_cases)
  then have mem: "(p, v) \<in> set xs" "wildcard_match ci input p"
    using findLast_SomeD [OF f] by auto
  have "length p' < length p \<or> length p' = length p \<and> p' \<le> p"
    if "(p', v') \<in> set xs" "wildcard_match ci input p'" for p' v'
    using last_match_greatest [OF f that(1)] that(2) by (auto simp: key_rank_def)
  with mem show ?thesis by blast
qed

end

interpretation stable_sort: entry_sort "sort_key key_rank"
  by unfold_locales simp_all

lemma list_ex_upt: "list_ex P [0..<n] \<longleftrightarrow> (\<exists>i<n. P i)"
  by (auto simp: list_ex_iff)

lemma ex_split_subseq:
  "(\<exists>i<length items. Q (items ! i) \<and> (\<exists>sub. subseq sub (drop (Suc i) items) \<and> R sub)) \<longleftrightarrow>
   (\<exists>x sub. subseq (x # sub) items \<and> Q x \<and> R sub)" (is "?L \<longleftrightarrow> ?R")
proof
  assume ?L
  then obtain i sub where i: "i < length items" "Q (items ! i)" "subseq sub (drop (Suc i) items)" "R sub"
    by blast
  have "items = take i items @ items ! i # drop (Suc i) items"
    using i(1) by (rule id_take_nth_drop)
  with i(3) have "subseq (items ! i # sub) items"
    by (metis list_emb_append2 subseq_Cons2)
  with i show ?R by blast
next
  assume ?R
  then obtain x sub where x: "subseq (x # sub) items" "Q x" "R sub" by blast
  then obtain us vs where "items = us @ x # vs" "subseq sub vs"
    using list_emb_ConsD [OF x(1)] by blast
  then show ?L using x by (intro exI [of _ "length us"]) auto
qed

lemma matchSequence_subseq:
  "matchSequence ci items pats \<longleftrightarrow>
     (\<exists>sub. subseq sub items \<and>
        list_all2 (wildcard_match ci) sub (filter (\<lambda>p. p \<noteq> js ''*'') pats))"
proof (induction pats arbitrary: items)
  case Nil
  then show ?case by (auto intro: exI [of _ "[]"])
next
  case (Cons p pats)
  show ?case
  proof (cases "p = js ''*''")
    case True
    then show ?thesis using Cons by simp
  next
    case False
    then have "matchSequence ci items (p # pats) \<longleftrightarrow>
        (\<exists>x sub. subseq (x # sub) items \<and> wildcard_match ci x p \<and>
           list_all2 (wildcard_match ci) sub (filter (\<lambda>p. p \<noteq> js ''*'') pats))"
      using ex_split_subseq [of items "\<lambda>x. wildcard_match ci x p"
          "\<lambda>sub. list_all2 (wildcard_match ci) sub (filter (\<lambda>p. p \<noteq> js ''*'') pats)"]
      by (simp add: Cons.IH list_ex_upt)
    then show ?thesis using False by (auto simp: list_all2_Cons2)
  qed
qed

section \<open>Properties\<close>


text \<open>
  A command rule \<open>cmd *\<close> whose command has no wildcard of its own covers the bare command
  and the command followed by a space and anything, and nothing else: \<open>ls *\<close> covers
  \<open>ls\<close> and \<open>ls -la\<close> but not \<open>lsof\<close>.
\<close>

theorem wildcard_command_rule:
  assumes "42 \<notin> set cmd" and "63 \<notin> set cmd"
  shows "wildcard_match id s (cmd @ js '' *'') \<longleftrightarrow>
    (let s' = replace_unit backslash slash s; c' = replace_unit backslash slash cmd
     in s' = c' \<or> (\<exists>rest. s' = c' @ 32 # rest))"
  using assms
  by (auto simp: wildcard_match_lang compile_opt lang_units tail_lang_def Let_def map_atom_of_replace)

theorem wildcard_command_rule_witness:
  "wildcard_match id (js ''ls -la'') (js ''ls'' @ js '' *'') \<and>
   \<not> wildcard_match id (js ''lsof'') (js ''ls'' @ js '' *'')"
proof -
  have h: "42 \<notin> set (js ''ls'')" "63 \<notin> set (js ''ls'')" by (simp_all add: js_def)
  show ?thesis
    using wildcard_command_rule [OF h, of "js ''ls -la''"]
      wildcard_command_rule [OF h, of "js ''lsof''"]
    by (simp add: js_def replace_unit_def)
qed

text \<open>
  Matching a command's arguments against a sequence of patterns holds exactly when the
  patterns other than \<open>*\<close> match, in order, some subsequence of the arguments.
\<close>

theorem matchSequence_meaning:
  "matchSequence ci items pats \<longleftrightarrow>
     (\<exists>sub. subseq sub items \<and>
        list_all2 (wildcard_match ci) sub (filter (\<lambda>p. p \<noteq> js ''*'') pats))"
  by (rule matchSequence_subseq)

text \<open>
  Looking an input up in a pattern table returns the value of the most specific matching
  pattern (the longest, then the greatest in code-unit order), and nothing only when no pattern
  matches.
\<close>

theorem wildcard_all_most_specific:
  fixes sortBy :: "(jstring \<times> 'v) list \<Rightarrow> (jstring \<times> 'v) list"
  assumes "entry_sort sortBy"
  shows "case wildcard_all ci sortBy input xs of
      None \<Rightarrow> \<forall>(p, v)\<in>set xs. \<not> wildcard_match ci input p
    | Some v \<Rightarrow> \<exists>p. (p, v) \<in> set xs \<and> wildcard_match ci input p \<and>
        (\<forall>(p', v')\<in>set xs. wildcard_match ci input p' \<longrightarrow>
           length p' < length p \<or> length p' = length p \<and> p' \<le> p)"
proof (cases "wildcard_all ci sortBy input xs")
  case None
  then show ?thesis using entry_sort.all_None [OF assms] by fastforce
next
  case (Some v)
  then show ?thesis using entry_sort.all_Some [OF assms Some] by simp
qed

theorem wildcard_all_most_specific_witness:
  "wildcard_all id (sort_key key_rank) (js ''git log'')
     [(js ''git *'', js ''ask''), (js ''*'', js ''deny'')] = Some (js ''ask'') \<and>
   (\<exists>p. (p, js ''ask'') \<in> set [(js ''git *'', js ''ask''), (js ''*'', js ''deny'')] \<and>
        wildcard_match id (js ''git log'') p)"
proof -
  let ?xs = "[(js ''git *'', js ''ask''), (js ''*'', js ''deny'')]"
  have e: "wildcard_all id (sort_key key_rank) (js ''git log'') ?xs = Some (js ''ask'')"
    by code_simp
  show ?thesis
    using wildcard_all_most_specific [OF stable_sort.entry_sort_axioms,
        where ci = id and input = "js ''git log''" and xs = ?xs] e
    by auto
qed

end
