(* ===== verification/Permission.thy ===== *)
theory Permission
  imports Wildcard
begin

text \<open>
  \<open>permission/evaluate.ts\<close>, \<open>permission/index.ts\<close> and the allow-list of
  \<open>project/instance.ts\<close>: rule evaluation, the service that suspends a tool call until the user
  answers, and the translation of the configuration into rules.

  The service's state is \<open>pstate\<close>. A handler of the source that suspends on a deferred is split
  where it suspends: \<open>ask\<close> runs to the await, \<open>ask_resume\<close> and \<open>ask_timeout\<close> are the two
  ways the await ends. The calls a handler makes on the bus, on deferreds and on the memory
  client leave the program: they are recorded, in order, in \<open>calls\<close>. Handlers are atomic at
  that granularity. \<open>penv\<close> collects what the code reads from outside: the case
  canonicalisation of the platform, whether a memory client exists, the path resolver, the opened
  directory and the home directory.
\<close>

section \<open>Rules\<close>

datatype action = Allow | Deny | Ask

record rule =
  rule_permission :: jstring
  rule_pattern :: jstring
  rule_action :: action

text \<open>A ruleset may hold \<open>undefined\<close> or \<open>null\<close> entries, which are \<open>None\<close> here.\<close>

type_synonym ruleset = "rule option list"

definition present :: "ruleset \<Rightarrow> rule list" where
  "present rs = map the (filter (\<lambda>r. r \<noteq> None) rs)"

definition rule_matches :: "(nat \<Rightarrow> nat) \<Rightarrow> jstring \<Rightarrow> jstring \<Rightarrow> rule \<Rightarrow> bool" where
  "rule_matches ci permission pattern r \<longleftrightarrow>
     wildcard_match ci permission (rule_permission r) \<and> wildcard_match ci pattern (rule_pattern r)"

definition evaluate :: "(nat \<Rightarrow> nat) \<Rightarrow> jstring \<Rightarrow> jstring \<Rightarrow> ruleset list \<Rightarrow> rule" where
  "evaluate ci permission pattern rulesets =
     (case findLast (rule_matches ci permission pattern) (present (concat rulesets)) of
        Some r \<Rightarrow> r
      | None \<Rightarrow> \<lparr>rule_permission = permission, rule_pattern = js ''*'', rule_action = Ask\<rparr>)"

definition merge :: "ruleset list \<Rightarrow> ruleset" where
  "merge rulesets = filter (\<lambda>r. r \<noteq> None) (concat rulesets)"

definition EDIT_TOOLS :: "jstring list" where
  "EDIT_TOOLS = [js ''edit'', js ''write'', js ''apply_patch'']"

definition tool_permission :: "jstring \<Rightarrow> jstring" where
  "tool_permission tool = (if tool \<in> set EDIT_TOOLS then js ''edit'' else tool)"

definition disabled :: "(nat \<Rightarrow> nat) \<Rightarrow> jstring list \<Rightarrow> ruleset \<Rightarrow> jstring set" where
  "disabled ci tools rules =
     set (filter (\<lambda>tool.
        case findLast (\<lambda>r. wildcard_match ci (tool_permission tool) (rule_permission r)) (present rules) of
          None \<Rightarrow> False
        | Some r \<Rightarrow> rule_pattern r = js ''*'' \<and> rule_action r = Deny) tools)"

section \<open>Configuration\<close>

datatype perm_value = VAction action | VObject "(jstring \<times> action) list"

definition expand :: "jstring \<Rightarrow> jstring \<Rightarrow> jstring" where
  "expand homedir pattern =
     (if startsWith pattern (js ''~/'') then homedir @ drop 1 pattern
      else if pattern = js ''~'' then homedir
      else if startsWith pattern (js ''$HOME/'') then homedir @ drop 5 pattern
      else if startsWith pattern (js ''$HOME'') then homedir @ drop 5 pattern
      else pattern)"

definition is_wild :: "jstring \<Rightarrow> bool" where
  "is_wild k \<longleftrightarrow> of_char (CHR ''*'') \<in> set k"

fun config_rules :: "jstring \<Rightarrow> jstring \<times> perm_value \<Rightarrow> rule list" where
  "config_rules homedir (key, VAction a) =
     [\<lparr>rule_permission = key, rule_pattern = js ''*'', rule_action = a\<rparr>]"
| "config_rules homedir (key, VObject ps) =
     map (\<lambda>(pattern, a). \<lparr>rule_permission = key, rule_pattern = expand homedir pattern, rule_action = a\<rparr>) ps"

definition fromConfig :: "jstring \<Rightarrow> (jstring \<times> perm_value) list \<Rightarrow> rule list" where
  "fromConfig homedir permission =
     concat (map (config_rules homedir)
       (sort_key (\<lambda>e. if is_wild (fst e) then 0 else (1 :: nat)) permission))"

text \<open>\<open>normalizeInput\<close> of \<open>config/permission.ts\<close>: a bare action is shorthand for \<open>*\<close>.\<close>

datatype perm_input = PAction action | PObject "(jstring \<times> perm_value) list"

fun normalizeInput :: "perm_input \<Rightarrow> (jstring \<times> perm_value) list" where
  "normalizeInput (PAction a) = [(js ''*'', VAction a)]"
| "normalizeInput (PObject o') = o'"

definition directoryOfPattern :: "jstring \<Rightarrow> jstring option" where
  "directoryOfPattern pattern =
     (let normalized = replace_unit backslash slash pattern
      in if \<not> endsWith normalized (js ''/*'') then None
         else let dir = dropEnd 2 normalized
              in if dir = [] \<or> of_char (CHR ''*'') \<in> set dir then None else Some dir)"

section \<open>The service\<close>

datatype meta_value = MString jstring | MOther

record request =
  req_id :: jstring
  sessionID :: jstring
  permission :: jstring
  patterns :: "jstring list"
  metadata :: "(jstring \<times> meta_value) list"
  always :: "jstring list"
  tool_call :: "(jstring \<times> jstring) option"

datatype reply = Once | Always | Reject

datatype perm_error = RejectedError | CorrectedError jstring | DeniedError "rule list"

datatype event =
  Asked request
| Replied (rep_session: jstring) (rep_request: jstring) (rep_reply: reply)

record plan_summary =
  sum_permission :: jstring
  sum_patterns :: "jstring list"
  sum_feedback :: "jstring option"
  sum_filepath :: "jstring option"
  sum_source :: "jstring option"
  sum_promptID :: "jstring option"

record plan_profile =
  content :: plan_summary
  category :: jstring
  userId :: jstring
  projectId :: jstring
  meta_source :: jstring
  meta_requestID :: jstring

datatype call =
  Publish event
| DeferredSucceed nat
| DeferredFail nat perm_error
| UpdateProfile plan_profile

record pending_entry =
  info :: request
  deferred :: nat

record pstate =
  pending :: "(jstring, pending_entry) jmap"
  approved :: "rule list"
  next_deferred :: nat
  allowedPaths :: "jstring list"
  calls :: "call list"

record penv =
  canon :: "nat \<Rightarrow> nat"
  has_memory :: bool
  resolve :: "jstring \<Rightarrow> jstring"
  directory :: jstring

definition init_pstate :: "rule list \<Rightarrow> pstate" where
  "init_pstate rows = \<lparr>pending = [], approved = rows, next_deferred = 0, allowedPaths = [], calls = []\<rparr>"

definition emit :: "call list \<Rightarrow> pstate \<Rightarrow> pstate" where
  "emit cs st = st\<lparr>calls := calls st @ cs\<rparr>"

definition drop_pending :: "jstring \<Rightarrow> pstate \<Rightarrow> pstate" where
  "drop_pending k st = st\<lparr>pending := jmap_delete k (pending st)\<rparr>"

text \<open>The finalizer: every open request fails, the table is cleared.\<close>

definition finalize :: "pstate \<Rightarrow> pstate" where
  "finalize st =
     (emit (map (\<lambda>(k, item). DeferredFail (deferred item) RejectedError) (pending st)) st)\<lparr>pending := []\<rparr>"

record ask_input =
  ai_id :: "jstring option"
  ai_session :: jstring
  ai_permission :: jstring
  ai_patterns :: "jstring list"
  ai_metadata :: "(jstring \<times> meta_value) list"
  ai_always :: "jstring list"
  ai_tool :: "(jstring \<times> jstring) option"
  ai_ruleset :: ruleset

datatype ask_result = AskFailed perm_error | AskPassed | AskWaiting jstring nat

fun ask_scan ::
  "(nat \<Rightarrow> nat) \<Rightarrow> jstring \<Rightarrow> ruleset \<Rightarrow> rule list \<Rightarrow> jstring list \<Rightarrow> bool \<Rightarrow> perm_error + bool" where
  "ask_scan ci perm rs appr [] needsAsk = Inr needsAsk"
| "ask_scan ci perm rs appr (pattern # ps) needsAsk =
     (case rule_action (evaluate ci perm pattern [rs, map Some appr]) of
        Deny \<Rightarrow> Inl (DeniedError (filter (\<lambda>r. wildcard_match ci perm (rule_permission r)) (present rs)))
      | Allow \<Rightarrow> ask_scan ci perm rs appr ps needsAsk
      | Ask \<Rightarrow> ask_scan ci perm rs appr ps True)"

definition ask_request :: "jstring \<Rightarrow> ask_input \<Rightarrow> request" where
  "ask_request i input =
     \<lparr>req_id = i, sessionID = ai_session input, permission = ai_permission input,
      patterns = ai_patterns input, metadata = ai_metadata input, always = ai_always input,
      tool_call = ai_tool input\<rparr>"

text \<open>\<open>fresh\<close> is the identifier \<open>PermissionID.ascending()\<close> returns.\<close>

definition ask_id :: "jstring \<Rightarrow> ask_input \<Rightarrow> jstring" where
  "ask_id fresh input = (case ai_id input of Some i \<Rightarrow> i | None \<Rightarrow> fresh)"

definition ask :: "penv \<Rightarrow> jstring \<Rightarrow> ask_input \<Rightarrow> pstate \<Rightarrow> ask_result \<times> pstate" where
  "ask env fresh input st =
     (case ask_scan (canon env) (ai_permission input) (ai_ruleset input) (approved st)
            (ai_patterns input) False of
        Inl e \<Rightarrow> (AskFailed e, st)
      | Inr False \<Rightarrow> (AskPassed, st)
      | Inr True \<Rightarrow>
          (let i = ask_id fresh input; d = next_deferred st; req = ask_request i input
           in (AskWaiting i d,
               emit [Publish (Asked req)]
                 (st\<lparr>pending := jmap_set i \<lparr>info = req, deferred = d\<rparr> (pending st),
                     next_deferred := Suc d\<rparr>))))"

definition await_minutes :: "jstring \<Rightarrow> nat" where
  "await_minutes perm = (if perm = js ''plan_confirm'' then 5 else 2)"

text \<open>The await ends: with the deferred's result, or by the timeout. Both drop the entry.\<close>

definition ask_resume :: "jstring \<Rightarrow> perm_error option \<Rightarrow> pstate \<Rightarrow> ask_result \<times> pstate" where
  "ask_resume i outcome st =
     ((case outcome of None \<Rightarrow> AskPassed | Some e \<Rightarrow> AskFailed e), drop_pending i st)"

definition ask_timeout :: "request \<Rightarrow> pstate \<Rightarrow> ask_result \<times> pstate" where
  "ask_timeout req st =
     (AskFailed RejectedError,
      drop_pending (req_id req) (emit [Publish (Replied (sessionID req) (req_id req) Reject)] st))"

definition meta_string :: "request \<Rightarrow> string \<Rightarrow> jstring option" where
  "meta_string req k =
     (case map_of (metadata req) (js k) of Some (MString s) \<Rightarrow> Some s | _ \<Rightarrow> None)"

definition summarizeRejectedPlan :: "request \<Rightarrow> jstring option \<Rightarrow> plan_summary" where
  "summarizeRejectedPlan req message =
     \<lparr>sum_permission = permission req, sum_patterns = patterns req, sum_feedback = message,
      sum_filepath = meta_string req ''filepath'', sum_source = meta_string req ''source'',
      sum_promptID = meta_string req ''promptID''\<rparr>"

definition rememberRejectedPlan :: "penv \<Rightarrow> request \<Rightarrow> jstring option \<Rightarrow> call list" where
  "rememberRejectedPlan env req message =
     (if permission req \<noteq> js ''plan_confirm'' then []
      else if \<not> has_memory env then []
      else [UpdateProfile
             \<lparr>content = summarizeRejectedPlan req message, category = js ''rejected_plan'',
              userId = js ''default'', projectId = directory env,
              meta_source = js ''plan_confirm'', meta_requestID = req_id req\<rparr>])"

definition addAllowedPath :: "penv \<Rightarrow> jstring \<Rightarrow> pstate \<Rightarrow> pstate" where
  "addAllowedPath env dir st =
     (let resolved = resolve env dir
      in if list_ex (\<lambda>p. resolve env p = resolved) (allowedPaths st) then st
         else st\<lparr>allowedPaths := allowedPaths st @ [resolved]\<rparr>)"

definition rejection :: "jstring option \<Rightarrow> perm_error" where
  "rejection message =
     (case message of Some m \<Rightarrow> (if m = [] then RejectedError else CorrectedError m) | None \<Rightarrow> RejectedError)"

definition settle :: "jstring \<Rightarrow> pending_entry \<Rightarrow> reply \<Rightarrow> call \<Rightarrow> pstate \<Rightarrow> pstate" where
  "settle k item r c st =
     emit [Publish (Replied (sessionID (info item)) (req_id (info item)) r), c] (drop_pending k st)"

fun reject_session :: "jstring \<Rightarrow> (jstring, pending_entry) jmap \<Rightarrow> pstate \<Rightarrow> pstate" where
  "reject_session sess [] st = st"
| "reject_session sess ((k, item) # es) st =
     reject_session sess es
       (if sessionID (info item) \<noteq> sess then st
        else settle k item Reject (DeferredFail (deferred item) RejectedError) st)"

definition covered :: "(nat \<Rightarrow> nat) \<Rightarrow> rule list \<Rightarrow> request \<Rightarrow> bool" where
  "covered ci appr req \<longleftrightarrow>
     list_all (\<lambda>pattern. rule_action (evaluate ci (permission req) pattern [map Some appr]) = Allow)
       (patterns req)"

fun approve_session ::
  "(nat \<Rightarrow> nat) \<Rightarrow> jstring \<Rightarrow> (jstring, pending_entry) jmap \<Rightarrow> pstate \<Rightarrow> pstate" where
  "approve_session ci sess [] st = st"
| "approve_session ci sess ((k, item) # es) st =
     approve_session ci sess es
       (if sessionID (info item) \<noteq> sess then st
        else if \<not> covered ci (approved st) (info item) then st
        else settle k item Always (DeferredSucceed (deferred item)) st)"

definition always_rules :: "request \<Rightarrow> rule list" where
  "always_rules req =
     map (\<lambda>pattern. \<lparr>rule_permission = permission req, rule_pattern = pattern, rule_action = Allow\<rparr>)
       (always req)"

definition mirror_allowed :: "penv \<Rightarrow> request \<Rightarrow> pstate \<Rightarrow> pstate" where
  "mirror_allowed env req st =
     (if permission req = js ''external_directory''
      then fold (\<lambda>pattern st. case directoryOfPattern pattern of
                    None \<Rightarrow> st | Some dir \<Rightarrow> addAllowedPath env dir st) (always req) st
      else st)"

record reply_input =
  requestID :: jstring
  reply_kind :: reply
  message :: "jstring option"

definition reply_reject :: "penv \<Rightarrow> pending_entry \<Rightarrow> jstring option \<Rightarrow> pstate \<Rightarrow> pstate" where
  "reply_reject env existing msg st =
     (let st' = emit (rememberRejectedPlan env (info existing) msg
                       @ [DeferredFail (deferred existing) (rejection msg)]) st
      in reject_session (sessionID (info existing)) (pending st') st')"

definition reply_always :: "penv \<Rightarrow> pending_entry \<Rightarrow> pstate \<Rightarrow> pstate" where
  "reply_always env existing st =
     (let st' = mirror_allowed env (info existing)
                  (st\<lparr>approved := approved st @ always_rules (info existing)\<rparr>)
      in approve_session (canon env) (sessionID (info existing)) (pending st') st')"

definition reply :: "penv \<Rightarrow> reply_input \<Rightarrow> pstate \<Rightarrow> pstate" where
  "reply env input st =
     (case jmap_get (pending st) (requestID input) of
        None \<Rightarrow> st
      | Some existing \<Rightarrow>
          (let st1 = emit [Publish (Replied (sessionID (info existing)) (req_id (info existing)) (reply_kind input))]
                       (drop_pending (requestID input) st)
           in case reply_kind input of
                Reject \<Rightarrow> reply_reject env existing (message input) st1
              | Once \<Rightarrow> emit [DeferredSucceed (deferred existing)] st1
              | Always \<Rightarrow> reply_always env existing (emit [DeferredSucceed (deferred existing)] st1)))"

definition list_pending :: "pstate \<Rightarrow> request list" where
  "list_pending st = map (\<lambda>(k, item). info item) (pending st)"

section \<open>Evaluation\<close>

lemma present_append [simp]: "present (xs @ ys) = present xs @ present ys"
  by (simp add: present_def)

lemma present_map_Some [simp]: "present (map Some rs) = rs"
  by (induction rs) (simp_all add: present_def)

lemma present_Nil [simp]: "present [] = []"
  by (simp add: present_def)

lemma present_merge [simp]: "present (merge rss) = present (concat rss)"
  by (simp add: present_def merge_def)

lemma evaluate_None:
  "\<forall>r\<in>set (present (concat rss)). \<not> rule_matches ci perm pat r \<Longrightarrow>
   evaluate ci perm pat rss = \<lparr>rule_permission = perm, rule_pattern = js ''*'', rule_action = Ask\<rparr>"
  using findLast_None [of "rule_matches ci perm pat" "present (concat rss)"]
  by (simp add: evaluate_def)

lemma evaluate_last:
  "present (concat rss) = ys @ r # zs \<Longrightarrow> rule_matches ci perm pat r \<Longrightarrow>
   \<forall>z\<in>set zs. \<not> rule_matches ci perm pat z \<Longrightarrow> evaluate ci perm pat rss = r"
proof -
  assume a: "present (concat rss) = ys @ r # zs" "rule_matches ci perm pat r"
    "\<forall>z\<in>set zs. \<not> rule_matches ci perm pat z"
  then have "findLast (rule_matches ci perm pat) zs = None" by (simp add: findLast_None)
  then have "findLast (rule_matches ci perm pat) (ys @ r # zs) = Some r"
    using a(2) findLast_append [of _ "ys @ [r]" zs] by simp
  then show ?thesis using a(1) by (simp add: evaluate_def)
qed

lemma evaluate_suffix:
  assumes "present (concat rss) = us @ vs" and "v \<in> set vs" and "rule_matches ci perm pat v"
  shows "evaluate ci perm pat rss \<in> set vs"
proof -
  have "findLast (rule_matches ci perm pat) vs \<noteq> None"
    using assms(2,3) by (auto simp: findLast_None)
  then obtain r where r: "findLast (rule_matches ci perm pat) vs = Some r" by auto
  then have "evaluate ci perm pat rss = r"
    by (simp add: evaluate_def assms(1) findLast_append)
  with findLast_SomeD [OF r] show ?thesis by simp
qed

section \<open>Scanning the patterns of a request\<close>

abbreviation pattern_action :: "(nat \<Rightarrow> nat) \<Rightarrow> jstring \<Rightarrow> ruleset \<Rightarrow> rule list \<Rightarrow> jstring \<Rightarrow> action" where
  "pattern_action ci perm rs appr p \<equiv> rule_action (evaluate ci perm p [rs, map Some appr])"

lemma ask_scan_Inl:
  "(\<exists>e. ask_scan ci perm rs appr ps n = Inl e) \<longleftrightarrow> (\<exists>p\<in>set ps. pattern_action ci perm rs appr p = Deny)"
  by (induction ps arbitrary: n) (auto split: action.splits)

lemma ask_scan_Inr:
  "ask_scan ci perm rs appr ps n = Inr b \<longleftrightarrow>
     (\<forall>p\<in>set ps. pattern_action ci perm rs appr p \<noteq> Deny) \<and>
     b = (n \<or> (\<exists>p\<in>set ps. pattern_action ci perm rs appr p = Ask))"
  by (induction ps arbitrary: n) (auto split: action.splits)

lemma ask_scan_error:
  "ask_scan ci perm rs appr ps n = Inl e \<Longrightarrow>
   e = DeniedError (filter (\<lambda>r. wildcard_match ci perm (rule_permission r)) (present rs))"
  by (induction ps arbitrary: n) (auto split: action.splits)

section \<open>The service invariant\<close>

fun completed_ref :: "call \<Rightarrow> nat list" where
  "completed_ref (DeferredSucceed d) = [d]"
| "completed_ref (DeferredFail d e) = [d]"
| "completed_ref _ = []"

definition completions :: "call list \<Rightarrow> nat list" where
  "completions cs = concat (map completed_ref cs)"

definition open_refs :: "pstate \<Rightarrow> nat list" where
  "open_refs st = map (\<lambda>e. deferred (snd e)) (pending st)"

text \<open>
  A deferred is either open (its request is pending) or completed, and completed once; request
  identifiers are the keys of the table; every deferred was allocated.
\<close>

definition perm_inv :: "pstate \<Rightarrow> bool" where
  "perm_inv st \<longleftrightarrow>
     distinct (map fst (pending st)) \<and>
     distinct (open_refs st @ completions (calls st)) \<and>
     (\<forall>d\<in>set (open_refs st @ completions (calls st)). d < next_deferred st) \<and>
     (\<forall>e\<in>set (pending st). req_id (info (snd e)) = fst e)"

lemma completions_append [simp]: "completions (xs @ ys) = completions xs @ completions ys"
  by (simp add: completions_def)

lemma completions_simps [simp]:
  "completions [] = []"
  "completions (Publish ev # cs) = completions cs"
  "completions (UpdateProfile pr # cs) = completions cs"
  "completions (DeferredSucceed d # cs) = d # completions cs"
  "completions (DeferredFail d e # cs) = d # completions cs"
  by (simp_all add: completions_def)

lemma emit_simps [simp]:
  "pending (emit cs st) = pending st" "approved (emit cs st) = approved st"
  "next_deferred (emit cs st) = next_deferred st" "allowedPaths (emit cs st) = allowedPaths st"
  "calls (emit cs st) = calls st @ cs" "open_refs (emit cs st) = open_refs st"
  by (simp_all add: emit_def open_refs_def)

lemma drop_pending_simps [simp]:
  "pending (drop_pending k st) = AList.delete k (pending st)" "approved (drop_pending k st) = approved st"
  "next_deferred (drop_pending k st) = next_deferred st"
  "allowedPaths (drop_pending k st) = allowedPaths st" "calls (drop_pending k st) = calls st"
  by (simp_all add: drop_pending_def)

lemma settle_simps [simp]:
  "pending (settle k item r c st) = AList.delete k (pending st)"
  "approved (settle k item r c st) = approved st"
  "next_deferred (settle k item r c st) = next_deferred st"
  "allowedPaths (settle k item r c st) = allowedPaths st"
  "calls (settle k item r c st) =
     calls st @ [Publish (Replied (sessionID (info item)) (req_id (info item)) r), c]"
  by (simp_all add: settle_def)

lemma rememberRejectedPlan_completions [simp]: "completions (rememberRejectedPlan env req msg) = []"
  by (simp add: rememberRejectedPlan_def)

lemma inv_emit [inv_intros]: "perm_inv st \<Longrightarrow> completions cs = [] \<Longrightarrow> perm_inv (emit cs st)"
  by (simp add: perm_inv_def)

lemma open_refs_drop: "set (open_refs (drop_pending k st)) \<subseteq> set (open_refs st)"
  by (auto simp: open_refs_def set_jmap_delete)

lemma inv_drop [inv_intros]:
  assumes "perm_inv st" shows "perm_inv (drop_pending k st)"
proof -
  have "distinct (open_refs (drop_pending k st))"
    using assms by (simp add: perm_inv_def open_refs_def AList.delete_eq distinct_map_filter)
  then show ?thesis using assms open_refs_drop [of k st]
    by (auto simp: perm_inv_def distinct_delete set_jmap_delete)
qed

lemma dropped_ref_gone:
  assumes "perm_inv st" and "(k, item) \<in> set (pending st)"
  shows "deferred item \<notin> set (open_refs (drop_pending k st))"
proof
  assume "deferred item \<in> set (open_refs (drop_pending k st))"
  then obtain e where e: "e \<in> set (pending st)" "fst e \<noteq> k" "deferred (snd e) = deferred item"
    by (auto simp: open_refs_def set_jmap_delete)
  have "inj_on (\<lambda>e. deferred (snd e)) (set (pending st))"
    using assms(1) by (simp add: perm_inv_def open_refs_def distinct_map)
  from inj_onD [OF this, of e "(k, item)"] have "e = (k, item)" using e assms(2) by simp
  with e(2) show False by simp
qed

lemma inv_complete:
  assumes "perm_inv st" and "(k, item) \<in> set (pending st)" and "completions cs = [deferred item]"
  shows "perm_inv (emit cs (drop_pending k st))"
proof -
  have "deferred item \<in> set (open_refs st)" using assms(2) by (force simp: open_refs_def)
  then have "deferred item \<notin> set (completions (calls st))" "deferred item < next_deferred st"
    using assms(1) by (auto simp: perm_inv_def)
  then show ?thesis
    using inv_drop [OF assms(1), of k] dropped_ref_gone [OF assms(1,2)] assms(3)
    by (auto simp: perm_inv_def)
qed

lemma inv_settle:
  "perm_inv st \<Longrightarrow> (k, item) \<in> set (pending st) \<Longrightarrow> completed_ref c = [deferred item] \<Longrightarrow>
   perm_inv (settle k item r c st)"
  unfolding settle_def by (rule inv_complete) (auto simp: completions_def)

section \<open>Settling a batch of requests\<close>

definition settle_all ::
  "reply \<Rightarrow> (nat \<Rightarrow> call) \<Rightarrow> (jstring, pending_entry) jmap \<Rightarrow> pstate \<Rightarrow> pstate" where
  "settle_all r mk es st = fold (\<lambda>(k, item). settle k item r (mk (deferred item))) es st"

lemma settle_all_Cons [simp]:
  "settle_all r mk ((k, item) # es) st = settle_all r mk es (settle k item r (mk (deferred item)) st)"
  by (simp add: settle_all_def)

lemma settle_all_Nil [simp]: "settle_all r mk [] st = st"
  by (simp add: settle_all_def)

lemma reject_session_settle:
  "reject_session sess es st =
     settle_all Reject (\<lambda>d. DeferredFail d RejectedError)
       (filter (\<lambda>e. sessionID (info (snd e)) = sess) es) st"
  by (induction sess es st rule: reject_session.induct) auto

lemma approve_session_settle:
  "approve_session ci sess es st =
     settle_all Always DeferredSucceed
       (filter (\<lambda>e. sessionID (info (snd e)) = sess \<and> covered ci (approved st) (info (snd e))) es) st"
  by (induction ci sess es st rule: approve_session.induct) auto

lemma settle_all_simps [simp]:
  "approved (settle_all r mk es st) = approved st"
  "next_deferred (settle_all r mk es st) = next_deferred st"
  "allowedPaths (settle_all r mk es st) = allowedPaths st"
  by (induction es arbitrary: st) auto

lemma settle_all_pending:
  "pending (settle_all r mk es st) = filter (\<lambda>e. fst e \<notin> fst ` set es) (pending st)"
  by (induction es arbitrary: st) (auto simp: AList.delete_eq intro!: filter_cong)

lemma settle_all_calls:
  "calls (settle_all r mk es st) = calls st @
     concat (map (\<lambda>(k, item). [Publish (Replied (sessionID (info item)) (req_id (info item)) r),
                               mk (deferred item)]) es)"
  by (induction es arbitrary: st) auto

lemma settle_all_inv:
  "perm_inv st \<Longrightarrow> set es \<subseteq> set (pending st) \<Longrightarrow> distinct (map fst es) \<Longrightarrow>
   (\<And>d. completed_ref (mk d) = [d]) \<Longrightarrow> perm_inv (settle_all r mk es st)"
proof (induction es arbitrary: st)
  case Nil
  then show ?case by simp
next
  case (Cons e es)
  obtain k item where e: "e = (k, item)" by (cases e)
  have "perm_inv (settle k item r (mk (deferred item)) st)"
    using Cons.prems e by (intro inv_settle) auto
  moreover have "set es \<subseteq> set (pending (settle k item r (mk (deferred item)) st))"
    using Cons.prems e by (auto simp: set_jmap_delete image_iff)
  ultimately show ?case using Cons e by simp
qed

section \<open>The handlers keep the invariant\<close>

lemma inv_init: "perm_inv (init_pstate rows)"
  by (simp add: perm_inv_def init_pstate_def open_refs_def)

lemma inv_register:
  assumes inv: "perm_inv st" and fresh: "req_id req \<notin> set (map fst (pending st))"
  shows "perm_inv (emit [Publish ev]
    (st\<lparr>pending := jmap_set (req_id req) \<lparr>info = req, deferred = next_deferred st\<rparr> (pending st),
        next_deferred := Suc (next_deferred st)\<rparr>))" (is "perm_inv ?st")
proof -
  have pend: "pending ?st = pending st @ [(req_id req, \<lparr>info = req, deferred = next_deferred st\<rparr>)]"
    using fresh by (simp add: jmap_set_fresh)
  then have refs: "open_refs ?st = open_refs st @ [next_deferred st]" by (simp add: open_refs_def)
  have lt: "\<And>d. d \<in> set (open_refs st @ completions (calls st)) \<Longrightarrow> d < next_deferred st"
    using inv by (simp add: perm_inv_def)
  then have "next_deferred st \<notin> set (open_refs st @ completions (calls st))" by blast
  then show ?thesis using inv fresh lt
    unfolding perm_inv_def refs pend by (auto intro: less_SucI)
qed

lemma inv_ask:
  assumes "perm_inv st" and "ask_id fresh input \<notin> set (map fst (pending st))"
  shows "perm_inv (snd (ask env fresh input st))"
  using assms inv_register [of st "ask_request (ask_id fresh input) input"]
  by (auto simp: ask_def Let_def ask_request_def split: sum.splits bool.splits)

lemma inv_reject_session:
  "perm_inv st \<Longrightarrow> perm_inv (reject_session sess (pending st) st)"
  unfolding reject_session_settle
  by (rule settle_all_inv) (auto simp: perm_inv_def distinct_map_filter)

lemma inv_approve_session:
  "perm_inv st \<Longrightarrow> perm_inv (approve_session ci sess (pending st) st)"
  unfolding approve_session_settle
  by (rule settle_all_inv) (auto simp: perm_inv_def distinct_map_filter)

lemma addAllowedPath_frame [simp]:
  "pending (addAllowedPath env d st) = pending st" "approved (addAllowedPath env d st) = approved st"
  "next_deferred (addAllowedPath env d st) = next_deferred st" "calls (addAllowedPath env d st) = calls st"
  by (simp_all add: addAllowedPath_def Let_def)

lemma fold_frame:
  assumes "\<And>x s. f (g x s) = f s"
  shows "f (fold g xs s) = f s"
  using assms by (induction xs arbitrary: s) auto

lemma mirror_allowed_frame [simp]:
  "pending (mirror_allowed env req st) = pending st" "approved (mirror_allowed env req st) = approved st"
  "next_deferred (mirror_allowed env req st) = next_deferred st"
  "calls (mirror_allowed env req st) = calls st"
  unfolding mirror_allowed_def by (auto intro!: fold_frame split: option.splits)

lemma inv_cong:
  "pending st = pending st' \<Longrightarrow> next_deferred st = next_deferred st' \<Longrightarrow> calls st = calls st' \<Longrightarrow>
   perm_inv st = perm_inv st'"
  by (simp add: perm_inv_def open_refs_def)

lemma get_pending_mem: "map_of (pending st) k = Some item \<Longrightarrow> (k, item) \<in> set (pending st)"
  by (rule map_of_SomeD)

lemma emit_emit [simp]: "emit cs (emit ds st) = emit (ds @ cs) st"
  by (simp add: emit_def)

lemma inv_reply:
  assumes inv: "perm_inv st" shows "perm_inv (reply env input st)"
proof (cases "map_of (pending st) (requestID input)")
  case None
  then show ?thesis using inv by (simp add: reply_def)
next
  case (Some e)
  note mem = get_pending_mem [OF Some]
  note done' = inv_complete [OF inv mem]
  show ?thesis
  proof (cases "reply_kind input")
    case Once
    then show ?thesis using Some by (simp add: reply_def Let_def done')
  next
    case Always
    have "perm_inv (mirror_allowed env (info e)
        ((emit [Publish (Replied (sessionID (info e)) (req_id (info e)) Always), DeferredSucceed (deferred e)]
           (drop_pending (requestID input) st))\<lparr>approved := ars\<rparr>))" for ars
      by (subst inv_cong [OF _ _ _, of _ "emit [Publish (Replied (sessionID (info e)) (req_id (info e)) Always),
            DeferredSucceed (deferred e)] (drop_pending (requestID input) st)"]) (simp_all add: done')
    then show ?thesis using Some Always
      by (simp add: reply_def reply_always_def Let_def inv_approve_session del: mirror_allowed_frame)
  next
    case Reject
    then show ?thesis using Some
      by (simp add: reply_def reply_reject_def Let_def inv_reject_session done' del: emit_simps)
  qed
qed

lemma inv_finalize: "perm_inv st \<Longrightarrow> perm_inv (finalize st)"
proof -
  assume inv: "perm_inv st"
  have "completions (map (\<lambda>(k, item). DeferredFail (deferred item) RejectedError) m) =
      map (\<lambda>e. deferred (snd e)) m" for m :: "(jstring, pending_entry) jmap"
    by (induction m) auto
  then show ?thesis using inv
    by (auto simp: perm_inv_def finalize_def open_refs_def distinct_map)
qed

section \<open>Runs of the service\<close>

inductive perm_step :: "penv \<Rightarrow> pstate \<Rightarrow> pstate \<Rightarrow> bool" for env where
  step_ask: "ask_id fresh input \<notin> set (map fst (pending st)) \<Longrightarrow>
     perm_step env st (snd (ask env fresh input st))"
| step_reply: "perm_step env st (reply env input st)"
| step_timeout: "jmap_get (pending st) k = Some item \<Longrightarrow>
     perm_step env st (snd (ask_timeout (info item) st))"
| step_resume: "perm_step env st (snd (ask_resume k outcome st))"
| step_finalize: "perm_step env st (finalize st)"

inductive perm_reachable :: "penv \<Rightarrow> pstate \<Rightarrow> bool" for env where
  reach_init: "perm_reachable env (init_pstate rows)"
| reach_step: "perm_reachable env st \<Longrightarrow> perm_step env st st' \<Longrightarrow> perm_reachable env st'"

lemma inv_step: "perm_step env st st' \<Longrightarrow> perm_inv st \<Longrightarrow> perm_inv st'"
  by (induction rule: perm_step.induct)
     (auto simp: ask_timeout_def ask_resume_def inv_ask inv_reply inv_finalize intro!: inv_intros)

lemma reachable_inv: "perm_reachable env st \<Longrightarrow> perm_inv st"
  by (induction rule: perm_reachable.induct) (auto intro: inv_init inv_step)

section \<open>What a reply leaves behind\<close>

lemma pending_after_reject:
  assumes "map_of (pending st) k = Some e" and dist: "distinct (map fst (pending st))"
  shows "pending (reply env \<lparr>requestID = k, reply_kind = Reject, message = m\<rparr> st) =
    filter (\<lambda>x. fst x \<noteq> k \<and> sessionID (info (snd x)) \<noteq> sessionID (info e)) (pending st)"
    (is "pending ?st = _")
proof -
  have "pending ?st = filter (\<lambda>x. fst x \<notin> fst ` {y \<in> set (AList.delete k (pending st)).
      sessionID (info (snd y)) = sessionID (info e)}) (AList.delete k (pending st))"
    using assms by (simp add: reply_def reply_reject_def Let_def reject_session_settle settle_all_pending)
  also have "\<dots> = filter (\<lambda>x. fst x \<noteq> k \<and> sessionID (info (snd x)) \<noteq> sessionID (info e)) (pending st)"
    using eq_key_imp_eq_value [OF dist]
    by (auto simp: AList.delete_eq image_iff intro!: filter_cong) fastforce+
  finally show ?thesis .
qed

lemma approved_after_always:
  "map_of (pending st) k = Some e \<Longrightarrow>
   approved (reply env \<lparr>requestID = k, reply_kind = Always, message = m\<rparr> st) =
     approved st @ always_rules (info e)"
  by (simp add: reply_def reply_always_def Let_def approve_session_settle)

lemma pending_after_always:
  assumes "map_of (pending st) k = Some e" and "distinct (map fst (pending st))"
    and "x \<in> set (pending (reply env \<lparr>requestID = k, reply_kind = Always, message = m\<rparr> st))"
  shows "x \<in> set (pending st) \<and> fst x \<noteq> k \<and>
    \<not> (sessionID (info (snd x)) = sessionID (info e) \<and>
       covered (canon env) (approved st @ always_rules (info e)) (info (snd x)))"
  using assms
  by (auto simp: reply_def reply_always_def Let_def approve_session_settle settle_all_pending
        set_jmap_delete image_iff)

lemma always_rule_wins:
  assumes "p \<in> set (always req)"
  shows "rule_action (evaluate ci (permission req) p [rs, map Some (appr @ always_rules req)]) = Allow"
proof -
  let ?r = "\<lparr>rule_permission = permission req, rule_pattern = p, rule_action = Allow\<rparr>"
  have "evaluate ci (permission req) p [rs, map Some (appr @ always_rules req)] \<in> set (always_rules req)"
  proof (rule evaluate_suffix)
    show "present (concat [rs, map Some (appr @ always_rules req)]) = (present rs @ appr) @ always_rules req"
      by (simp del: map_append)
    show "?r \<in> set (always_rules req)" using assms by (auto simp: always_rules_def)
    show "rule_matches ci (permission req) p ?r" by (simp add: rule_matches_def)
  qed
  then show ?thesis by (auto simp: always_rules_def)
qed

section \<open>Configuration, tool lists and the directory allow-list\<close>

lemma insort_two:
  "\<forall>y\<in>set ys. P y \<Longrightarrow> \<forall>z\<in>set zs. \<not> P z \<Longrightarrow>
   insort_key (\<lambda>e. if P e then 0 else (1 :: nat)) x (ys @ zs) =
     (if P x then x # ys @ zs else ys @ x # zs)"
  by (induction ys; cases zs) auto

lemma sort_key_two:
  "sort_key (\<lambda>e. if P e then 0 else (1 :: nat)) xs = filter P xs @ filter (\<lambda>e. \<not> P e) xs"
  by (induction xs) (simp_all add: insort_two)

definition specific_rules :: "jstring \<Rightarrow> (jstring \<times> perm_value) list \<Rightarrow> rule list" where
  "specific_rules homedir cfg = concat (map (config_rules homedir) (filter (\<lambda>e. \<not> is_wild (fst e)) cfg))"

lemma fromConfig_split:
  "fromConfig homedir cfg =
     concat (map (config_rules homedir) (filter (\<lambda>e. is_wild (fst e)) cfg)) @ specific_rules homedir cfg"
  by (simp add: fromConfig_def specific_rules_def sort_key_two)

lemma config_rules_key: "r \<in> set (config_rules homedir e) \<Longrightarrow> rule_permission r = fst e"
  by (cases "(homedir, e)" rule: config_rules.cases) auto

lemma specific_rules_key: "r \<in> set (specific_rules homedir cfg) \<Longrightarrow> \<not> is_wild (rule_permission r)"
  by (auto simp: specific_rules_def dest!: config_rules_key)

lemma directoryOfPattern_Some:
  "directoryOfPattern p = Some d \<longleftrightarrow>
     replace_unit backslash slash p = d @ js ''/*'' \<and> d \<noteq> [] \<and> 42 \<notin> set d"
  by (auto simp: directoryOfPattern_def Let_def endsWith_suffix split: if_splits)

lemma addAllowedPath_set:
  "set (allowedPaths (addAllowedPath env d st)) \<subseteq> insert (resolve env d) (set (allowedPaths st))"
  by (auto simp: addAllowedPath_def Let_def)

lemma fold_allowed_set:
  "set (allowedPaths (fold (\<lambda>pattern st. case directoryOfPattern pattern of
       None \<Rightarrow> st | Some dir \<Rightarrow> addAllowedPath env dir st) ps st)) \<subseteq>
   set (allowedPaths st) \<union> {resolve env d |d p. p \<in> set ps \<and> directoryOfPattern p = Some d}"
proof (induction ps arbitrary: st)
  case Nil
  then show ?case by simp
next
  case (Cons p ps)
  show ?case
  proof (cases "directoryOfPattern p")
    case None
    then show ?thesis using Cons.IH [of st] by simp blast
  next
    case (Some d)
    then show ?thesis using Cons.IH [of "addAllowedPath env d st"] addAllowedPath_set [of env d st]
      by simp blast
  qed
qed

lemma disabled_rule:
  assumes "t \<in> disabled ci tools rules"
  shows "\<exists>ys r zs. present rules = ys @ r # zs \<and> rule_pattern r = js ''*'' \<and> rule_action r = Deny \<and>
    wildcard_match ci (tool_permission t) (rule_permission r) \<and>
    (\<forall>z\<in>set zs. \<not> wildcard_match ci (tool_permission t) (rule_permission z))"
  using assms by (auto simp: disabled_def split: option.splits dest!: findLast_split)

section \<open>Properties\<close>

text \<open>
  C3. Rule evaluation is last-match-wins over the concatenation of the rulesets, whatever
  undefined entries they carry: the result is the matching rule with no matching rule after it,
  and, when no rule matches, an implicit ask.
\<close>

theorem evaluate_last_match_wins:
  "(\<exists>ys r zs. present (concat rss) = ys @ r # zs \<and> rule_matches ci perm pat r \<and>
       list_all (\<lambda>z. \<not> rule_matches ci perm pat z) zs \<and> evaluate ci perm pat rss = r) \<or>
   (list_all (\<lambda>r. \<not> rule_matches ci perm pat r) (present (concat rss)) \<and>
       rule_action (evaluate ci perm pat rss) = Ask)"
proof (cases "findLast (rule_matches ci perm pat) (present (concat rss))")
  case None
  then show ?thesis by (auto simp: findLast_None evaluate_None list_all_iff)
next
  case (Some r)
  then show ?thesis unfolding list_all_iff using findLast_split [OF Some] evaluate_last by blast
qed

text \<open>
  C4. \<open>ask\<close> lets a call through without a prompt exactly when every pattern evaluates to allow,
  refuses it exactly when some pattern evaluates to deny (the state untouched in both cases), and
  otherwise registers the request, publishes it and suspends.
\<close>

theorem ask_decision:
  "(let act = (\<lambda>p. pattern_action (canon env) (ai_permission input) (ai_ruleset input) (approved st) p)
    in case ask env fresh input st of
      (AskPassed, st') \<Rightarrow> st' = st \<and> list_all (\<lambda>p. act p = Allow) (ai_patterns input)
    | (AskFailed e, st') \<Rightarrow> st' = st \<and> (\<exists>p\<in>set (ai_patterns input). act p = Deny) \<and>
        e = DeniedError (filter (\<lambda>r. wildcard_match (canon env) (ai_permission input) (rule_permission r))
              (present (ai_ruleset input)))
    | (AskWaiting i d, st') \<Rightarrow>
        (\<exists>p\<in>set (ai_patterns input). act p = Ask) \<and> list_all (\<lambda>p. act p \<noteq> Deny) (ai_patterns input) \<and>
        i = ask_id fresh input \<and> d = next_deferred st \<and>
        jmap_get (pending st') i = Some \<lparr>info = ask_request i input, deferred = d\<rparr> \<and>
        calls st' = calls st @ [Publish (Asked (ask_request i input))])"
proof (cases "ask_scan (canon env) (ai_permission input) (ai_ruleset input) (approved st)
    (ai_patterns input) False")
  case (Inl e)
  then show ?thesis
    using ask_scan_error [OF Inl] iffD1 [OF ask_scan_Inl, OF exI, OF Inl]
    by (simp add: ask_def list_all_iff)
next
  case (Inr b)
  let ?act = "pattern_action (canon env) (ai_permission input) (ai_ruleset input) (approved st)"
  have nodeny: "\<forall>p\<in>set (ai_patterns input). ?act p \<noteq> Deny"
    and b: "b = (\<exists>p\<in>set (ai_patterns input). ?act p = Ask)"
    using Inr unfolding ask_scan_Inr by simp_all
  show ?thesis
  proof (cases b)
    case True
    have eq: "ask env fresh input st = (AskWaiting (ask_id fresh input) (next_deferred st),
        emit [Publish (Asked (ask_request (ask_id fresh input) input))]
          (st\<lparr>pending := jmap_set (ask_id fresh input)
                 \<lparr>info = ask_request (ask_id fresh input) input, deferred = next_deferred st\<rparr> (pending st),
              next_deferred := Suc (next_deferred st)\<rparr>))"
      using Inr True by (simp add: ask_def Let_def)
    have some: "\<exists>p\<in>set (ai_patterns input). ?act p = Ask" using b True by blast
    have get: "map_of (pending (snd (ask env fresh input st))) (ask_id fresh input) =
        Some \<lparr>info = ask_request (ask_id fresh input) input, deferred = next_deferred st\<rparr>"
      unfolding eq by (simp add: update_conv')
    have "calls (snd (ask env fresh input st)) =
        calls st @ [Publish (Asked (ask_request (ask_id fresh input) input))]"
      unfolding eq by simp
    with some nodeny get show ?thesis
      unfolding eq Let_def prod.case ask_result.case snd_conv list_all_iff by blast
  next
    case False
    have "\<forall>p\<in>set (ai_patterns input). ?act p = Allow"
    proof
      fix p
      assume "p \<in> set (ai_patterns input)"
      then have "?act p \<noteq> Deny" "?act p \<noteq> Ask" using nodeny b False by blast+
      then show "?act p = Allow" by (cases "?act p") simp_all
    qed
    then show ?thesis using Inr False by (simp add: ask_def list_all_iff)
  qed
qed



text \<open>
  C9. A rejection cascades: it clears every request of the rejected request's session and no
  other request, and each cleared request's deferred is failed.
\<close>

theorem reply_reject_cascades:
  fixes st :: pstate
  assumes "perm_inv st" and "jmap_get (pending st) k = Some e"
    and "st' = reply env \<lparr>requestID = k, reply_kind = Reject, message = m\<rparr> st"
  shows "pending st' = filter (\<lambda>x. sessionID (info (snd x)) \<noteq> sessionID (info e)) (pending st) \<and>
    (\<forall>(j, x)\<in>set (pending st). sessionID (info x) = sessionID (info e) \<longrightarrow>
       (\<exists>err. DeferredFail (deferred x) err \<in> set (calls st') \<and>
              err = (if j = k then rejection m else RejectedError)))"
proof
  have dist: "distinct (map fst (pending st))" using assms(1) by (simp add: perm_inv_def)
  have same: "x = e" if "(k, x) \<in> set (pending st)" for x
    using that assms(2) dist by (metis map_of_is_SomeI option.inject)
  show "pending st' = filter (\<lambda>x. sessionID (info (snd x)) \<noteq> sessionID (info e)) (pending st)"
    unfolding assms(3) pending_after_reject [OF assms(2) dist]
    using same by (auto intro!: filter_cong)
  have calls': "calls st' = calls st @ [Publish (Replied (sessionID (info e)) (req_id (info e)) Reject)] @
      rememberRejectedPlan env (info e) m @ [DeferredFail (deferred e) (rejection m)] @
      concat (map (\<lambda>(k, item). [Publish (Replied (sessionID (info item)) (req_id (info item)) Reject),
          DeferredFail (deferred item) RejectedError])
        (filter (\<lambda>x. sessionID (info (snd x)) = sessionID (info e)) (AList.delete k (pending st))))"
    using assms(2,3)
    by (simp add: reply_def reply_reject_def Let_def reject_session_settle settle_all_calls)
  show "\<forall>(j, x)\<in>set (pending st). sessionID (info x) = sessionID (info e) \<longrightarrow>
       (\<exists>err. DeferredFail (deferred x) err \<in> set (calls st') \<and>
              err = (if j = k then rejection m else RejectedError))"
  proof (intro ballI impI, clarify)
    fix j x
    assume x: "(j, x) \<in> set (pending st)" "sessionID (info x) = sessionID (info e)"
    show "\<exists>err. DeferredFail (deferred x) err \<in> set (calls st') \<and>
        err = (if j = k then rejection m else RejectedError)"
    proof (cases "j = k")
      case True
      then show ?thesis using same x by (simp add: calls')
    next
      case False
      then have "(j, x) \<in> set (filter (\<lambda>x. sessionID (info (snd x)) = sessionID (info e))
          (AList.delete k (pending st)))"
        using x by (simp add: set_jmap_delete)
      then show ?thesis using False unfolding calls' by force
    qed
  qed
qed

theorem reply_reject_cascades_witness:
  "let r1 = \<lparr>req_id = js ''p1'', sessionID = js ''s'', permission = js ''bash'', patterns = [js ''ls''],
              metadata = [], always = [], tool_call = None\<rparr>;
       r2 = r1\<lparr>req_id := js ''p2''\<rparr>; r3 = r1\<lparr>req_id := js ''p3'', sessionID := js ''t''\<rparr>;
       st = \<lparr>pending = [(js ''p1'', \<lparr>info = r1, deferred = 0\<rparr>), (js ''p2'', \<lparr>info = r2, deferred = 1\<rparr>),
              (js ''p3'', \<lparr>info = r3, deferred = 2\<rparr>)],
             approved = [], next_deferred = 3, allowedPaths = [], calls = []\<rparr>;
       env = \<lparr>canon = id, has_memory = False, resolve = id, directory = []\<rparr>
   in pending (reply env \<lparr>requestID = js ''p1'', reply_kind = Reject, message = None\<rparr> st) =
        [(js ''p3'', \<lparr>info = r3, deferred = 2\<rparr>)]"
proof -
  define r1 where "r1 = \<lparr>req_id = js ''p1'', sessionID = js ''s'', permission = js ''bash'',
    patterns = [js ''ls''], metadata = [], always = [], tool_call = None\<rparr>"
  define r2 where "r2 = r1\<lparr>req_id := js ''p2''\<rparr>"
  define r3 where "r3 = r1\<lparr>req_id := js ''p3'', sessionID := js ''t''\<rparr>"
  define st where "st = \<lparr>pending = [(js ''p1'', \<lparr>info = r1, deferred = 0\<rparr>), (js ''p2'', \<lparr>info = r2, deferred = 1\<rparr>),
    (js ''p3'', \<lparr>info = r3, deferred = 2\<rparr>)], approved = [], next_deferred = 3, allowedPaths = [], calls = []\<rparr>"
  have inv: "perm_inv st" by (simp add: perm_inv_def open_refs_def st_def r1_def r2_def r3_def)
  have get: "jmap_get (pending st) (js ''p1'') = Some \<lparr>info = r1, deferred = 0\<rparr>" by (simp add: st_def)
  show ?thesis
    using reply_reject_cascades [OF inv get refl,
        of "\<lparr>canon = id, has_memory = False, resolve = id, directory = []\<rparr>" None]
    by (simp add: st_def r1_def r2_def r3_def Let_def)
qed

text \<open>
  An "always" answer is remembered: afterwards a call of the same permission whose patterns
  are among the approved ones passes without a prompt, whatever ruleset the caller brings, deny
  rules included, because approvals are evaluated after the caller's rules.
\<close>

theorem ask_after_always:
  assumes "jmap_get (pending st) k = Some e"
    and "ai_permission input = permission (info e)"
    and "set (ai_patterns input) \<subseteq> set (always (info e))"
  shows "fst (ask env fresh input
           (reply env \<lparr>requestID = k, reply_kind = Always, message = m\<rparr> st)) = AskPassed"
proof -
  let ?st = "reply env \<lparr>requestID = k, reply_kind = Always, message = m\<rparr> st"
  have "pattern_action (canon env) (ai_permission input) (ai_ruleset input) (approved ?st) p = Allow"
    if "p \<in> set (ai_patterns input)" for p
    using always_rule_wins assms(2,3) that by (auto simp: approved_after_always [OF assms(1)])
  then have "ask_scan (canon env) (ai_permission input) (ai_ruleset input) (approved ?st)
      (ai_patterns input) False = Inr False"
    by (simp add: ask_scan_Inr)
  then show ?thesis by (simp add: ask_def)
qed

theorem ask_after_always_witness:
  "let req = \<lparr>req_id = js ''p1'', sessionID = js ''s'', permission = js ''bash'', patterns = [js ''ls -la''],
              metadata = [], always = [js ''ls *''], tool_call = None\<rparr>;
       st = \<lparr>pending = [(js ''p1'', \<lparr>info = req, deferred = 0\<rparr>)], approved = [], next_deferred = 1,
             allowedPaths = [], calls = []\<rparr>;
       env = \<lparr>canon = id, has_memory = False, resolve = id, directory = []\<rparr>;
       input = \<lparr>ai_id = None, ai_session = js ''s'', ai_permission = js ''bash'',
                ai_patterns = [js ''ls *''], ai_metadata = [], ai_always = [], ai_tool = None,
                ai_ruleset = [Some \<lparr>rule_permission = js ''*'', rule_pattern = js ''*'', rule_action = Deny\<rparr>]\<rparr>
   in fst (ask env (js ''p2'') input
        (reply env \<lparr>requestID = js ''p1'', reply_kind = Always, message = None\<rparr> st)) = AskPassed"
proof -
  define req where "req = \<lparr>req_id = js ''p1'', sessionID = js ''s'', permission = js ''bash'',
    patterns = [js ''ls -la''], metadata = [], always = [js ''ls *''], tool_call = None\<rparr>"
  define st where "st = \<lparr>pending = [(js ''p1'', \<lparr>info = req, deferred = 0\<rparr>)], approved = [],
    next_deferred = 1, allowedPaths = [], calls = []\<rparr>"
  have get: "jmap_get (pending st) (js ''p1'') = Some \<lparr>info = req, deferred = 0\<rparr>" by (simp add: st_def)
  show ?thesis
    unfolding Let_def by (rule ask_after_always [OF get, unfolded st_def req_def]) simp_all
qed

text \<open>
  After an "always" answer no request that the approvals now cover is left waiting: every
  request of that session still pending has a pattern the approvals do not allow.
\<close>

theorem always_leaves_no_covered_request:
  assumes "perm_inv st" and "jmap_get (pending st) k = Some e"
    and "st' = reply env \<lparr>requestID = k, reply_kind = Always, message = m\<rparr> st"
    and "(j, x) \<in> set (pending st')" and "sessionID (info x) = sessionID (info e)"
  shows "\<exists>p\<in>set (patterns (info x)).
    rule_action (evaluate (canon env) (permission (info x)) p [map Some (approved st')]) \<noteq> Allow"
proof -
  have "distinct (map fst (pending st))" using assms(1) by (simp add: perm_inv_def)
  from pending_after_always [OF assms(2) this assms(4) [unfolded assms(3)]] assms(5)
  have "\<not> covered (canon env) (approved st') (info x)"
    by (simp add: assms(3) approved_after_always [OF assms(2)])
  then show ?thesis by (simp add: covered_def list_all_iff)
qed

theorem always_leaves_no_covered_request_witness:
  "let r1 = \<lparr>req_id = js ''p1'', sessionID = js ''s'', permission = js ''bash'', patterns = [js ''ls''],
              metadata = [], always = [js ''ls *''], tool_call = None\<rparr>;
       r2 = r1\<lparr>req_id := js ''p2'', patterns := [js ''rm x'']\<rparr>;
       st = \<lparr>pending = [(js ''p1'', \<lparr>info = r1, deferred = 0\<rparr>), (js ''p2'', \<lparr>info = r2, deferred = 1\<rparr>)],
             approved = [], next_deferred = 2, allowedPaths = [], calls = []\<rparr>;
       env = \<lparr>canon = id, has_memory = False, resolve = id, directory = []\<rparr>;
       st' = reply env \<lparr>requestID = js ''p1'', reply_kind = Always, message = None\<rparr> st
   in (\<exists>p\<in>set (patterns r2).
         rule_action (evaluate (canon env) (permission r2) p [map Some (approved st')]) \<noteq> Allow)"
proof -
  define r1 where "r1 = \<lparr>req_id = js ''p1'', sessionID = js ''s'', permission = js ''bash'',
    patterns = [js ''ls''], metadata = [], always = [js ''ls *''], tool_call = None\<rparr>"
  define r2 where "r2 = r1\<lparr>req_id := js ''p2'', patterns := [js ''rm x'']\<rparr>"
  define st where "st = \<lparr>pending = [(js ''p1'', \<lparr>info = r1, deferred = 0\<rparr>), (js ''p2'', \<lparr>info = r2, deferred = 1\<rparr>)],
    approved = [], next_deferred = 2, allowedPaths = [], calls = []\<rparr>"
  define env where "env = \<lparr>canon = id :: nat \<Rightarrow> nat, has_memory = False, resolve = id, directory = []\<rparr>"
  have inv: "perm_inv st" by (simp add: perm_inv_def open_refs_def st_def r1_def r2_def)
  have get: "jmap_get (pending st) (js ''p1'') = Some \<lparr>info = r1, deferred = 0\<rparr>" by (simp add: st_def)
  have "\<not> covered id (always_rules r1) r2"
    by (simp add: covered_def r2_def r1_def) code_simp
  then have "(js ''p2'', \<lparr>info = r2, deferred = 1\<rparr>) \<in>
      set (pending (reply env \<lparr>requestID = js ''p1'', reply_kind = Always, message = None\<rparr> st))"
    by (simp add: reply_def reply_always_def Let_def approve_session_settle settle_all_pending
        st_def env_def)
  from always_leaves_no_covered_request [OF inv get refl this]
  show ?thesis by (simp add: st_def r1_def r2_def env_def Let_def)
qed

text \<open>
  The directory allow-list grows only by what the user approved: a reply adds at most the
  resolved directories of the "always" patterns of an external-directory request answered
  "always", each such pattern being exactly a star-free directory followed by slash-star.
\<close>

theorem reply_allowlist_sound:
  "set (allowedPaths (reply env input st)) \<subseteq> set (allowedPaths st) \<union>
     {resolve env d |d e p. reply_kind input = Always \<and>
        jmap_get (pending st) (requestID input) = Some e \<and>
        permission (info e) = js ''external_directory'' \<and> p \<in> set (always (info e)) \<and>
        replace_unit backslash slash p = d @ js ''/*'' \<and> d \<noteq> [] \<and> 42 \<notin> set d}"
proof (cases "map_of (pending st) (requestID input)")
  case None
  then show ?thesis by (simp add: reply_def)
next
  case (Some e)
  note mirror = fold_allowed_set [of env "always (info e)"]
  show ?thesis
  proof (cases "reply_kind input")
    case Always
    have "set (allowedPaths (reply env input st)) \<subseteq> set (allowedPaths st) \<union>
        {resolve env d |d p. permission (info e) = js ''external_directory'' \<and>
           p \<in> set (always (info e)) \<and> directoryOfPattern p = Some d}"
      using Some Always mirror [of "(emit [Publish (Replied (sessionID (info e)) (req_id (info e)) Always),
            DeferredSucceed (deferred e)] (drop_pending (requestID input) st))
            \<lparr>approved := approved st @ always_rules (info e)\<rparr>"]
      by (auto simp: reply_def reply_always_def Let_def approve_session_settle mirror_allowed_def)
    then show ?thesis using Some Always by (auto simp: directoryOfPattern_Some)
  qed (use Some in \<open>simp_all add: reply_def reply_reject_def Let_def reject_session_settle\<close>)
qed

text \<open>
  A tool hidden by \<open>disabled\<close> is denied by evaluation for every pattern, so hiding a tool
  and refusing its calls never disagree. The edit family is judged under the permission
  \<open>edit\<close>.
\<close>

theorem disabled_tool_is_denied:
  assumes "t \<in> disabled ci tools rules"
  shows "rule_action (evaluate ci (tool_permission t) pat [rules]) = Deny"
proof -
  obtain ys r zs where r: "present rules = ys @ r # zs" "rule_pattern r = js ''*''" "rule_action r = Deny"
      "wildcard_match ci (tool_permission t) (rule_permission r)"
      "\<forall>z\<in>set zs. \<not> wildcard_match ci (tool_permission t) (rule_permission z)"
    using disabled_rule [OF assms] by blast
  then have "evaluate ci (tool_permission t) pat [rules] = r"
    by (intro evaluate_last) (auto simp: rule_matches_def)
  with r show ?thesis by simp
qed

theorem disabled_tool_is_denied_witness:
  "js ''write'' \<in> disabled id [js ''write'', js ''read'']
     [None, Some \<lparr>rule_permission = js ''edit'', rule_pattern = js ''*'', rule_action = Deny\<rparr>] \<and>
   rule_action (evaluate id (tool_permission (js ''write'')) (js ''a.txt'')
     [[None, Some \<lparr>rule_permission = js ''edit'', rule_pattern = js ''*'', rule_action = Deny\<rparr>]]) = Deny"
proof -
  have h: "js ''write'' \<in> disabled id [js ''write'', js ''read'']
     [None, Some \<lparr>rule_permission = js ''edit'', rule_pattern = js ''*'', rule_action = Deny\<rparr>]"
    by (simp add: disabled_def tool_permission_def EDIT_TOOLS_def present_def findLast_def)
  show ?thesis using h disabled_tool_is_denied [OF h] by blast
qed

text \<open>
  In the rules a configuration yields, keys with a star come first, so when a rule of a
  star-free key matches a call, the rule that decides the call is one of a star-free key:
  specific tools override the fallbacks wherever the user wrote them.
\<close>

theorem fromConfig_specific_overrides:
  assumes "r \<in> set (specific_rules homedir cfg)" and "rule_matches ci perm pat r"
  shows "\<not> is_wild (rule_permission (evaluate ci perm pat [map Some (fromConfig homedir cfg)]))"
proof -
  have "evaluate ci perm pat [map Some (fromConfig homedir cfg)] \<in> set (specific_rules homedir cfg)"
    using assms by (intro evaluate_suffix) (simp_all add: fromConfig_split del: map_append)
  then show ?thesis by (rule specific_rules_key)
qed

theorem fromConfig_specific_overrides_witness:
  "let cfg = [(js ''edit'', VAction Allow), (js ''*'', VAction Deny)];
       r = \<lparr>rule_permission = js ''edit'', rule_pattern = js ''*'', rule_action = Allow\<rparr>
   in r \<in> set (specific_rules [] cfg) \<and> rule_matches id (js ''edit'') (js ''a'') r \<and>
      \<not> is_wild (rule_permission (evaluate id (js ''edit'') (js ''a'') [map Some (fromConfig [] cfg)]))"
proof -
  let ?cfg = "[(js ''edit'', VAction Allow), (js ''*'', VAction Deny)]"
  let ?r = "\<lparr>rule_permission = js ''edit'', rule_pattern = js ''*'', rule_action = Allow\<rparr>"
  have a: "?r \<in> set (specific_rules [] ?cfg)" by (simp add: specific_rules_def is_wild_def js_def)
  have b: "rule_matches id (js ''edit'') (js ''a'') ?r" by (simp add: rule_matches_def)
  show ?thesis using a b fromConfig_specific_overrides [OF a b] unfolding Let_def by blast
qed

text \<open>
  The precedence of a configuration is nevertheless not independent of key order: two
  star keys keep the order the user wrote, so the same two entries in the two orders give a call
  opposite decisions.
\<close>

theorem fromConfig_order_matters:
  "\<exists>cfg cfg'. set cfg = set cfg' \<and> distinct (map fst cfg) \<and> distinct (map fst cfg') \<and>
     rule_action (evaluate id (js ''mcp_x'') (js ''a'') [map Some (fromConfig [] cfg)]) = Allow \<and>
     rule_action (evaluate id (js ''mcp_x'') (js ''a'') [map Some (fromConfig [] cfg')]) = Deny"
proof (intro exI conjI)
  let ?c = "[(js ''*'', VAction Deny), (js ''mcp_*'', VAction Allow)]"
  show "set ?c = set (rev ?c)" by (rule set_rev [symmetric])
  show "distinct (map fst ?c)" "distinct (map fst (rev ?c))" by simp_all
  show "rule_action (evaluate id (js ''mcp_x'') (js ''a'') [map Some (fromConfig [] ?c)]) = Allow"
    by code_simp
  show "rule_action (evaluate id (js ''mcp_x'') (js ''a'') [map Some (fromConfig [] (rev ?c))]) = Deny"
    by code_simp
qed

end
