(* ===== verification/Patch.thy ===== *)
theory Patch
  imports JS_Prelude
begin

text \<open>
  \<open>patch/index.ts\<close> with \<open>util/bom.ts\<close>: the parser of the \<open>apply_patch\<close> format, the fuzzy
  search for the lines a chunk replaces, the replacement itself, and the application of the parsed
  hunks to files.

  The source walks an array \<open>lines\<close> with an index. Here an index is the suffix of \<open>lines\<close>
  that starts there, so \<open>i++\<close> drops the head and \<open>i < endIdx\<close> compares lengths. The file
  system is a map from paths to contents; a missing file makes a read or an unlink fail. Directories
  are not represented (\<open>mkdir\<close> of the parents has no counterpart). \<open>path.resolve\<close> is an
  argument where it is used.
\<close>

section \<open>Byte order marks\<close>

definition BOM_CODE :: nat where "BOM_CODE = 65279"

definition bom_split :: "jstring \<Rightarrow> bool \<times> jstring" where
  "bom_split text =
     (case text of [] \<Rightarrow> (False, text)
      | c # cs \<Rightarrow> if c \<noteq> BOM_CODE then (False, text) else (True, cs))"

definition bom_join :: "jstring \<Rightarrow> bool \<Rightarrow> jstring" where
  "bom_join text bom =
     (let stripped = snd (bom_split text)
      in if \<not> bom then stripped else BOM_CODE # stripped)"

section \<open>Hunks\<close>

record chunk =
  old_lines :: "jstring list"
  new_lines :: "jstring list"
  change_context :: "jstring option"
  is_end_of_file :: bool

datatype hunk =
  AddFile jstring jstring
| DeleteFile jstring
| UpdateFile jstring "jstring option" "chunk list"

datatype patch_error =
  InvalidFormat
| ReadFailed jstring
| ContextNotFound jstring jstring
| LinesNotFound jstring "jstring list"
| NoFilesModified
| UnlinkFailed jstring
| ImplicitInvocation

section \<open>The parser\<close>

record header =
  filePath :: jstring
  movePath :: "jstring option"
  after_header :: "jstring list"

definition parsePatchHeader :: "jstring list \<Rightarrow> header option" where
  "parsePatchHeader rest =
     (case rest of [] \<Rightarrow> None
      | line # ls \<Rightarrow>
          if startsWith line (js ''*** Add File:'') then
            (let p = trim (drop 13 line)
             in if p \<noteq> [] then Some \<lparr>filePath = p, movePath = None, after_header = ls\<rparr> else None)
          else if startsWith line (js ''*** Delete File:'') then
            (let p = trim (drop 16 line)
             in if p \<noteq> [] then Some \<lparr>filePath = p, movePath = None, after_header = ls\<rparr> else None)
          else if startsWith line (js ''*** Update File:'') then
            (let p = trim (drop 16 line);
                 (mv, r) = (case ls of
                     m # ls' \<Rightarrow> if startsWith m (js ''*** Move to:'') then (Some (trim (drop 12 m)), ls')
                                else (None, ls)
                   | [] \<Rightarrow> (None, ls))
             in if p \<noteq> [] then Some \<lparr>filePath = p, movePath = mv, after_header = r\<rparr> else None)
          else None)"

fun parse_change_lines ::
  "jstring list \<Rightarrow> jstring list \<Rightarrow> jstring list \<Rightarrow> jstring list \<times> jstring list \<times> bool \<times> jstring list" where
  "parse_change_lines [] olds news = (olds, news, False, [])"
| "parse_change_lines (l # ls) olds news =
     (if startsWith l (js ''@@'') \<or> startsWith l (js ''***'') then (olds, news, False, l # ls)
      else if l = js ''*** End of File'' then (olds, news, True, ls)
      else if startsWith l (js '' '') then parse_change_lines ls (olds @ [drop 1 l]) (news @ [drop 1 l])
      else if startsWith l (js ''-'') then parse_change_lines ls (olds @ [drop 1 l]) news
      else if startsWith l (js ''+'') then parse_change_lines ls olds (news @ [drop 1 l])
      else parse_change_lines ls olds news)"

lemma parse_change_lines_shorter:
  "parse_change_lines ls olds news = (o', n', e, r) \<Longrightarrow> length r \<le> length ls"
  by (induction ls olds news rule: parse_change_lines.induct) (auto split: if_splits)

text \<open>An empty context line is \<open>undefined\<close>.\<close>

definition nonempty :: "jstring \<Rightarrow> jstring option" where
  "nonempty s = (if s = [] then None else Some s)"

function parseUpdateFileChunks :: "jstring list \<Rightarrow> chunk list \<times> jstring list" where
  "parseUpdateFileChunks [] = ([], [])"
| "parseUpdateFileChunks (l # ls) =
     (if startsWith l (js ''***'') then ([], l # ls)
      else if startsWith l (js ''@@'') then
        (let (olds, news, eof, r) = parse_change_lines ls [] [];
             (cs, r') = parseUpdateFileChunks r
         in (\<lparr>old_lines = olds, new_lines = news, change_context = nonempty (trim (drop 2 l)),
              is_end_of_file = eof\<rparr> # cs, r'))
      else parseUpdateFileChunks ls)"
  by pat_completeness auto
termination
proof (relation "measure length", goal_cases)
  case (2 l ls x olds y news z eof r)
  then show ?case using parse_change_lines_shorter [of ls "[]" "[]" olds news eof r] by auto
qed auto

fun add_content :: "jstring list \<Rightarrow> jstring \<Rightarrow> jstring \<times> jstring list" where
  "add_content [] content = (content, [])"
| "add_content (l # ls) content =
     (if startsWith l (js ''***'') then (content, l # ls)
      else add_content ls (if startsWith l (js ''+'') then content @ drop 1 l @ [newline] else content))"

definition parseAddFileContent :: "jstring list \<Rightarrow> jstring \<times> jstring list" where
  "parseAddFileContent rest =
     (let (content, r) = add_content rest []
      in (if endsWith content [newline] then dropEnd 1 content else content, r))"

text \<open>
  \<open>stripHeredoc\<close> matches an optional \<open>cat\<close>, \<open><<\<close>, a delimiter word with an optional
  quote on each side, whitespace up to a newline, a lazily matched body, a newline, the delimiter and
  trailing whitespace. \<open>\w+\<close> and the quotes have one way to match; the whitespace is greedy
  and gives back newlines from its end, the body is the shortest one that the rest accepts.
\<close>

definition is_word :: "nat \<Rightarrow> bool" where
  "is_word c \<longleftrightarrow> 48 \<le> c \<and> c \<le> 57 \<or> 65 \<le> c \<and> c \<le> 90 \<or> c = 95 \<or> 97 \<le> c \<and> c \<le> 122"

definition is_quote :: "nat \<Rightarrow> bool" where
  "is_quote c \<longleftrightarrow> c = 39 \<or> c = 34"

fun lazy_body :: "(jstring \<Rightarrow> bool) \<Rightarrow> jstring \<Rightarrow> jstring option" where
  "lazy_body stop [] = (if stop [] then Some [] else None)"
| "lazy_body stop (c # cs) = (if stop (c # cs) then Some [] else map_option (Cons c) (lazy_body stop cs))"

fun greedy_ws :: "(jstring \<Rightarrow> bool) \<Rightarrow> jstring \<Rightarrow> nat \<Rightarrow> jstring option" where
  "greedy_ws stop s 0 = None"
| "greedy_ws stop s (Suc k) =
     (if s ! k = newline then
        (case lazy_body stop (drop (Suc k) s) of Some b \<Rightarrow> Some b | None \<Rightarrow> greedy_ws stop s k)
      else greedy_ws stop s k)"

definition heredoc_body :: "(jstring \<Rightarrow> bool) \<Rightarrow> jstring \<Rightarrow> jstring option" where
  "heredoc_body stop s = greedy_ws stop s (length (takeWhile is_space s))"

definition skip_quote :: "jstring \<Rightarrow> jstring" where
  "skip_quote s = (case s of c # cs \<Rightarrow> if is_quote c then cs else s | [] \<Rightarrow> s)"

definition heredoc_start :: "jstring \<Rightarrow> jstring" where
  "heredoc_start s =
     (if startsWith s (js ''cat'') \<and> (case drop 3 s of c # _ \<Rightarrow> is_space c | [] \<Rightarrow> False)
      then trimStart (drop 3 s) else s)"

definition stripHeredoc :: "jstring \<Rightarrow> jstring" where
  "stripHeredoc input =
     (let s = heredoc_start input
      in if \<not> startsWith s (js ''<<'') then input
         else let q = skip_quote (drop 2 s); delim = takeWhile is_word q;
                  r = skip_quote (dropWhile is_word q)
              in if delim = [] then input
                 else case heredoc_body
                        (\<lambda>t. startsWith t (newline # delim) \<and> list_all is_space (drop (Suc (length delim)) t)) r of
                        Some body \<Rightarrow> body | None \<Rightarrow> input)"

text \<open>The loop of \<open>parsePatch\<close>; \<open>stop\<close> lines from the end marker on are left.\<close>

lemma add_content_shorter: "add_content ls c = (c', r) \<Longrightarrow> length r \<le> length ls"
  by (induction ls c rule: add_content.induct) (auto split: if_splits)

lemma parseAddFileContent_shorter: "parseAddFileContent ls = (c', r) \<Longrightarrow> length r \<le> length ls"
  by (auto simp: parseAddFileContent_def split: prod.splits dest: add_content_shorter)

lemma parseUpdateFileChunks_shorter: "parseUpdateFileChunks ls = (cs, r) \<Longrightarrow> length r \<le> length ls"
proof (induction ls arbitrary: cs r rule: parseUpdateFileChunks.induct)
  case 1
  then show ?case by simp
next
  case (2 l ls)
  then show ?case
    by (fastforce split: if_splits prod.splits dest: parse_change_lines_shorter)
qed

lemma parsePatchHeader_shorter:
  "parsePatchHeader (l # ls) = Some h \<Longrightarrow> length (after_header h) \<le> length ls"
  by (auto simp: parsePatchHeader_def Let_def split: if_splits list.splits)

function parse_hunks :: "nat \<Rightarrow> jstring list \<Rightarrow> hunk list" where
  "parse_hunks stop rest =
     (if length rest \<le> stop then []
      else case rest of [] \<Rightarrow> []
      | line # ls \<Rightarrow>
         (case parsePatchHeader rest of
            None \<Rightarrow> parse_hunks stop ls
          | Some h \<Rightarrow>
              if startsWith line (js ''*** Add File:'') then
                (let (content, r) = parseAddFileContent (after_header h)
                 in AddFile (filePath h) content # parse_hunks stop r)
              else if startsWith line (js ''*** Delete File:'') then
                DeleteFile (filePath h) # parse_hunks stop (after_header h)
              else if startsWith line (js ''*** Update File:'') then
                (let (cs, r) = parseUpdateFileChunks (after_header h)
                 in UpdateFile (filePath h) (movePath h) cs # parse_hunks stop r)
              else parse_hunks stop ls))"
  by pat_completeness auto
termination
  by (relation "measure (\<lambda>(stop, rest). length rest)")
     (auto dest!: parsePatchHeader_shorter parseAddFileContent_shorter [OF sym]
        parseUpdateFileChunks_shorter [OF sym])

declare parse_hunks.simps [simp del]

definition parsePatch :: "jstring \<Rightarrow> patch_error + hunk list" where
  "parsePatch patchText =
     (let ls = split_on newline (stripHeredoc (trim patchText));
          beginIdx = findIndex (\<lambda>line. trim line = js ''*** Begin Patch'') ls;
          endIdx = findIndex (\<lambda>line. trim line = js ''*** End Patch'') ls
      in case (beginIdx, endIdx) of
           (Some b, Some e) \<Rightarrow>
             if b \<ge> e then Inl InvalidFormat
             else Inr (parse_hunks (length ls - e) (drop (Suc b) ls))
         | _ \<Rightarrow> Inl InvalidFormat)"

section \<open>Recognising an invocation\<close>

record apply_args =
  patch_text :: jstring
  arg_hunks :: "hunk list"
  workdir :: "jstring option"

datatype maybe_apply = MABody apply_args | MAParseError patch_error | MANotApply

definition APPLY_PATCH_COMMANDS :: "jstring list" where
  "APPLY_PATCH_COMMANDS = [js ''apply_patch'', js ''applypatch'']"

definition parsed_body :: "jstring \<Rightarrow> maybe_apply" where
  "parsed_body txt =
     (case parsePatch txt of
        Inr hs \<Rightarrow> MABody \<lparr>patch_text = txt, arg_hunks = hs, workdir = None\<rparr>
      | Inl e \<Rightarrow> MAParseError e)"

text \<open>
  The unanchored search for a quoted heredoc after \<open>apply_patch\<close>: here both quotes are
  required and the text may go on after the closing delimiter.
\<close>

definition heredoc_here :: "jstring \<Rightarrow> jstring option" where
  "heredoc_here s =
     (if \<not> startsWith s (js ''apply_patch'') then None
      else let t = trimStart (drop 11 s)
           in if \<not> startsWith t (js ''<<'') then None
              else case drop 2 t of [] \<Rightarrow> None
                | q # q' \<Rightarrow>
                    let delim = takeWhile is_word q'; r = dropWhile is_word q'
                    in if \<not> is_quote q \<or> delim = [] then None
                       else case r of [] \<Rightarrow> None
                         | c # cs \<Rightarrow> if \<not> is_quote c then None
                                     else heredoc_body (\<lambda>u. startsWith u (newline # delim)) cs)"

fun heredoc_search :: "jstring \<Rightarrow> jstring option" where
  "heredoc_search [] = None"
| "heredoc_search (c # cs) =
     (case heredoc_here (c # cs) of Some b \<Rightarrow> Some b | None \<Rightarrow> heredoc_search cs)"

definition maybeParseApplyPatch :: "jstring list \<Rightarrow> maybe_apply" where
  "maybeParseApplyPatch argv =
     (case argv of
        [cmd, txt] \<Rightarrow> if cmd \<in> set APPLY_PATCH_COMMANDS then parsed_body txt else MANotApply
      | [sh, flag, script] \<Rightarrow>
          if sh = js ''bash'' \<and> flag = js ''-lc'' then
            (case heredoc_search script of Some body \<Rightarrow> parsed_body body | None \<Rightarrow> MANotApply)
          else MANotApply
      | _ \<Rightarrow> MANotApply)"

section \<open>Finding the lines of a chunk\<close>

definition normalize_unit :: "nat \<Rightarrow> jstring" where
  "normalize_unit c =
     (if c \<in> {8216, 8217, 8218, 8219} then [39]
      else if c \<in> {8220, 8221, 8222, 8223} then [34]
      else if c \<in> {8208, 8209, 8210, 8211, 8212, 8213} then [45]
      else if c = 8230 then [46, 46, 46]
      else if c = 160 then [32]
      else [c])"

definition normalizeUnicode :: "jstring \<Rightarrow> jstring" where
  "normalizeUnicode str = concat (map normalize_unit str)"

type_synonym comparator = "jstring \<Rightarrow> jstring \<Rightarrow> bool"

definition matches_at :: "comparator \<Rightarrow> jstring list \<Rightarrow> jstring list \<Rightarrow> nat \<Rightarrow> bool" where
  "matches_at cmp lines pattern i =
     list_all (\<lambda>j. cmp (lines ! (i + j)) (pattern ! j)) [0..<length pattern]"

definition tryMatch :: "jstring list \<Rightarrow> jstring list \<Rightarrow> nat \<Rightarrow> comparator \<Rightarrow> bool \<Rightarrow> nat option" where
  "tryMatch lines pattern startIndex cmp eof =
     (let fits = length pattern \<le> length lines; fromEnd = length lines - length pattern
      in if eof \<and> fits \<and> startIndex \<le> fromEnd \<and> matches_at cmp lines pattern fromEnd then Some fromEnd
         else if fits then find (matches_at cmp lines pattern) [startIndex..<Suc fromEnd]
         else None)"

definition cmp_exact :: comparator where "cmp_exact a b \<longleftrightarrow> a = b"
definition cmp_rstrip :: comparator where "cmp_rstrip a b \<longleftrightarrow> trimEnd a = trimEnd b"
definition cmp_trim :: comparator where "cmp_trim a b \<longleftrightarrow> trim a = trim b"
definition cmp_normalized :: comparator where
  "cmp_normalized a b \<longleftrightarrow> normalizeUnicode (trim a) = normalizeUnicode (trim b)"

fun first_some :: "'a option list \<Rightarrow> 'a option" where
  "first_some [] = None"
| "first_some (x # xs) = (case x of Some a \<Rightarrow> Some a | None \<Rightarrow> first_some xs)"

definition seekSequence :: "jstring list \<Rightarrow> jstring list \<Rightarrow> nat \<Rightarrow> bool \<Rightarrow> nat option" where
  "seekSequence lines pattern startIndex eof =
     (if pattern = [] then None
      else first_some [tryMatch lines pattern startIndex cmp_exact eof,
                       tryMatch lines pattern startIndex cmp_rstrip eof,
                       tryMatch lines pattern startIndex cmp_trim eof,
                       tryMatch lines pattern startIndex cmp_normalized eof])"

section \<open>Replacements\<close>

type_synonym replacement = "nat \<times> nat \<times> jstring list"

definition insertion_index :: "jstring list \<Rightarrow> nat" where
  "insertion_index lines =
     (if lines \<noteq> [] \<and> last lines = [] then length lines - 1 else length lines)"

definition drop_blank_end :: "jstring list \<Rightarrow> jstring list" where
  "drop_blank_end xs = (if xs \<noteq> [] \<and> last xs = [] then butlast xs else xs)"

text \<open>The position from which a chunk is searched, after its context line.\<close>

definition context_start ::
  "jstring list \<Rightarrow> jstring \<Rightarrow> chunk \<Rightarrow> nat \<Rightarrow> patch_error + nat" where
  "context_start lines path ch lineIndex =
     (case change_context ch of
        None \<Rightarrow> Inr lineIndex
      | Some ctx \<Rightarrow>
          if ctx = [] then Inr lineIndex
          else case seekSequence lines [ctx] lineIndex False of
                 None \<Rightarrow> Inl (ContextNotFound ctx path)
               | Some idx \<Rightarrow> Inr (Suc idx))"

definition locate ::
  "jstring list \<Rightarrow> chunk \<Rightarrow> nat \<Rightarrow> replacement option" where
  "locate lines ch start =
     (case seekSequence lines (old_lines ch) start (is_end_of_file ch) of
        Some found \<Rightarrow> Some (found, length (old_lines ch), new_lines ch)
      | None \<Rightarrow>
          if last (old_lines ch) = [] then
            (let pattern = butlast (old_lines ch)
             in case seekSequence lines pattern start (is_end_of_file ch) of
                  Some found \<Rightarrow> Some (found, length pattern, drop_blank_end (new_lines ch))
                | None \<Rightarrow> None)
          else None)"

fun replacements_from ::
  "jstring list \<Rightarrow> jstring \<Rightarrow> chunk list \<Rightarrow> nat \<Rightarrow> replacement list \<Rightarrow> patch_error + replacement list" where
  "replacements_from lines path [] lineIndex reps = Inr reps"
| "replacements_from lines path (ch # chs) lineIndex reps =
     (case context_start lines path ch lineIndex of
        Inl e \<Rightarrow> Inl e
      | Inr start \<Rightarrow>
          if old_lines ch = [] then
            replacements_from lines path chs start (reps @ [(insertion_index lines, 0, new_lines ch)])
          else case locate lines ch start of
                 None \<Rightarrow> Inl (LinesNotFound path (old_lines ch))
               | Some (found, len, seg) \<Rightarrow>
                   replacements_from lines path chs (found + len) (reps @ [(found, len, seg)]))"

definition computeReplacements ::
  "jstring list \<Rightarrow> jstring \<Rightarrow> chunk list \<Rightarrow> patch_error + replacement list" where
  "computeReplacements lines path chs =
     (case replacements_from lines path chs 0 [] of
        Inl e \<Rightarrow> Inl e | Inr reps \<Rightarrow> Inr (sort_key fst reps))"

text \<open>\<open>splice\<close> clamps its arguments to the array, as \<open>take\<close> and \<open>drop\<close> do.\<close>

definition splice_remove :: "nat \<Rightarrow> nat \<Rightarrow> 'a list \<Rightarrow> 'a list" where
  "splice_remove s n xs = take s xs @ drop (s + n) xs"

fun splice_insert :: "nat \<Rightarrow> 'a list \<Rightarrow> 'a list \<Rightarrow> 'a list" where
  "splice_insert k [] xs = xs"
| "splice_insert k (y # ys) xs = splice_insert (Suc k) ys (take k xs @ y # drop k xs)"

fun apply_reversed :: "replacement list \<Rightarrow> jstring list \<Rightarrow> jstring list" where
  "apply_reversed [] xs = xs"
| "apply_reversed ((s, n, seg) # rs) xs = apply_reversed rs (splice_insert s seg (splice_remove s n xs))"

definition applyReplacements :: "jstring list \<Rightarrow> replacement list \<Rightarrow> jstring list" where
  "applyReplacements lines reps = apply_reversed (rev reps) lines"

definition nth_or_empty :: "jstring list \<Rightarrow> nat \<Rightarrow> jstring" where
  "nth_or_empty xs i = (if i < length xs then xs ! i else [])"

definition diff_line :: "jstring \<Rightarrow> jstring \<Rightarrow> jstring" where
  "diff_line oldLine newLine =
     (if oldLine \<noteq> newLine then
        (if oldLine \<noteq> [] then js ''-'' @ oldLine @ [newline] else []) @
        (if newLine \<noteq> [] then js ''+'' @ newLine @ [newline] else [])
      else if oldLine \<noteq> [] then js '' '' @ oldLine @ [newline] else [])"

definition generateUnifiedDiff :: "jstring \<Rightarrow> jstring \<Rightarrow> jstring" where
  "generateUnifiedDiff oldContent newContent =
     (let os = split_on newline oldContent; ns = split_on newline newContent;
          idx = [0..<max (length os) (length ns)]
      in if list_ex (\<lambda>i. nth_or_empty os i \<noteq> nth_or_empty ns i) idx
         then js ''@@ -1 +1 @@'' @ [newline] @
              concat (map (\<lambda>i. diff_line (nth_or_empty os i) (nth_or_empty ns i)) idx)
         else [])"

record file_update =
  unified_diff :: jstring
  new_content :: jstring
  has_bom :: bool

type_synonym filesystem = "jstring \<rightharpoonup> jstring"

definition ensure_blank_end :: "jstring list \<Rightarrow> jstring list" where
  "ensure_blank_end xs = (if xs = [] \<or> last xs \<noteq> [] then xs @ [[]] else xs)"

definition deriveNewContentsFromChunks ::
  "filesystem \<Rightarrow> jstring \<Rightarrow> chunk list \<Rightarrow> patch_error + file_update" where
  "deriveNewContentsFromChunks fs path chs =
     (case fs path of
        None \<Rightarrow> Inl (ReadFailed path)
      | Some raw \<Rightarrow>
          (let (bom, text) = bom_split raw; original = drop_blank_end (split_on newline text)
           in case computeReplacements original path chs of
                Inl e \<Rightarrow> Inl e
              | Inr reps \<Rightarrow>
                  (let (bom', text') = bom_split (join [newline] (ensure_blank_end (applyReplacements original reps)))
                   in Inr \<lparr>unified_diff = generateUnifiedDiff text text', new_content = text',
                           has_bom = bom \<or> bom'\<rparr>)))"

section \<open>Applying hunks to files\<close>

record affected =
  added :: "jstring list"
  modified :: "jstring list"
  deleted :: "jstring list"

definition unlink :: "jstring \<Rightarrow> filesystem \<Rightarrow> patch_error + filesystem" where
  "unlink path fs = (if fs path = None then Inl (UnlinkFailed path) else Inr (fs(path := None)))"

text \<open>One hunk: the new files and lists, or the error with the files as they are when it is thrown.\<close>

fun apply_hunk :: "hunk \<Rightarrow> filesystem \<Rightarrow> affected \<Rightarrow> (patch_error \<times> filesystem) + (filesystem \<times> affected)" where
  "apply_hunk (AddFile path contents) fs a =
     Inr (fs(path \<mapsto> contents), a\<lparr>added := added a @ [path]\<rparr>)"
| "apply_hunk (DeleteFile path) fs a =
     (case unlink path fs of Inl e \<Rightarrow> Inl (e, fs) | Inr fs' \<Rightarrow> Inr (fs', a\<lparr>deleted := deleted a @ [path]\<rparr>))"
| "apply_hunk (UpdateFile path mv chs) fs a =
     (case deriveNewContentsFromChunks fs path chs of
        Inl e \<Rightarrow> Inl (e, fs)
      | Inr u \<Rightarrow>
          (let out = bom_join (new_content u) (has_bom u)
           in case mv of
                Some m \<Rightarrow>
                  if m \<noteq> [] then
                    (let fs1 = fs(m \<mapsto> out)
                     in case unlink path fs1 of
                          Inl e \<Rightarrow> Inl (e, fs1)
                        | Inr fs2 \<Rightarrow> Inr (fs2, a\<lparr>modified := modified a @ [m]\<rparr>))
                  else Inr (fs(path \<mapsto> out), a\<lparr>modified := modified a @ [path]\<rparr>)
              | None \<Rightarrow> Inr (fs(path \<mapsto> out), a\<lparr>modified := modified a @ [path]\<rparr>)))"

fun apply_hunks ::
  "hunk list \<Rightarrow> filesystem \<Rightarrow> affected \<Rightarrow> (patch_error \<times> filesystem) + (filesystem \<times> affected)" where
  "apply_hunks [] fs a = Inr (fs, a)"
| "apply_hunks (h # hs) fs a =
     (case apply_hunk h fs a of Inl e \<Rightarrow> Inl e | Inr (fs', a') \<Rightarrow> apply_hunks hs fs' a')"

definition applyHunksToFiles ::
  "hunk list \<Rightarrow> filesystem \<Rightarrow> (patch_error \<times> filesystem) + (filesystem \<times> affected)" where
  "applyHunksToFiles hs fs =
     (if hs = [] then Inl (NoFilesModified, fs)
      else apply_hunks hs fs \<lparr>added = [], modified = [], deleted = []\<rparr>)"

definition applyPatch ::
  "jstring \<Rightarrow> filesystem \<Rightarrow> (patch_error \<times> filesystem) + (filesystem \<times> affected)" where
  "applyPatch patchText fs =
     (case parsePatch patchText of Inl e \<Rightarrow> Inl (e, fs) | Inr hs \<Rightarrow> applyHunksToFiles hs fs)"

datatype file_change =
  ChAdd jstring
| ChDelete jstring
| ChUpdate jstring "jstring option" jstring

datatype maybe_verified =
  MVBody "(jstring, file_change) jmap" jstring jstring
| MVCorrectness patch_error
| MVNotApply

definition resolved_move :: "jstring option \<Rightarrow> jstring option" where
  "resolved_move mv = (case mv of Some m \<Rightarrow> (if m = [] then None else Some m) | None \<Rightarrow> None)"

fun hunk_change ::
  "(jstring \<Rightarrow> jstring) \<Rightarrow> filesystem \<Rightarrow> hunk \<Rightarrow> patch_error + (jstring \<times> file_change)" where
  "hunk_change res fs (AddFile path contents) = Inr (res path, ChAdd contents)"
| "hunk_change res fs (DeleteFile path) =
     (case fs (res path) of
        None \<Rightarrow> Inl (ReadFailed (res path))
      | Some content \<Rightarrow> Inr (res path, ChDelete content))"
| "hunk_change res fs (UpdateFile path mv chs) =
     (case deriveNewContentsFromChunks fs (res path) chs of
        Inl e \<Rightarrow> Inl e
      | Inr u \<Rightarrow>
          Inr (res (case resolved_move mv of Some m \<Rightarrow> m | None \<Rightarrow> path),
               ChUpdate (unified_diff u) (map_option res (resolved_move mv)) (new_content u)))"

fun collect_changes ::
  "(jstring \<Rightarrow> jstring) \<Rightarrow> filesystem \<Rightarrow> hunk list \<Rightarrow> (jstring, file_change) jmap \<Rightarrow>
   patch_error + (jstring, file_change) jmap" where
  "collect_changes res fs [] changes = Inr changes"
| "collect_changes res fs (h # hs) changes =
     (case hunk_change res fs h of
        Inl e \<Rightarrow> Inl e
      | Inr (p, c) \<Rightarrow> collect_changes res fs hs (jmap_set p c changes))"

definition maybeParseApplyPatchVerified ::
  "(jstring \<Rightarrow> jstring \<Rightarrow> jstring) \<Rightarrow> filesystem \<Rightarrow> jstring list \<Rightarrow> jstring \<Rightarrow> maybe_verified" where
  "maybeParseApplyPatchVerified path_resolve fs argv cwd =
     (if (case argv of [txt] \<Rightarrow> (case parsePatch txt of Inr _ \<Rightarrow> True | Inl _ \<Rightarrow> False) | _ \<Rightarrow> False)
      then MVCorrectness ImplicitInvocation
      else case maybeParseApplyPatch argv of
        MABody args \<Rightarrow>
          (let effectiveCwd = (case workdir args of Some w \<Rightarrow> (if w = [] then cwd else path_resolve cwd w) | None \<Rightarrow> cwd)
           in case collect_changes (path_resolve effectiveCwd) fs (arg_hunks args) [] of
                Inl e \<Rightarrow> MVCorrectness e
              | Inr changes \<Rightarrow> MVBody changes (patch_text args) effectiveCwd)
      | MAParseError e \<Rightarrow> MVCorrectness e
      | MANotApply \<Rightarrow> MVNotApply)"

section \<open>Searching\<close>

lemma matches_at_iff:
  "i + length pattern \<le> length lines \<Longrightarrow>
   matches_at cmp lines pattern i \<longleftrightarrow> list_all2 cmp (take (length pattern) (drop i lines)) pattern"
  by (auto simp: matches_at_def list_all_iff list_all2_conv_all_nth)

lemma tryMatch_Some:
  assumes "tryMatch lines pattern start cmp eof = Some i"
  shows "start \<le> i \<and> i + length pattern \<le> length lines \<and>
    list_all2 cmp (take (length pattern) (drop i lines)) pattern"
proof -
  have "start \<le> i \<and> i + length pattern \<le> length lines \<and> matches_at cmp lines pattern i"
    using assms
    by (auto simp: tryMatch_def Let_def find_Some_iff nth_append split: if_splits)
  then show ?thesis using matches_at_iff [of i pattern lines cmp] by blast
qed

lemma tryMatch_first:
  assumes "start \<le> i" and "i + length pattern \<le> length lines" and "matches_at cmp lines pattern i"
    and "\<forall>j. start \<le> j \<and> j < i \<longrightarrow> \<not> matches_at cmp lines pattern j"
  shows "tryMatch lines pattern start cmp False = Some i"
proof -
  let ?xs = "[start..<Suc (length lines - length pattern)]"
  have "find (matches_at cmp lines pattern) ?xs = Some i"
    unfolding find_Some_iff
    by (rule exI [of _ "i - start"]) (use assms in \<open>auto simp: nth_upt simp del: upt_Suc\<close>)
  then show ?thesis using assms(2) by (simp add: tryMatch_def)
qed

lemma tryMatch_None_no_match:
  assumes "tryMatch lines pattern start cmp eof = None" and "start \<le> i"
    and "i + length pattern \<le> length lines"
  shows "\<not> matches_at cmp lines pattern i"
proof -
  have "find (matches_at cmp lines pattern) [start..<Suc (length lines - length pattern)] = None"
    using assms(1,3) by (auto simp: tryMatch_def Let_def split: if_splits)
  moreover have "i \<in> set [start..<Suc (length lines - length pattern)]"
    using assms(2,3) by auto
  ultimately show ?thesis unfolding find_None_iff by blast
qed

abbreviation passes :: "comparator list" where
  "passes \<equiv> [cmp_exact, cmp_rstrip, cmp_trim, cmp_normalized]"

lemma seekSequence_Some:
  assumes "seekSequence lines pattern start eof = Some i"
  shows "pattern \<noteq> [] \<and> start \<le> i \<and> i + length pattern \<le> length lines \<and>
    (\<exists>cmp\<in>set passes. list_all2 cmp (take (length pattern) (drop i lines)) pattern)"
  using assms
  by (auto simp: seekSequence_def split: if_splits option.splits dest!: tryMatch_Some)

lemma seekSequence_bounds:
  "seekSequence lines pattern start eof = Some i \<Longrightarrow>
   0 < length pattern \<and> start \<le> i \<and> i + length pattern \<le> length lines"
  by (drule seekSequence_Some) simp

section \<open>Replacing\<close>

fun render :: "nat \<Rightarrow> jstring list \<Rightarrow> replacement list \<Rightarrow> jstring list" where
  "render pos lines [] = drop pos lines"
| "render pos lines ((s, n, seg) # rs) = take (s - pos) (drop pos lines) @ seg @ render (s + n) lines rs"

fun ordered :: "nat \<Rightarrow> nat \<Rightarrow> replacement list \<Rightarrow> bool" where
  "ordered pos len [] = (pos \<le> len)"
| "ordered pos len ((s, n, seg) # rs) = (pos \<le> s \<and> ordered (s + n) len rs)"

lemma splice_insert_eq: "k \<le> length xs \<Longrightarrow> splice_insert k ys xs = take k xs @ ys @ drop k xs"
proof (induction ys arbitrary: k xs)
  case Nil
  then show ?case by simp
next
  case (Cons y ys)
  then show ?case by (simp add: min_def)
qed

lemma apply_reversed_snoc:
  "apply_reversed (xs @ [(s, n, seg)]) ys = splice_insert s seg (splice_remove s n (apply_reversed xs ys))"
  by (induction xs arbitrary: ys) auto

lemma applyReplacements_Cons:
  "applyReplacements lines ((s, n, seg) # rs) =
     splice_insert s seg (splice_remove s n (applyReplacements lines rs))"
  by (simp add: applyReplacements_def apply_reversed_snoc)

lemma ordered_pos: "ordered pos len rs \<Longrightarrow> pos \<le> len"
  by (induction rs arbitrary: pos) force+

lemma take_take_drop: "pos \<le> s \<Longrightarrow> take pos xs @ take (s - pos) (drop pos xs) = take s xs"
  by (metis le_add_diff_inverse take_add)

lemma applyReplacements_render:
  "ordered pos (length lines) rs \<Longrightarrow> applyReplacements lines rs = take pos lines @ render pos lines rs"
proof (induction rs arbitrary: pos)
  case Nil
  then show ?case by (simp add: applyReplacements_def)
next
  case (Cons r rs)
  obtain s n seg where r: "r = (s, n, seg)" by (cases r)
  from Cons.prems r have o: "pos \<le> s" "ordered (s + n) (length lines) rs" by auto
  have le: "s + n \<le> length lines" by (rule ordered_pos [OF o(2)])
  have "splice_remove s n (applyReplacements lines rs) = take s lines @ render (s + n) lines rs"
    using Cons.IH [OF o(2)] le by (simp add: splice_remove_def min_def)
  then have "applyReplacements lines (r # rs) = take s lines @ seg @ render (s + n) lines rs"
    using le by (simp add: r applyReplacements_Cons splice_insert_eq)
  then show ?case using take_take_drop [OF o(1), of lines] by (simp add: r flip: append_assoc)
qed

lemma ordered_snoc:
  "ordered pos li rs \<Longrightarrow> li \<le> s \<Longrightarrow> s + n \<le> len \<Longrightarrow> ordered pos len (rs @ [(s, n, seg)])"
  by (induction rs arbitrary: pos) auto

lemma ordered_mono: "ordered pos len rs \<Longrightarrow> len \<le> len' \<Longrightarrow> ordered pos len' rs"
  by (induction rs arbitrary: pos) auto

lemma ordered_inserts:
  "ordered pos len rs \<Longrightarrow> \<forall>r\<in>set ins. fst r = len \<and> fst (snd r) = 0 \<Longrightarrow> ordered pos len (rs @ ins)"
proof (induction ins arbitrary: rs rule: rev_induct)
  case Nil
  then show ?case by simp
next
  case (snoc i ins)
  then have "ordered pos len (rs @ ins)" by simp
  then show ?case using snoc.prems ordered_snoc [of pos len "rs @ ins" len 0 len]
    by (cases i) auto
qed

lemma ordered_sorted: "ordered pos len rs \<Longrightarrow> sorted (map fst rs) \<and> (\<forall>r\<in>set rs. pos \<le> fst r)"
proof (induction rs arbitrary: pos)
  case Nil
  then show ?case by simp
next
  case (Cons r rs)
  then show ?case by (cases r) force
qed

text \<open>What holds of the collected replacements while the chunks are walked.\<close>

definition reps_inv :: "nat \<Rightarrow> nat \<Rightarrow> replacement list \<Rightarrow> bool" where
  "reps_inv len li reps \<longleftrightarrow> li \<le> len \<and> ordered 0 li (filter (\<lambda>r. fst r < len) reps) \<and>
     (\<forall>r\<in>set reps. fst r \<le> len \<and> (fst r = len \<longrightarrow> fst (snd r) = 0))"

lemma reps_inv_mono: "reps_inv len li reps \<Longrightarrow> li \<le> li' \<Longrightarrow> li' \<le> len \<Longrightarrow> reps_inv len li' reps"
  by (auto simp: reps_inv_def intro: ordered_mono)

lemma reps_inv_insert: "reps_inv len li reps \<Longrightarrow> reps_inv len li (reps @ [(len, 0, seg)])"
  by (auto simp: reps_inv_def)

lemma reps_inv_match:
  "reps_inv len li reps \<Longrightarrow> li \<le> s \<Longrightarrow> s + n \<le> len \<Longrightarrow> 0 < n \<Longrightarrow>
   reps_inv len (s + n) (reps @ [(s, n, seg)])"
  by (auto simp: reps_inv_def intro: ordered_snoc)

lemma context_start_bounds:
  "context_start lines path ch li = Inr st \<Longrightarrow> li \<le> length lines \<Longrightarrow> li \<le> st \<and> st \<le> length lines"
  by (auto simp: context_start_def split: option.splits if_splits dest!: seekSequence_bounds)

lemma locate_bounds:
  assumes "locate lines ch st = Some (s, n, seg)"
  shows "st \<le> s \<and> s + n \<le> length lines \<and> 0 < n"
  using assms
  by (auto simp: locate_def Let_def simp del: length_butlast
        split: option.splits if_splits dest!: seekSequence_bounds)

lemma replacements_from_inv:
  assumes "insertion_index lines = length lines"
  shows "replacements_from lines path chs li reps = Inr out \<Longrightarrow> reps_inv (length lines) li reps \<Longrightarrow>
    \<exists>li'. reps_inv (length lines) li' out"
proof (induction chs arbitrary: li reps)
  case Nil
  then show ?case by auto
next
  case (Cons ch chs)
  from Cons.prems(1) obtain st where st: "context_start lines path ch li = Inr st"
    by (auto split: sum.splits)
  have "li \<le> length lines" using Cons.prems(2) by (simp add: reps_inv_def)
  then have inv: "reps_inv (length lines) st reps"
    using context_start_bounds [OF st] Cons.prems(2) by (auto intro: reps_inv_mono)
  show ?case
  proof (cases "old_lines ch = []")
    case True
    then show ?thesis using Cons st inv assms by (auto intro: reps_inv_insert)
  next
    case False
    then obtain s n seg where loc: "locate lines ch st = Some (s, n, seg)"
      using Cons.prems(1) st by (auto split: option.splits)
    then show ?thesis
      using Cons False st reps_inv_match [OF inv] locate_bounds [OF loc] by auto
  qed
qed

lemma sort_reps:
  assumes "reps_inv len li reps"
  shows "sort_key fst reps = filter (\<lambda>r. fst r < len) reps @ filter (\<lambda>r. fst r = len) reps"
proof (rule properties_for_sort_key)
  have le: "\<forall>r\<in>set reps. fst r \<le> len" using assms by (simp add: reps_inv_def)
  then have "filter (\<lambda>r. fst r = len) reps = filter (\<lambda>r. \<not> fst r < len) reps"
    by (intro filter_cong) auto
  then show "mset (filter (\<lambda>r. fst r < len) reps @ filter (\<lambda>r. fst r = len) reps) = mset reps"
    by (simp flip: multiset_partition)
  show "filter (\<lambda>x. fst k = fst x) (filter (\<lambda>r. fst r < len) reps @ filter (\<lambda>r. fst r = len) reps) =
      filter (\<lambda>x. fst k = fst x) reps"
    if "k \<in> set (filter (\<lambda>r. fst r < len) reps @ filter (\<lambda>r. fst r = len) reps)" for k
    using that by (cases "fst k < len") (auto intro!: filter_cong simp: filter_empty_conv)
  have "sorted (map fst (filter (\<lambda>r. fst r < len) reps))"
    using assms by (auto simp: reps_inv_def dest: ordered_sorted)
  moreover have "sorted (map fst (filter (\<lambda>r. fst r = len) reps))"
    by (induction reps) auto
  ultimately show "sorted (map fst (filter (\<lambda>r. fst r < len) reps @ filter (\<lambda>r. fst r = len) reps))"
    by (auto simp: sorted_append)
qed

lemma computeReplacements_ordered:
  assumes "computeReplacements lines path chs = Inr reps" and "insertion_index lines = length lines"
  shows "ordered 0 (length lines) reps"
proof -
  obtain raw where raw: "replacements_from lines path chs 0 [] = Inr raw" "reps = sort_key fst raw"
    using assms(1) by (auto simp: computeReplacements_def split: sum.splits)
  have "reps_inv (length lines) 0 []" by (simp add: reps_inv_def)
  then obtain li where li: "reps_inv (length lines) li raw"
    using replacements_from_inv [OF assms(2) raw(1)] by blast
  then have "ordered 0 (length lines) (filter (\<lambda>r. fst r < length lines) raw)"
    by (auto simp: reps_inv_def intro: ordered_mono)
  then show ?thesis unfolding raw(2) sort_reps [OF li]
    by (rule ordered_inserts) (use li in \<open>auto simp: reps_inv_def\<close>)
qed

section \<open>Printing a patch\<close>

text \<open>
  A reference printer for the format, against which the parser is checked: each hunk with its
  header, a chunk as its context line, its removed lines and its added lines.
\<close>

definition print_chunk :: "chunk \<Rightarrow> jstring list" where
  "print_chunk ch =
     (js ''@@'' @ (case change_context ch of Some c \<Rightarrow> js '' '' @ c | None \<Rightarrow> [])) #
     map (\<lambda>l. js ''-'' @ l) (old_lines ch) @ map (\<lambda>l. js ''+'' @ l) (new_lines ch)"

fun print_hunk :: "hunk \<Rightarrow> jstring list" where
  "print_hunk (AddFile p c) = (js ''*** Add File: '' @ p) # map (\<lambda>l. js ''+'' @ l) (split_on newline c)"
| "print_hunk (DeleteFile p) = [js ''*** Delete File: '' @ p]"
| "print_hunk (UpdateFile p mv chs) =
     (js ''*** Update File: '' @ p) #
     (case mv of Some m \<Rightarrow> [js ''*** Move to: '' @ m] | None \<Rightarrow> []) @ concat (map print_chunk chs)"

definition print_patch :: "hunk list \<Rightarrow> jstring" where
  "print_patch hs =
     join [newline] (js ''*** Begin Patch'' # concat (map print_hunk hs) @ [js ''*** End Patch''])"

definition trimmed :: "jstring \<Rightarrow> bool" where
  "trimmed s \<longleftrightarrow> trim s = s \<and> newline \<notin> set s"

definition wf_chunk :: "chunk \<Rightarrow> bool" where
  "wf_chunk ch \<longleftrightarrow> \<not> is_end_of_file ch \<and>
     (\<forall>l\<in>set (old_lines ch @ new_lines ch). newline \<notin> set l) \<and>
     (case change_context ch of None \<Rightarrow> True | Some c \<Rightarrow> trimmed c \<and> c \<noteq> [])"

fun wf_hunk :: "hunk \<Rightarrow> bool" where
  "wf_hunk (AddFile p c) = (trimmed p \<and> p \<noteq> [])"
| "wf_hunk (DeleteFile p) = (trimmed p \<and> p \<noteq> [])"
| "wf_hunk (UpdateFile p mv chs) =
     (trimmed p \<and> p \<noteq> [] \<and> (case mv of None \<Rightarrow> True | Some m \<Rightarrow> trimmed m) \<and> list_all wf_chunk chs)"

lemma js_Cons: "js (c # s) = of_char c # js s"
  by (simp add: js_def)

lemmas js_eval = js_Cons js_Nil

lemma trim_Cons_space [simp]: "trim (32 # s) = trim s"
  by (simp add: trim_def trimStart_def is_space_def)

lemma trim_Nil [simp]: "trim [] = []"
  by (simp add: trim_def trimStart_def trimEnd_def)

lemma trimEnd_append:
  assumes "u \<noteq> []" and "\<not> is_space (last u)"
  shows "trimEnd (u @ s) = u @ trimEnd s"
proof -
  have u: "dropWhile is_space (rev u) = rev u"
    using assms by (cases u rule: rev_cases) auto
  have "dropWhile is_space (rev s @ rev u) = dropWhile is_space (rev s) @ rev u"
  proof (cases "\<forall>x\<in>set (rev s). is_space x")
    case True
    then show ?thesis using u by (subst dropWhile_append2) (auto simp: dropWhile_eq_Nil_conv)
  next
    case False
    then show ?thesis by (meson dropWhile_append1)
  qed
  then show ?thesis by (simp add: trimEnd_def)
qed

lemma trim_append:
  assumes "u \<noteq> []" and "\<not> is_space (hd u)" and "\<not> is_space (last u)"
  shows "trim (u @ s) = u @ trimEnd s"
proof -
  have "trimStart (u @ s) = u @ s" using assms(1,2) by (cases u) (auto simp: trimStart_def)
  then show ?thesis using trimEnd_append [OF assms(1,3)] by (simp add: trim_def)
qed

lemma trim_id: "u \<noteq> [] \<Longrightarrow> \<not> is_space (hd u) \<Longrightarrow> \<not> is_space (last u) \<Longrightarrow> trim u = u"
  using trim_append [of u "[]"] by (simp add: trimEnd_def)

section \<open>Parsing what was printed\<close>

definition at_marker :: "jstring list \<Rightarrow> bool" where
  "at_marker rest = (case rest of [] \<Rightarrow> False
     | l # _ \<Rightarrow> startsWith l (js ''***'') \<and> \<not> startsWith l (js ''*** Move to:''))"

lemma at_marker_Cons: "at_marker rest \<Longrightarrow> \<exists>l ls. rest = (42 # 42 # 42 # l) # ls"
  by (auto simp: at_marker_def startsWith_prefix js_eval split: list.splits)

lemmas startsWith_eval = startsWith_def js_eval

lemma parse_printed_changes:
  assumes "rest = [] \<or> startsWith (hd rest) (js ''@@'') \<or> startsWith (hd rest) (js ''***'')"
  shows "parse_change_lines (map (\<lambda>l. js ''-'' @ l) olds @ map (\<lambda>l. js ''+'' @ l) news @ rest) os ns =
    (os @ olds, ns @ news, False, rest)"
proof (induction olds arbitrary: os)
  case Nil
  show ?case
  proof (induction news arbitrary: ns)
    case Nil
    then show ?case using assms by (cases rest) auto
  next
    case (Cons n news)
    then show ?case by (simp add: startsWith_eval)
  qed
next
  case (Cons o' olds)
  then show ?case by (simp add: startsWith_eval)
qed

lemma printed_chunk_hd: "startsWith (hd (print_chunk ch @ rest)) (js ''@@'')"
  by (simp add: print_chunk_def startsWith_prefix)

lemma context_of_printed:
  "wf_chunk ch \<Longrightarrow> nonempty (trim (case change_context ch of Some c \<Rightarrow> js '' '' @ c | None \<Rightarrow> [])) = change_context ch"
  by (auto simp: wf_chunk_def trimmed_def nonempty_def js_eval
        split: option.splits)

lemma parse_printed_chunks:
  "list_all wf_chunk chs \<Longrightarrow> at_marker rest \<Longrightarrow>
   parseUpdateFileChunks (concat (map print_chunk chs) @ rest) = (chs, rest)"
proof (induction chs)
  case Nil
  then show ?case using at_marker_Cons [OF Nil.prems(2)] by (auto simp: startsWith_eval)
next
  case (Cons ch chs)
  let ?ctx = "case change_context ch of Some c \<Rightarrow> js '' '' @ c | None \<Rightarrow> []"
  let ?more = "concat (map print_chunk chs) @ rest"
  have stop: "?more = [] \<or> startsWith (hd ?more) (js ''@@'') \<or> startsWith (hd ?more) (js ''***'')"
  proof (cases chs)
    case Nil
    then show ?thesis using Cons.prems(2) by (auto simp: at_marker_def split: list.splits)
  next
    case (Cons c cs)
    then show ?thesis using printed_chunk_hd [of c "concat (map print_chunk cs) @ rest"] by simp
  qed
  note ch = parse_printed_changes [OF stop, of "old_lines ch" "new_lines ch" "[]" "[]"]
  have lhs: "concat (map print_chunk (ch # chs)) @ rest =
      (js ''@@'' @ ?ctx) # map (\<lambda>l. js ''-'' @ l) (old_lines ch) @ map (\<lambda>l. js ''+'' @ l) (new_lines ch) @ ?more"
    by (simp add: print_chunk_def)
  have hd: "\<not> startsWith (js ''@@'' @ ?ctx) (js ''***'')" "startsWith (js ''@@'' @ ?ctx) (js ''@@'')"
    "drop 2 (js ''@@'' @ ?ctx) = ?ctx"
    by (simp_all add: startsWith_eval)
  have ctx: "nonempty (trim ?ctx) = change_context ch" using Cons.prems(1) by (simp add: context_of_printed)
  have "\<not> is_end_of_file ch" using Cons.prems(1) by (simp add: wf_chunk_def)
  then have "\<lparr>old_lines = old_lines ch, new_lines = new_lines ch, change_context = change_context ch,
      is_end_of_file = False\<rparr> = ch" by simp
  then show ?case
    unfolding lhs parseUpdateFileChunks.simps(2)
    using Cons hd ch by (simp add: ctx)
qed

lemma add_content_printed:
  "at_marker rest \<Longrightarrow> add_content (map (\<lambda>l. js ''+'' @ l) ls @ rest) acc =
     (acc @ concat (map (\<lambda>l. l @ [newline]) ls), rest)"
proof (induction ls arbitrary: acc)
  case Nil
  then show ?case using at_marker_Cons [OF Nil] by (auto simp: startsWith_eval)
next
  case (Cons l ls)
  then show ?case by (simp add: startsWith_eval)
qed

lemma concat_lines_join: "ls \<noteq> [] \<Longrightarrow> concat (map (\<lambda>l. l @ [newline]) ls) = join [newline] ls @ [newline]"
  by (induction ls rule: induct_list012) auto

lemma parse_printed_add:
  "at_marker rest \<Longrightarrow>
   parseAddFileContent (map (\<lambda>l. js ''+'' @ l) (split_on newline c) @ rest) = (c, rest)"
  by (simp add: parseAddFileContent_def add_content_printed concat_lines_join endsWith_suffix)

lemma trim_printed_path: "trimmed p \<Longrightarrow> trim (32 # p) = p"
  by (simp add: trimmed_def)

lemma at_marker_print_hunk: "at_marker (print_hunk h @ rest)"
  by (cases h) (auto simp: at_marker_def startsWith_eval)

lemma at_marker_hunks: "at_marker (concat (map print_hunk hs) @ [js ''*** End Patch''])"
proof (cases hs)
  case Nil
  then show ?thesis by (simp add: at_marker_def startsWith_eval)
next
  case (Cons h hs')
  then show ?thesis using at_marker_print_hunk [of h] by simp
qed

lemma parse_hunks_stop: "parse_hunks (Suc 0) [l] = []"
  by (simp add: parse_hunks.simps)

lemma printed_headers:
  "startsWith (js ''*** Add File: '' @ p) (js ''*** Add File:'')"
  "\<not> startsWith (js ''*** Delete File: '' @ p) (js ''*** Add File:'')"
  "startsWith (js ''*** Delete File: '' @ p) (js ''*** Delete File:'')"
  "\<not> startsWith (js ''*** Update File: '' @ p) (js ''*** Add File:'')"
  "\<not> startsWith (js ''*** Update File: '' @ p) (js ''*** Delete File:'')"
  "startsWith (js ''*** Update File: '' @ p) (js ''*** Update File:'')"
  "startsWith (js ''*** Move to: '' @ p) (js ''*** Move to:'')"
  by (simp_all add: startsWith_eval)

lemma printed_paths:
  "trimmed p \<Longrightarrow> trim (drop 13 (js ''*** Add File: '' @ p)) = p"
  "trimmed p \<Longrightarrow> trim (drop 16 (js ''*** Delete File: '' @ p)) = p"
  "trimmed p \<Longrightarrow> trim (drop 16 (js ''*** Update File: '' @ p)) = p"
  "trimmed p \<Longrightarrow> trim (drop 12 (js ''*** Move to: '' @ p)) = p"
  by (simp_all add: js_eval trimmed_def)

lemma no_move_line:
  assumes "at_marker rest"
  shows "\<exists>l ls. concat (map print_chunk chs) @ rest = l # ls \<and> \<not> startsWith l (js ''*** Move to:'')"
proof (cases chs)
  case Nil
  then show ?thesis using assms by (auto simp: at_marker_def split: list.splits)
next
  case (Cons ch cs)
  then show ?thesis by (auto simp: print_chunk_def startsWith_eval)
qed

lemma parse_printed_hunk:
  assumes "wf_hunk h" and "at_marker rest"
  shows "parse_hunks (Suc 0) (print_hunk h @ rest) = h # parse_hunks (Suc 0) rest"
proof -
  have ne: "rest \<noteq> []" using assms(2) by (auto simp: at_marker_def)
  note facts = parsePatchHeader_def printed_headers printed_paths
  show ?thesis
  proof (cases h)
    case (AddFile p c)
    then show ?thesis using assms ne parse_printed_add [OF assms(2), of c]
      by (subst parse_hunks.simps) (simp add: facts del: drop_append)
  next
    case (DeleteFile p)
    then show ?thesis using assms ne
      by (subst parse_hunks.simps) (simp add: facts del: drop_append)
  next
    case (UpdateFile p mv chs)
    have chunks: "parseUpdateFileChunks (concat (map print_chunk chs) @ rest) = (chs, rest)"
      using assms UpdateFile by (simp add: parse_printed_chunks)
    show ?thesis
    proof (cases mv)
      case (Some m)
      then show ?thesis using assms ne UpdateFile chunks
        by (subst parse_hunks.simps) (simp add: facts del: drop_append)
    next
      case None
      obtain l ls where "concat (map print_chunk chs) @ rest = l # ls"
          "\<not> startsWith l (js ''*** Move to:'')"
        using no_move_line [OF assms(2)] by blast
      then show ?thesis using assms ne UpdateFile chunks None
        by (subst parse_hunks.simps) (simp add: facts del: drop_append)
    qed
  qed
qed

lemma parse_printed_hunks:
  "list_all wf_hunk hs \<Longrightarrow>
   parse_hunks (Suc 0) (concat (map print_hunk hs) @ [js ''*** End Patch'']) = hs"
proof (induction hs)
  case Nil
  then show ?case by (simp add: parse_hunks_stop)
next
  case (Cons h hs)
  then show ?case
    using parse_printed_hunk [of h "concat (map print_hunk hs) @ [js ''*** End Patch'']"]
      at_marker_hunks [of hs] by simp
qed

text \<open>No printed line other than the last is mistaken for the end marker.\<close>

lemma trim_prefixed:
  "startsWith l u \<Longrightarrow> u \<noteq> [] \<Longrightarrow> \<not> is_space (hd u) \<Longrightarrow> \<not> is_space (last u) \<Longrightarrow> \<not> startsWith m u \<Longrightarrow>
   trim l \<noteq> m"
  by (auto simp: trim_append startsWith_prefix)

definition line_marks :: "jstring list" where
  "line_marks = map js [''*** Add File:'', ''*** Delete File:'', ''*** Update File:'', ''*** Move to:'',
     ''@@'', ''-'', ''+'']"

lemma printed_line_mark: "l \<in> set (print_hunk h) \<Longrightarrow> \<exists>u\<in>set line_marks. startsWith l u"
  by (cases h) (auto simp: line_marks_def startsWith_eval print_chunk_def split: option.splits)

lemma not_end_marker:
  assumes "l \<in> set (print_hunk h)"
  shows "trim l \<noteq> js ''*** End Patch''"
proof -
  have marks: "\<forall>u\<in>set line_marks. u \<noteq> [] \<and> \<not> is_space (hd u) \<and> \<not> is_space (last u) \<and>
      \<not> startsWith (js ''*** End Patch'') u"
    by (simp add: line_marks_def startsWith_eval is_space_def)
  obtain u where "u \<in> set line_marks" "startsWith l u" using printed_line_mark [OF assms] by blast
  then show ?thesis using marks trim_prefixed [of l u] by blast
qed

lemma wf_hunk_no_newline: "wf_hunk h \<Longrightarrow> l \<in> set (print_hunk h) \<Longrightarrow> newline \<notin> set l"
  by (cases h)
     (auto simp: js_eval trimmed_def wf_chunk_def print_chunk_def list_all_iff dest: split_on_no_sep
        split: option.splits)

lemma parse_printed_patch:
  assumes "list_all wf_hunk hs"
  shows "parsePatch (print_patch hs) = Inr hs"
proof -
  let ?body = "concat (map print_hunk hs) @ [js ''*** End Patch'']"
  let ?ls = "js ''*** Begin Patch'' # ?body"
  have pr: "print_patch hs = js ''*** Begin Patch'' @ [newline] @ join [newline] ?body"
    by (simp add: print_patch_def join_Cons)
  have last_join: "\<exists>t. join [newline] (xs @ [js ''*** End Patch'']) = t @ js ''*** End Patch''" for xs
    by (induction xs) (auto simp: join_Cons)
  then obtain t where "join [newline] ?body = t @ js ''*** End Patch''" by blast
  then have tr: "trim (print_patch hs) = print_patch hs"
    unfolding pr by (intro trim_id) (auto simp: js_eval is_space_def)
  have strip: "stripHeredoc (print_patch hs) = print_patch hs"
    unfolding pr by (simp add: stripHeredoc_def heredoc_start_def startsWith_eval)
  have nonl: "\<forall>w\<in>set ?ls. newline \<notin> set w"
    using assms wf_hunk_no_newline by (auto simp: js_eval list_all_iff)
  have split: "split_on newline (print_patch hs) = ?ls"
    unfolding print_patch_def by (rule split_on_join) (use nonl in auto)
  have b: "findIndex (\<lambda>line. trim line = js ''*** Begin Patch'') ?ls = Some 0"
    by (simp add: trim_id js_eval is_space_def)
  have e: "findIndex (\<lambda>line. trim line = js ''*** End Patch'') ?ls = Some (Suc (length (concat (map print_hunk hs))))"
    unfolding findIndex_Some
  proof (intro conjI allI impI)
    fix j
    assume "j < Suc (length (concat (map print_hunk hs)))"
    then have "?ls ! j \<in> insert (js ''*** Begin Patch'') (set (concat (map print_hunk hs)))"
      by (cases j) (simp_all add: nth_append del: set_concat)
    moreover have "trim (js ''*** Begin Patch'') \<noteq> js ''*** End Patch''"
      by (simp add: trim_id js_eval is_space_def)
    ultimately show "trim (?ls ! j) \<noteq> js ''*** End Patch''"
      using not_end_marker by auto
  qed (simp_all add: nth_append trim_id js_eval is_space_def)
  show ?thesis
    using parse_printed_hunks [OF assms]
    unfolding parsePatch_def tr strip split Let_def b e by simp
qed

section \<open>The end-of-file marker and the files a patch touches\<close>

lemma parse_change_lines_no_eof: "fst (snd (snd (parse_change_lines ls os ns))) = False"
  by (induction ls os ns rule: parse_change_lines.induct) (auto simp: startsWith_eval)

lemma parse_chunks_no_eof: "\<forall>ch\<in>set (fst (parseUpdateFileChunks ls)). \<not> is_end_of_file ch"
proof (induction ls rule: parseUpdateFileChunks.induct)
  case 1
  then show ?case by simp
next
  case (2 l ls)
  then show ?case
    using parse_change_lines_no_eof [of ls "[]" "[]"] by (auto split: prod.splits)
qed

fun hunk_chunks :: "hunk \<Rightarrow> chunk list" where
  "hunk_chunks (UpdateFile p mv chs) = chs"
| "hunk_chunks _ = []"

lemma parse_hunks_no_eof:
  "\<forall>h\<in>set (parse_hunks stop ls). \<forall>ch\<in>set (hunk_chunks h). \<not> is_end_of_file ch"
proof (induction stop ls rule: parse_hunks.induct)
  case (1 stop rest)
  show ?case
  proof (cases "length rest \<le> stop \<or> rest = []")
    case True
    then show ?thesis by (subst parse_hunks.simps) auto
  next
    case False
    then obtain l ls where rest: "rest = l # ls" by (cases rest) auto
    show ?thesis
    proof (cases "parsePatchHeader rest")
      case None
      then show ?thesis using "1.IH"(1) False rest by (subst parse_hunks.simps) simp
    next
      case (Some hd)
      obtain c r cs r' where pr: "parseAddFileContent (after_header hd) = (c, r)"
          "parseUpdateFileChunks (after_header hd) = (cs, r')" by fastforce
      then have "\<forall>ch\<in>set cs. \<not> is_end_of_file ch"
        using parse_chunks_no_eof [of "after_header hd"] by simp
      then show ?thesis using "1.IH"(2-) False rest Some pr by (subst parse_hunks.simps) simp
    qed
  qed
qed

fun hunk_paths :: "hunk \<Rightarrow> jstring set" where
  "hunk_paths (AddFile p c) = {p}"
| "hunk_paths (DeleteFile p) = {p}"
| "hunk_paths (UpdateFile p mv chs) = {p} \<union> set_option mv"

definition result_fs :: "(patch_error \<times> filesystem) + (filesystem \<times> affected) \<Rightarrow> filesystem" where
  "result_fs r = (case r of Inl (e, fs) \<Rightarrow> fs | Inr (fs, a) \<Rightarrow> fs)"

lemma result_fs_simps [simp]: "result_fs (Inl (e, fs)) = fs" "result_fs (Inr (fs, a)) = fs"
  by (simp_all add: result_fs_def)

lemma apply_hunk_frame: "q \<notin> hunk_paths h \<Longrightarrow> result_fs (apply_hunk h fs a) q = fs q"
  by (cases h) (auto simp: unlink_def Let_def split: sum.splits option.splits if_splits)

lemma apply_hunks_frame:
  "q \<notin> (\<Union>h\<in>set hs. hunk_paths h) \<Longrightarrow> result_fs (apply_hunks hs fs a) q = fs q"
proof (induction hs arbitrary: fs a)
  case Nil
  then show ?case by simp
next
  case (Cons h hs)
  then show ?case using apply_hunk_frame [of q h fs a]
    by (auto split: sum.splits prod.splits)
qed

lemma cmp_exact_eq: "cmp_exact = (=)"
  by (simp add: fun_eq_iff cmp_exact_def)

lemma seek_exact:
  assumes "old \<noteq> []" and "lines = pre @ old @ post"
    and "\<forall>i<length pre. take (length old) (drop i lines) \<noteq> old"
  shows "seekSequence lines old 0 False = Some (length pre)"
proof -
  have "tryMatch lines old 0 cmp_exact False = Some (length pre)"
    by (rule tryMatch_first)
       (use assms in \<open>auto simp: matches_at_iff cmp_exact_eq list.rel_eq\<close>)
  then show ?thesis using assms(1) by (simp add: seekSequence_def)
qed

section \<open>Properties\<close>

text \<open>
  C7. The parser reads back every patch the reference printer writes: for hunks whose paths and
  contexts carry no surrounding whitespace, parsing the printed patch returns exactly these hunks.
\<close>

theorem parse_print_roundtrip:
  assumes "list_all wf_hunk hs"
  shows "parsePatch (print_patch hs) = Inr hs"
  using assms by (rule parse_printed_patch)

theorem parse_print_roundtrip_witness:
  "let hs = [UpdateFile (js ''a.ts'') (Some (js ''b.ts''))
               [\<lparr>old_lines = [js ''x''], new_lines = [js ''y'', []], change_context = Some (js ''fn''),
                 is_end_of_file = False\<rparr>],
             AddFile (js ''c'') (js ''hi''), DeleteFile (js ''d'')]
   in parsePatch (print_patch hs) = Inr hs"
  unfolding Let_def
  by (rule parse_print_roundtrip)
     (simp add: wf_chunk_def trimmed_def js_def trim_def trimStart_def trimEnd_def is_space_def)

text \<open>
  The end-of-file anchor of the format never takes effect: no chunk the parser produces has
  it set, because a line starting with three stars ends the chunk before the marker is compared.
\<close>

theorem end_of_file_marker_ignored:
  "parsePatch txt' = Inr hs \<Longrightarrow> h \<in> set hs \<Longrightarrow> ch \<in> set (hunk_chunks h) \<Longrightarrow> \<not> is_end_of_file ch"
  using parse_hunks_no_eof
  by (auto simp: parsePatch_def Let_def split: option.splits if_splits)

theorem end_of_file_marker_ignored_witness:
  "let t = join [newline] [js ''*** Begin Patch'', js ''*** Update File: a'', js ''@@'', js ''-x'', js ''+y'',
                             js ''*** End of File'', js ''*** End Patch''];
       ch = \<lparr>old_lines = [js ''x''], new_lines = [js ''y''], change_context = None, is_end_of_file = False\<rparr>
   in parsePatch t = Inr [UpdateFile (js ''a'') None [ch]] \<and> \<not> is_end_of_file ch"
proof -
  let ?t = "join [newline] [js ''*** Begin Patch'', js ''*** Update File: a'', js ''@@'', js ''-x'', js ''+y'',
                             js ''*** End of File'', js ''*** End Patch'']"
  let ?ch = "\<lparr>old_lines = [js ''x''], new_lines = [js ''y''], change_context = None, is_end_of_file = False\<rparr>"
  have h: "parsePatch ?t = Inr [UpdateFile (js ''a'') None [?ch]]" by code_simp
  show ?thesis using h end_of_file_marker_ignored [OF h, of "UpdateFile (js ''a'') None [?ch]" ?ch] by simp
qed

text \<open>
  A position the line search returns is in range, not before the start, and the lines there
  match the chunk's lines under one of the four comparisons (equal, equal up to trailing whitespace,
  up to surrounding whitespace, up to Unicode punctuation).
\<close>

theorem seekSequence_sound:
  assumes "seekSequence lines pattern start eof = Some i"
  shows "pattern \<noteq> [] \<and> start \<le> i \<and> i + length pattern \<le> length lines \<and>
    (\<exists>cmp\<in>set [cmp_exact, cmp_rstrip, cmp_trim, cmp_normalized].
       list_all2 cmp (take (length pattern) (drop i lines)) pattern)"
  using assms by (rule seekSequence_Some)

theorem seekSequence_sound_witness:
  "seekSequence [js ''a'', js ''b  ''] [js ''b''] 0 False = Some 1 \<and>
   (\<exists>cmp\<in>set [cmp_exact, cmp_rstrip, cmp_trim, cmp_normalized].
      list_all2 cmp (take 1 (drop 1 [js ''a'', js ''b  ''])) [js ''b''])"
proof -
  have h: "seekSequence [js ''a'', js ''b  ''] [js ''b''] 0 False = Some 1" by code_simp
  show ?thesis using h seekSequence_sound [OF h] by simp
qed



text \<open>
  A chunk whose old lines occur verbatim in the file, and not earlier, replaces that first
  occurrence by its new lines and leaves what is before and after untouched.
\<close>

theorem update_chunk_exact:
  assumes "old_lines ch \<noteq> []" and "change_context ch = None" and "\<not> is_end_of_file ch"
    and "lines = pre @ old_lines ch @ post"
    and "\<forall>i<length pre. take (length (old_lines ch)) (drop i lines) \<noteq> old_lines ch"
  shows "\<exists>reps. computeReplacements lines path [ch] = Inr reps \<and>
    applyReplacements lines reps = pre @ new_lines ch @ post"
proof -
  have "computeReplacements lines path [ch] = Inr [(length pre, length (old_lines ch), new_lines ch)]"
    using assms seek_exact [OF assms(1,4,5)]
    by (simp add: computeReplacements_def context_start_def locate_def)
  moreover have "applyReplacements lines [(length pre, length (old_lines ch), new_lines ch)] =
      pre @ new_lines ch @ post"
    using applyReplacements_render [of 0 lines "[(length pre, length (old_lines ch), new_lines ch)]"] assms(4)
    by simp
  ultimately show ?thesis by blast
qed

theorem update_chunk_exact_witness:
  "let ch = \<lparr>old_lines = [js ''b''], new_lines = [js ''x''], change_context = None, is_end_of_file = False\<rparr>
   in \<exists>reps. computeReplacements [js ''a'', js ''b'', js ''b''] (js ''f'') [ch] = Inr reps \<and>
        applyReplacements [js ''a'', js ''b'', js ''b''] reps = [js ''a''] @ [js ''x''] @ [js ''b'']"
proof -
  let ?ch = "\<lparr>old_lines = [js ''b''], new_lines = [js ''x''], change_context = None, is_end_of_file = False\<rparr>"
  show ?thesis
    using update_chunk_exact [of ?ch "[js ''a'', js ''b'', js ''b'']" "[js ''a'']" "[js ''b'']" "js ''f''"]
    by simp
qed

text \<open>
  In a file that ends in a blank line, a line a chunk only adds can be lost: the insertion
  point is before the blank line, and a chunk that replaces a range ending with that line deletes
  what was inserted. Here the added line \<open>c\<close> is missing from the result.
\<close>

theorem pure_addition_lost:
  "deriveNewContentsFromChunks (\<lambda>p. Some (join [newline] [js ''a'', [], []])) (js ''f'')
     [\<lparr>old_lines = [js ''a'', []], new_lines = [js ''b'', []], change_context = None, is_end_of_file = False\<rparr>,
      \<lparr>old_lines = [], new_lines = [js ''c''], change_context = None, is_end_of_file = False\<rparr>] =
   Inr \<lparr>unified_diff = join [newline] [js ''@@ -1 +1 @@'', js ''-a'', js ''+b'', []],
        new_content = join [newline] [js ''b'', [], []], has_bom = False\<rparr>"
  by code_simp

text \<open>
  C10. Applying hunks changes no file the hunks do not name, whether the application succeeds or
  stops with an error part of the way.
\<close>

theorem applyHunks_touches_named_files_only:
  assumes "q \<notin> (\<Union>h\<in>set hs. hunk_paths h)"
  shows "result_fs (applyHunksToFiles hs fs) q = fs q"
  using apply_hunks_frame [OF assms] by (simp add: applyHunksToFiles_def)

theorem applyHunks_touches_named_files_only_witness:
  "result_fs (applyHunksToFiles [AddFile (js ''a'') (js ''1''), DeleteFile (js ''b'')] [js ''c'' \<mapsto> js ''2'']) (js ''c'') =
   Some (js ''2'')"
  using applyHunks_touches_named_files_only [of "js ''c''" "[AddFile (js ''a'') (js ''1''), DeleteFile (js ''b'')]"]
  by simp

text \<open>
  An update hunk that moves a file to its own path deletes the file: the new content is
  written and then unlinked, while the result reports the path as modified.
\<close>

theorem move_to_self_deletes:
  assumes "deriveNewContentsFromChunks fs p chs = Inr u" and "p \<noteq> []"
  shows "apply_hunk (UpdateFile p (Some p) chs) fs a = Inr (fs(p := None), a\<lparr>modified := modified a @ [p]\<rparr>)"
  using assms by (simp add: unlink_def Let_def)

theorem move_to_self_deletes_witness:
  "\<exists>u. deriveNewContentsFromChunks [js ''f'' \<mapsto> js ''x''] (js ''f'') [] = Inr u \<and>
    apply_hunk (UpdateFile (js ''f'') (Some (js ''f'')) []) [js ''f'' \<mapsto> js ''x'']
      \<lparr>added = [], modified = [], deleted = []\<rparr> =
    Inr (([js ''f'' \<mapsto> js ''x''])(js ''f'' := None), \<lparr>added = [], modified = [js ''f''], deleted = []\<rparr>)"
proof -
  have "deriveNewContentsFromChunks [js ''f'' \<mapsto> js ''x''] (js ''f'') [] =
      Inr \<lparr>unified_diff = [], new_content = [120, 10], has_bom = False\<rparr>"
    by code_simp
  then obtain u where h: "deriveNewContentsFromChunks [js ''f'' \<mapsto> js ''x''] (js ''f'') [] = Inr u" by blast
  show ?thesis using h move_to_self_deletes [OF h, of "\<lparr>added = [], modified = [], deleted = []\<rparr>"] by simp
qed

end
