(* ===== verification/Edit.thy ===== *)
theory Edit
  imports Patch Complex_Main
begin

text \<open>
  The text replacement of the edit tool, \<open>tool/edit.ts\<close>: line endings, the Levenshtein
  distance, the nine replacers that propose the text to replace, \<open>trimDiff\<close>, and
  \<open>replace\<close>, which takes the first proposal that occurs exactly once.

  A replacer is a generator; its yields are a list here. Only \<open>MultiOccurrenceReplacer\<close> can
  yield without end (for an empty search text), so its consumption is a \<open>partial_function\<close> in
  the option type and \<open>replace\<close> returns \<open>None\<close> when the source does not return. Similarities
  are exact rationals where the source uses doubles.
\<close>

section \<open>Line endings\<close>

abbreviation cr :: nat where "cr \<equiv> 13"

fun normalizeLineEndings :: "jstring \<Rightarrow> jstring" where
  "normalizeLineEndings (a # b # s) =
     (if a = cr \<and> b = newline then newline # normalizeLineEndings s else a # normalizeLineEndings (b # s))"
| "normalizeLineEndings s = s"

fun str_includes :: "jstring \<Rightarrow> jstring \<Rightarrow> bool" where
  "str_includes [] f = (f = [])"
| "str_includes (c # cs) f = (startsWith (c # cs) f \<or> str_includes cs f)"

datatype line_ending = LF | CRLF

definition detectLineEnding :: "jstring \<Rightarrow> line_ending" where
  "detectLineEnding t = (if str_includes t [cr, newline] then CRLF else LF)"

definition convertToLineEnding :: "jstring \<Rightarrow> line_ending \<Rightarrow> jstring" where
  "convertToLineEnding t ending =
     (case ending of LF \<Rightarrow> t
      | CRLF \<Rightarrow> concat (map (\<lambda>c. if c = newline then [cr, newline] else [c]) t))"

section \<open>Levenshtein distance\<close>

text \<open>One row of the matrix from the row above; \<open>left\<close> is the cell to the left.\<close>

fun lev_cells :: "nat \<Rightarrow> nat list \<Rightarrow> jstring \<Rightarrow> nat \<Rightarrow> nat list" where
  "lev_cells c (p0 # p1 # ps) (x # xs) left =
     (let v = min (min (p1 + 1) (left + 1)) (p0 + (if c = x then 0 else 1))
      in v # lev_cells c (p1 # ps) xs v)"
| "lev_cells c ps xs left = []"

fun lev_rows :: "jstring \<Rightarrow> jstring \<Rightarrow> nat \<Rightarrow> nat list \<Rightarrow> nat list" where
  "lev_rows [] b i row = row"
| "lev_rows (c # a) b i row = lev_rows a b (Suc i) (Suc i # lev_cells c row b (Suc i))"

definition levenshtein :: "jstring \<Rightarrow> jstring \<Rightarrow> nat" where
  "levenshtein a b =
     (if a = [] \<or> b = [] then max (length a) (length b)
      else last (lev_rows a b 0 [0..<Suc (length b)]))"

section \<open>Replacers\<close>

definition substring :: "nat \<Rightarrow> nat \<Rightarrow> jstring \<Rightarrow> jstring" where
  "substring a b s = take (b - a) (drop a s)"

definition SimpleReplacer :: "jstring \<Rightarrow> jstring \<Rightarrow> jstring list" where
  "SimpleReplacer content fnd = [fnd]"

definition line_offset :: "jstring list \<Rightarrow> nat \<Rightarrow> nat" where
  "line_offset lines i = sum_list (map (\<lambda>l. length l + 1) (take i lines))"

text \<open>The text of \<open>n\<close> lines from line \<open>i\<close>, cut out of the content by offsets.\<close>

definition block_text :: "jstring \<Rightarrow> jstring list \<Rightarrow> nat \<Rightarrow> nat \<Rightarrow> jstring" where
  "block_text content lines i n =
     (let a = line_offset lines i
      in substring a (a + sum_list (map length (take n (drop i lines))) + (n - 1)) content)"

definition pop_blank :: "jstring list \<Rightarrow> jstring list" where
  "pop_blank ls = (if ls \<noteq> [] \<and> last ls = [] then butlast ls else ls)"

text \<open>The loop \<open>for (i = 0; i <= lines.length - n; i++)\<close>.\<close>

definition starts :: "nat \<Rightarrow> nat \<Rightarrow> nat list" where
  "starts len n = (if n \<le> len then [0..<Suc (len - n)] else [])"

definition LineTrimmedReplacer :: "jstring \<Rightarrow> jstring \<Rightarrow> jstring list" where
  "LineTrimmedReplacer content fnd =
     (let ls = split_on newline content; ss = pop_blank (split_on newline fnd)
      in map (\<lambda>i. block_text content ls i (length ss))
           (filter (\<lambda>i. list_all (\<lambda>j. trim (ls ! (i + j)) = trim (ss ! j)) [0..<length ss])
              (starts (length ls) (length ss))))"

text \<open>Candidate blocks: a first anchor, and the first last-anchor at least two lines below it.\<close>

definition anchor_candidates :: "jstring list \<Rightarrow> jstring \<Rightarrow> jstring \<Rightarrow> (nat \<times> nat) list" where
  "anchor_candidates ls firstLine lastLine =
     concat (map (\<lambda>i. if trim (ls ! i) \<noteq> firstLine then []
                      else case find (\<lambda>j. trim (ls ! j) = lastLine) [i + 2..<length ls] of
                             Some j \<Rightarrow> [(i, j)] | None \<Rightarrow> []) [0..<length ls])"

text \<open>The similarity of two middle lines, \<open>None\<close> when both are blank.\<close>

definition line_similarity :: "jstring \<Rightarrow> jstring \<Rightarrow> rat option" where
  "line_similarity o' s' =
     (let a = trim o'; b = trim s'; maxLen = max (length a) (length b)
      in if maxLen = 0 then None else Some (1 - of_nat (levenshtein a b) / of_nat maxLen))"

definition middle_pairs :: "jstring list \<Rightarrow> jstring list \<Rightarrow> nat \<Rightarrow> nat \<Rightarrow> (jstring \<times> jstring) list" where
  "middle_pairs ls ss startLine actual =
     map (\<lambda>j. (ls ! (startLine + j), ss ! j)) [1..<min (length ss) actual - 1]"

text \<open>With one candidate the loop stops as soon as the threshold 0.0 is reached.\<close>

fun single_similarity :: "(jstring \<times> jstring) list \<Rightarrow> nat \<Rightarrow> rat \<Rightarrow> rat" where
  "single_similarity [] n sim = sim"
| "single_similarity ((o', s') # ps) n sim =
     (case line_similarity o' s' of
        None \<Rightarrow> single_similarity ps n sim
      | Some v \<Rightarrow> (let sim' = sim + v / of_nat n in if sim' \<ge> 0 then sim' else single_similarity ps n sim'))"

definition average_similarity :: "(jstring \<times> jstring) list \<Rightarrow> nat \<Rightarrow> rat" where
  "average_similarity ps n = sum_list (List.map_filter (\<lambda>(o', s'). line_similarity o' s') ps) / of_nat n"

definition candidate_similarity ::
  "((jstring \<times> jstring) list \<Rightarrow> nat \<Rightarrow> rat) \<Rightarrow> jstring list \<Rightarrow> jstring list \<Rightarrow> nat \<times> nat \<Rightarrow> rat" where
  "candidate_similarity sim ls ss c =
     (let actual = snd c - fst c + 1; linesToCheck = min (length ss - 2) (actual - 2)
      in if linesToCheck > 0 then sim (middle_pairs ls ss (fst c) actual) linesToCheck else 1)"

fun best_candidate ::
  "((nat \<times> nat) \<Rightarrow> rat) \<Rightarrow> (nat \<times> nat) list \<Rightarrow> rat \<Rightarrow> (nat \<times> nat) option \<Rightarrow> rat \<times> (nat \<times> nat) option" where
  "best_candidate f [] mx best = (mx, best)"
| "best_candidate f (c # cs) mx best =
     (if f c > mx then best_candidate f cs (f c) (Some c) else best_candidate f cs mx best)"

definition BlockAnchorReplacer :: "jstring \<Rightarrow> jstring \<Rightarrow> jstring list" where
  "BlockAnchorReplacer content fnd =
     (let ls = split_on newline content; ss0 = split_on newline fnd
      in if length ss0 < 3 then []
         else let ss = pop_blank ss0;
                  cands = anchor_candidates ls (trim (hd ss)) (trim (last ss));
                  out = (\<lambda>c. block_text content ls (fst c) (snd c - fst c + 1))
              in case cands of
                   [] \<Rightarrow> []
                 | [c] \<Rightarrow> if candidate_similarity (\<lambda>ps n. single_similarity ps n 0) ls ss c \<ge> 0 then [out c] else []
                 | _ \<Rightarrow> (case best_candidate (candidate_similarity average_similarity ls ss) cands (-1) None of
                           (mx, Some c) \<Rightarrow> if mx \<ge> 3 / 10 then [out c] else []
                         | (mx, None) \<Rightarrow> []))"

text \<open>\<open>text.replace(/\s+/g, " ")\<close>.\<close>

fun collapse_ws :: "bool \<Rightarrow> jstring \<Rightarrow> jstring" where
  "collapse_ws in_ws [] = []"
| "collapse_ws in_ws (c # cs) =
     (if is_space c then (if in_ws then collapse_ws True cs else 32 # collapse_ws True cs)
      else c # collapse_ws False cs)"

definition normalizeWhitespace :: "jstring \<Rightarrow> jstring" where
  "normalizeWhitespace t = trim (collapse_ws False t)"

text \<open>
  The regular expression \<open>w1\s+w2\s+...\<close> at the start of a text: the words are literal, and as
  a word starts with a non-space each gap takes the whole run of spaces. The result is the matched
  text.
\<close>

fun match_words :: "jstring list \<Rightarrow> jstring \<Rightarrow> jstring option" where
  "match_words [] s = Some []"
| "match_words [w] s = (if startsWith s w then Some w else None)"
| "match_words (w # v # ws) s =
     (if \<not> startsWith s w then None
      else let r = drop (length w) s; gap = takeWhile is_space r
           in if gap = [] then None
              else map_option (\<lambda>m. w @ gap @ m) (match_words (v # ws) (dropWhile is_space r)))"

fun search_words :: "jstring list \<Rightarrow> jstring \<Rightarrow> jstring option" where
  "search_words ws [] = match_words ws []"
| "search_words ws (c # cs) =
     (case match_words ws (c # cs) of Some m \<Rightarrow> Some m | None \<Rightarrow> search_words ws cs)"

definition windows :: "nat \<Rightarrow> jstring list \<Rightarrow> jstring list" where
  "windows n ls = map (\<lambda>i. join [newline] (take n (drop i ls))) (starts (length ls) n)"

definition WhitespaceNormalizedReplacer :: "jstring \<Rightarrow> jstring \<Rightarrow> jstring list" where
  "WhitespaceNormalizedReplacer content fnd =
     (let nf = normalizeWhitespace fnd; ls = split_on newline content; fl = split_on newline fnd
      in concat (map (\<lambda>line.
            if normalizeWhitespace line = nf then [line]
            else if str_includes (normalizeWhitespace line) nf then
              (case search_words (split_ws (trim fnd)) line of Some m \<Rightarrow> [m] | None \<Rightarrow> [])
            else []) ls) @
         (if length fl > 1 then filter (\<lambda>b. normalizeWhitespace b = nf) (windows (length fl) ls) else []))"

definition removeIndentation :: "jstring \<Rightarrow> jstring" where
  "removeIndentation t =
     (let ls = split_on newline t; ne = filter (\<lambda>l. trim l \<noteq> []) ls
      in if ne = [] then t
         else let m = Min (set (map (\<lambda>l. length (takeWhile is_space l)) ne))
              in join [newline] (map (\<lambda>l. if trim l = [] then l else drop m l) ls))"

definition IndentationFlexibleReplacer :: "jstring \<Rightarrow> jstring \<Rightarrow> jstring list" where
  "IndentationFlexibleReplacer content fnd =
     filter (\<lambda>b. removeIndentation b = removeIndentation fnd)
       (windows (length (split_on newline fnd)) (split_on newline content))"

definition unescape_unit :: "nat \<Rightarrow> nat option" where
  "unescape_unit c =
     (if c = 110 then Some 10 else if c = 116 then Some 9 else if c = 114 then Some 13
      else if c \<in> {39, 34, 96, 92, 10, 36} then Some c else None)"

fun unescapeString :: "jstring \<Rightarrow> jstring" where
  "unescapeString (a # b # s) =
     (if a = 92 then (case unescape_unit b of Some u \<Rightarrow> u # unescapeString s | None \<Rightarrow> a # unescapeString (b # s))
      else a # unescapeString (b # s))"
| "unescapeString s = s"

definition EscapeNormalizedReplacer :: "jstring \<Rightarrow> jstring \<Rightarrow> jstring list" where
  "EscapeNormalizedReplacer content fnd =
     (let u = unescapeString fnd
      in (if str_includes content u then [u] else []) @
         filter (\<lambda>b. unescapeString b = u)
           (windows (length (split_on newline u)) (split_on newline content)))"

definition TrimmedBoundaryReplacer :: "jstring \<Rightarrow> jstring \<Rightarrow> jstring list" where
  "TrimmedBoundaryReplacer content fnd =
     (let t = trim fnd
      in if t = fnd then []
         else (if str_includes content t then [t] else []) @
              filter (\<lambda>b. trim b = t) (windows (length (split_on newline fnd)) (split_on newline content)))"

definition context_similar :: "jstring list \<Rightarrow> jstring list \<Rightarrow> bool" where
  "context_similar bl fl =
     (let pairs = map (\<lambda>k. (trim (bl ! k), trim (fl ! k))) [1..<length bl - 1];
          total = filter (\<lambda>(b, f). b \<noteq> [] \<or> f \<noteq> []) pairs;
          same = filter (\<lambda>(b, f). b = f) total
      in total = [] \<or> 2 * length same \<ge> length total)"

definition ContextAwareReplacer :: "jstring \<Rightarrow> jstring \<Rightarrow> jstring list" where
  "ContextAwareReplacer content fnd =
     (let fl0 = split_on newline fnd
      in if length fl0 < 3 then []
         else let fl = pop_blank fl0; ls = split_on newline content
              in concat (map (\<lambda>(i, j).
                    let bl = take (j - i + 1) (drop i ls)
                    in if length bl = length fl \<and> context_similar bl fl then [join [newline] bl] else [])
                  (anchor_candidates ls (trim (hd fl)) (trim (last fl)))))"

section \<open>trimDiff\<close>

definition is_content_line :: "jstring \<Rightarrow> bool" where
  "is_content_line l \<longleftrightarrow>
     (startsWith l (js ''+'') \<or> startsWith l (js ''-'') \<or> startsWith l (js '' '')) \<and>
     \<not> startsWith l (js ''---'') \<and> \<not> startsWith l (js ''+++'')"

definition trimDiff :: "jstring \<Rightarrow> jstring" where
  "trimDiff diff =
     (let ls = split_on newline diff; cl = filter is_content_line ls;
          indents = map (\<lambda>l. length (takeWhile is_space (drop 1 l))) (filter (\<lambda>l. trim (drop 1 l) \<noteq> []) cl)
      in if indents = [] then diff
         else let m = Min (set indents)
              in if m = 0 then diff
                 else join [newline] (map (\<lambda>l. if is_content_line l then take 1 l @ drop m (drop 1 l) else l) ls))"

section \<open>replace\<close>

definition occurrences :: "jstring \<Rightarrow> jstring \<Rightarrow> nat list" where
  "occurrences content search = filter (\<lambda>i. startsWith (drop i content) search) [0..<Suc (length content)]"

definition indexOf :: "jstring \<Rightarrow> jstring \<Rightarrow> nat \<Rightarrow> nat option" where
  "indexOf content search from = find (\<lambda>i. from \<le> i) (occurrences content search)"

definition lastIndexOf :: "jstring \<Rightarrow> jstring \<Rightarrow> nat option" where
  "lastIndexOf content search =
     (case occurrences content search of [] \<Rightarrow> None | is' \<Rightarrow> Some (last is'))"

text \<open>
  \<open>String.prototype.replaceAll\<close> with a string replacement expands the language's
  replacement patterns: \<open>$$\<close>, \<open>$&\<close>, and the text before and after the match.
\<close>

fun get_substitution :: "jstring \<Rightarrow> jstring \<Rightarrow> jstring \<Rightarrow> jstring \<Rightarrow> jstring" where
  "get_substitution matched before after (a # b # s) =
     (if a = 36 \<and> b = 36 then 36 # get_substitution matched before after s
      else if a = 36 \<and> b = 38 then matched @ get_substitution matched before after s
      else if a = 36 \<and> b = 96 then before @ get_substitution matched before after s
      else if a = 36 \<and> b = 39 then after @ get_substitution matched before after s
      else a # get_substitution matched before after (b # s))"
| "get_substitution matched before after s = s"

function replace_all_from :: "jstring \<Rightarrow> jstring \<Rightarrow> jstring \<Rightarrow> jstring \<Rightarrow> jstring" where
  "replace_all_from search new before rest =
     (if search \<noteq> [] \<and> startsWith rest search then
        get_substitution search before (drop (length search) rest) new @
        replace_all_from search new (before @ search) (drop (length search) rest)
      else (if search = [] then get_substitution [] before rest new else []) @
           (case rest of [] \<Rightarrow> [] | c # cs \<Rightarrow> c # replace_all_from search new (before @ [c]) cs))"
  by pat_completeness auto
termination
  by (relation "measure (\<lambda>(search, new, before, rest). length rest)")
     (auto simp: startsWith_prefix)

declare replace_all_from.simps [simp del]

definition replaceAll :: "jstring \<Rightarrow> jstring \<Rightarrow> jstring \<Rightarrow> jstring" where
  "replaceAll content search new = replace_all_from search new [] content"

datatype edit_error = IdenticalStrings | NotFound | MultipleMatches

text \<open>What one proposal does: \<open>Inl\<close> whether it occurs at all, \<open>Inr\<close> the result.\<close>

definition try_search :: "jstring \<Rightarrow> jstring \<Rightarrow> bool \<Rightarrow> jstring \<Rightarrow> bool + jstring" where
  "try_search content new all search =
     (case indexOf content search 0 of
        None \<Rightarrow> Inl False
      | Some index \<Rightarrow>
          if all then Inr (replaceAll content search new)
          else if Some index \<noteq> lastIndexOf content search then Inl True
          else Inr (take index content @ new @ drop (index + length search) content))"

fun try_all :: "jstring \<Rightarrow> jstring \<Rightarrow> bool \<Rightarrow> jstring list \<Rightarrow> bool \<Rightarrow> bool + jstring" where
  "try_all content new all [] seen = Inl seen"
| "try_all content new all (s # ss) seen =
     (case try_search content new all s of
        Inr r \<Rightarrow> Inr r
      | Inl b \<Rightarrow> try_all content new all ss (seen \<or> b))"

partial_function (option) try_multi ::
  "jstring \<Rightarrow> jstring \<Rightarrow> jstring \<Rightarrow> bool \<Rightarrow> nat \<Rightarrow> bool \<Rightarrow> (bool + jstring) option" where
  "try_multi content fnd new all start seen =
     (case indexOf content fnd start of
        None \<Rightarrow> Some (Inl seen)
      | Some index \<Rightarrow>
          (case try_search content new all fnd of
             Inr r \<Rightarrow> Some (Inr r)
           | Inl b \<Rightarrow> try_multi content fnd new all (index + length fnd) (seen \<or> b)))"

definition finite_replacers :: "(jstring \<Rightarrow> jstring \<Rightarrow> jstring list) list" where
  "finite_replacers = [SimpleReplacer, LineTrimmedReplacer, BlockAnchorReplacer,
     WhitespaceNormalizedReplacer, IndentationFlexibleReplacer, EscapeNormalizedReplacer,
     TrimmedBoundaryReplacer, ContextAwareReplacer]"

definition proposals :: "jstring \<Rightarrow> jstring \<Rightarrow> jstring list" where
  "proposals content fnd = concat (map (\<lambda>r. r content fnd) finite_replacers)"

definition replace :: "jstring \<Rightarrow> jstring \<Rightarrow> jstring \<Rightarrow> bool \<Rightarrow> (edit_error + jstring) option" where
  "replace content oldString newString all =
     (if oldString = newString then Some (Inl IdenticalStrings)
      else case try_all content newString all (proposals content oldString) False of
             Inr r \<Rightarrow> Some (Inr r)
           | Inl seen \<Rightarrow>
               map_option (\<lambda>x. case x of Inr r \<Rightarrow> Inr r
                                 | Inl True \<Rightarrow> Inl MultipleMatches | Inl False \<Rightarrow> Inl NotFound)
                 (try_multi content oldString newString all 0 seen))"

text \<open>The part of the tool's \<open>execute\<close> between reading the file and asking for permission.\<close>

definition edit_next :: "jstring \<Rightarrow> jstring \<Rightarrow> jstring \<Rightarrow> bool \<Rightarrow> (edit_error + (bool \<times> jstring)) option" where
  "edit_next raw oldString newString all =
     (let (bom, contentOld) = bom_split raw; ending = detectLineEnding contentOld;
          old = convertToLineEnding (normalizeLineEndings oldString) ending;
          new = convertToLineEnding (normalizeLineEndings newString) ending
      in map_option (map_sum id (\<lambda>t. (bom \<or> fst (bom_split t), snd (bom_split t))))
           (replace contentOld old new all))"

section \<open>The distance is the least number of edits\<close>

text \<open>The number of single-unit edits, as a recursion on both texts.\<close>

fun edit_distance :: "jstring \<Rightarrow> jstring \<Rightarrow> nat" where
  "edit_distance [] b = length b"
| "edit_distance a [] = length a"
| "edit_distance (x # a) (y # b) =
     min (min (edit_distance a (y # b) + 1) (edit_distance (x # a) b + 1))
         (edit_distance a b + (if x = y then 0 else 1))"

inductive edit_once :: "jstring \<Rightarrow> jstring \<Rightarrow> bool" where
  insert_unit: "edit_once (u @ v) (u @ x # v)"
| delete_unit: "edit_once (u @ x # v) (u @ v)"
| change_unit: "edit_once (u @ x # v) (u @ y # v)"

lemma edit_once_Cons: "edit_once a b \<Longrightarrow> edit_once (x # a) (x # b)"
  by (induction rule: edit_once.induct)
     (metis append_Cons edit_once.intros)+

lemma edit_once_rev: "edit_once a b \<Longrightarrow> edit_once (rev a) (rev b)"
  by (induction rule: edit_once.induct)
     (metis append_Cons append_Nil append_assoc edit_once.intros rev.simps(2) rev_append)+

lemma edits_Cons: "(edit_once ^^ n) a b \<Longrightarrow> (edit_once ^^ n) (x # a) (x # b)"
  by (induction n arbitrary: b) (auto simp: relcompp_apply dest: edit_once_Cons)

lemma edits_rev: "(edit_once ^^ n) a b \<Longrightarrow> (edit_once ^^ n) (rev a) (rev b)"
  by (induction n arbitrary: b) (auto simp: relcompp_apply dest: edit_once_rev)

lemma edit_once_Cons_left: "edit_once (x # a) a"
  using delete_unit [of "[]" x a] by simp

lemma edit_once_Cons_right: "edit_once b (y # b)"
  using insert_unit [of "[]" b y] by simp

lemma edit_once_change_head: "edit_once (x # a) (y # a)"
  using change_unit [of "[]" x a y] by simp

lemma edit_distance_Nil [simp]: "edit_distance a [] = length a"
  by (cases a) auto

lemma edit_distance_insert_left: "edit_distance (x # a) b \<le> Suc (edit_distance a b)"
  by (cases b) auto

lemma edit_distance_insert_right: "edit_distance a (x # b) \<le> Suc (edit_distance a b)"
  by (cases a) auto

lemma edit_distance_diag: "edit_distance (x # a) (y # b) \<le> Suc (edit_distance a b)"
  by auto

lemma edit_distance_delete_right: "edit_distance a b \<le> Suc (edit_distance a (x # b))"
proof (induction a)
  case (Cons y a)
  have "edit_distance (y # a) b \<le> Suc (edit_distance a b)"
    by (rule edit_distance_insert_left)
  with Cons show ?case by simp
qed simp

lemma edit_distance_change_right: "edit_distance a (x # b) \<le> Suc (edit_distance a (y # b))"
proof (induction a)
  case (Cons w a)
  have "edit_distance (w # a) (y # b) \<in> {Suc (edit_distance a (y # b)), Suc (edit_distance (w # a) b),
      edit_distance a b, Suc (edit_distance a b)}"
    by (auto simp: min_def)
  moreover have "edit_distance (w # a) (x # b) \<le> Suc (edit_distance a (x # b))"
    "edit_distance (w # a) (x # b) \<le> Suc (edit_distance (w # a) b)"
    "edit_distance (w # a) (x # b) \<le> Suc (edit_distance a b)"
    by (auto simp: min_def)
  ultimately show ?case using Cons by (auto simp del: edit_distance.simps)
qed simp

lemma edit_distance_context:
  "(\<And>a. edit_distance a c \<le> Suc (edit_distance a b)) \<Longrightarrow> edit_distance a (z # c) \<le> Suc (edit_distance a (z # b))"
proof (induction a)
  case Nil
  then show ?case using Nil [of "[]"] by simp
next
  case (Cons y a)
  show ?case
    using Cons.IH [OF Cons.prems] Cons.prems [of "y # a"] Cons.prems [of a]
    by simp
qed

lemma edit_distance_contexts:
  "(\<And>a. edit_distance a c \<le> Suc (edit_distance a b)) \<Longrightarrow> edit_distance a (u @ c) \<le> Suc (edit_distance a (u @ b))"
  by (induction u arbitrary: a) (auto intro: edit_distance_context)

lemma edit_distance_once: "edit_once b c \<Longrightarrow> edit_distance a c \<le> Suc (edit_distance a b)"
  by (induction rule: edit_once.induct)
     (rule edit_distance_contexts edit_distance_insert_right edit_distance_delete_right
        edit_distance_change_right)+

lemma edit_distance_refl: "edit_distance a a = 0"
  by (induction a) auto

lemma edit_distance_least: "(edit_once ^^ n) a b \<Longrightarrow> edit_distance a b \<le> n"
proof (induction n arbitrary: b)
  case 0
  then show ?case by (simp add: edit_distance_refl)
next
  case (Suc n)
  then obtain c where "(edit_once ^^ n) a c" "edit_once c b" by (auto simp: relcompp_apply)
  with Suc.IH [of c] edit_distance_once [of c b a] show ?case by simp
qed

lemma edits_insert_all: "(edit_once ^^ length b) [] b"
  by (induction b) (auto simp: relcompp_apply intro: edit_once_Cons_right)

lemma edits_delete_all: "(edit_once ^^ length a) a []"
proof (induction a)
  case (Cons x a)
  then show ?case
    using relpowp_Suc_I2 [of edit_once "x # a" a "length a" "[]"] edit_once_Cons_left by auto
qed simp

lemma edits_distance: "(edit_once ^^ edit_distance a b) a b"
proof (induction a b rule: edit_distance.induct)
  case (1 b)
  show ?case by (simp add: edits_insert_all)
next
  case (2 x a)
  show ?case using edits_delete_all [of "x # a"] by simp
next
  case (3 x a y b)
  let ?l = "edit_distance a (y # b)" and ?u = "edit_distance (x # a) b" and ?d = "edit_distance a b"
  have l: "(edit_once ^^ Suc ?l) (x # a) (y # b)"
    using relpowp_Suc_I2 edit_once_Cons_left "3.IH"(1) by metis
  have u: "(edit_once ^^ Suc ?u) (x # a) (y # b)"
    using relpowp_Suc_I edit_once_Cons_right "3.IH"(2) by metis
  have d: "(edit_once ^^ (?d + (if x = y then 0 else 1))) (x # a) (y # b)"
    using edits_Cons [OF "3.IH"(3), of y] relpowp_Suc_I2 [of edit_once "x # a" "y # a" ?d "y # b"] edit_once_change_head [of x a y]
    by auto
  show ?case
    using l u d by (auto simp: min_def)
qed

lemma edit_distance_rev: "edit_distance (rev a) (rev b) = edit_distance a b"
proof (rule antisym)
  show "edit_distance (rev a) (rev b) \<le> edit_distance a b"
    by (rule edit_distance_least [OF edits_rev [OF edits_distance]])
  show "edit_distance a b \<le> edit_distance (rev a) (rev b)"
    using edit_distance_least [OF edits_rev [OF edits_distance [of "rev a" "rev b"]]] by simp
qed

text \<open>A cell of the matrix is the distance of two prefixes.\<close>

definition lev_cell :: "jstring \<Rightarrow> jstring \<Rightarrow> nat \<Rightarrow> nat" where
  "lev_cell a b j = edit_distance (rev a) (rev (take j b))"

lemma lev_cell_step:
  "j < length b \<Longrightarrow>
   lev_cell (a @ [c]) b (Suc j) =
     min (min (lev_cell a b (Suc j) + 1) (lev_cell (a @ [c]) b j + 1))
         (lev_cell a b j + (if c = b ! j then 0 else 1))"
  by (simp add: lev_cell_def take_Suc_conv_app_nth)

lemma lev_cells_row:
  "j \<le> length b \<Longrightarrow>
   lev_cells c (map (lev_cell a b) [j..<Suc (length b)]) (drop j b) (lev_cell (a @ [c]) b j) =
   map (lev_cell (a @ [c]) b) [Suc j..<Suc (length b)]"
proof (induction "length b - j" arbitrary: j)
  case 0
  then show ?case by simp
next
  case (Suc k)
  then have j: "j < length b" by simp
  then have up: "[j..<Suc (length b)] = j # Suc j # [Suc (Suc j)..<Suc (length b)]"
    "[Suc j..<Suc (length b)] = Suc j # [Suc (Suc j)..<Suc (length b)]"
    by (simp_all add: upt_conv_Cons)
  from Suc.hyps(1) [of "Suc j"] Suc.hyps(2) j
  have "lev_cells c (map (lev_cell a b) [Suc j..<Suc (length b)]) (drop (Suc j) b) (lev_cell (a @ [c]) b (Suc j)) =
    map (lev_cell (a @ [c]) b) [Suc (Suc j)..<Suc (length b)]" by simp
  then show ?case
    unfolding up Cons_nth_drop_Suc [OF j, symmetric]
    by (simp add: Let_def lev_cell_step [OF j] del: upt_Suc)
qed

lemma lev_rows_matrix:
  "lev_rows a b (length a0) (map (lev_cell a0 b) [0..<Suc (length b)]) =
   map (lev_cell (a0 @ a) b) [0..<Suc (length b)]"
proof (induction a arbitrary: a0)
  case (Cons c a)
  have "Suc (length a0) # lev_cells c (map (lev_cell a0 b) [0..<Suc (length b)]) b (Suc (length a0)) =
    map (lev_cell (a0 @ [c]) b) [0..<Suc (length b)]"
    using lev_cells_row [of 0 b c a0]
    by (simp add: upt_conv_Cons lev_cell_def del: upt_Suc)
  then show ?case using Cons [of "a0 @ [c]"] by (simp del: upt_Suc)
qed simp

lemma levenshtein_distance: "levenshtein a b = edit_distance a b"
proof (cases "a = [] \<or> b = []")
  case True
  then show ?thesis by (auto simp: levenshtein_def)
next
  case False
  have "map (lev_cell [] b) [0..<Suc (length b)] = [0..<Suc (length b)]"
    by (rule nth_equalityI) (auto simp: lev_cell_def simp del: upt_Suc)
  then have "lev_rows a b 0 [0..<Suc (length b)] = map (lev_cell a b) [0..<Suc (length b)]"
    using lev_rows_matrix [of a b "[]"] by simp
  then show ?thesis
    using False by (simp add: levenshtein_def lev_cell_def edit_distance_rev)
qed

text \<open>
  \<open>levenshtein\<close> computes the least number of single-unit insertions, deletions and changes
  that turn one text into the other, and that many edits do turn one into the other.
\<close>

theorem levenshtein_least_edits:
  "levenshtein a b = (LEAST n. (edit_once ^^ n) a b) \<and> (edit_once ^^ levenshtein a b) a b"
  unfolding levenshtein_distance
  using edits_distance [of a b] edit_distance_least [of _ a b]
  by (metis (no_types, lifting) Least_equality)

lemma levenshtein_bound: "levenshtein a b \<le> max (length a) (length b)"
proof -
  have "edit_distance a b \<le> max (length a) (length b)"
    by (induction a b rule: edit_distance.induct) auto
  then show ?thesis by (simp add: levenshtein_distance)
qed

section \<open>What replace does\<close>

definition splits_at :: "jstring \<Rightarrow> jstring \<Rightarrow> jstring \<Rightarrow> bool" where
  "splits_at content s pre \<longleftrightarrow> (\<exists>post. content = pre @ s @ post)"

text \<open>The reference: which proposal is taken and what the result is.\<close>

definition accepts :: "jstring \<Rightarrow> bool \<Rightarrow> jstring \<Rightarrow> bool" where
  "accepts content all s \<longleftrightarrow> (if all then occurrences content s \<noteq> [] else length (occurrences content s) = 1)"

definition spliced :: "jstring \<Rightarrow> jstring \<Rightarrow> bool \<Rightarrow> jstring \<Rightarrow> jstring" where
  "spliced content new all s =
     (if all then replaceAll content s new
      else let i = hd (occurrences content s) in take i content @ new @ drop (i + length s) content)"

definition replace_spec :: "jstring \<Rightarrow> jstring \<Rightarrow> jstring \<Rightarrow> bool \<Rightarrow> edit_error + jstring" where
  "replace_spec content old new all =
     (if old = new then Inl IdenticalStrings
      else case find (accepts content all) (proposals content old) of
             Some s \<Rightarrow> Inr (spliced content new all s)
           | None \<Rightarrow> Inl (if list_ex (\<lambda>s. occurrences content s \<noteq> []) (proposals content old)
                          then MultipleMatches else NotFound))"

lemma set_occurrences:
  "i \<in> set (occurrences content s) \<longleftrightarrow> i \<le> length content \<and> (\<exists>post. drop i content = s @ post)"
  by (auto simp: occurrences_def startsWith_prefix simp del: upt_Suc)

lemma occurrences_pre:
  "i \<in> set (occurrences content s) \<longleftrightarrow> i \<le> length content \<and> splits_at content s (take i content)"
  unfolding set_occurrences splits_at_def by (metis append_take_drop_id append_eq_conv_conj length_take min.absorb2)

lemma splits_at_occurrences: "splits_at content s pre \<Longrightarrow> length pre \<in> set (occurrences content s) \<and> pre = take (length pre) content"
  by (auto simp: set_occurrences splits_at_def)

lemma sorted_occurrences: "sorted (occurrences content s)" "distinct (occurrences content s)"
  by (simp_all add: occurrences_def sorted_wrt_filter del: upt_Suc)

lemma indexOf_0: "indexOf content s 0 = (case occurrences content s of [] \<Rightarrow> None | i # _ \<Rightarrow> Some i)"
  by (auto simp: indexOf_def split: list.split)

lemma try_search_spec:
  "try_search content new all s =
     (if accepts content all s then Inr (spliced content new all s) else Inl (occurrences content s \<noteq> []))"
proof (cases "occurrences content s")
  case Nil
  then show ?thesis by (simp add: try_search_def indexOf_0 accepts_def)
next
  case (Cons i os)
  have "i = last (i # os) \<longleftrightarrow> os = []"
    using sorted_occurrences(2) [of content s] Cons by (auto simp: last_in_set)
  then show ?thesis
    using Cons by (auto simp: try_search_def indexOf_0 lastIndexOf_def accepts_def spliced_def Let_def)
qed

lemma try_all_spec:
  "try_all content new all ss seen =
     (case find (accepts content all) ss of
        Some s \<Rightarrow> Inr (spliced content new all s)
      | None \<Rightarrow> Inl (seen \<or> list_ex (\<lambda>s. occurrences content s \<noteq> []) ss))"
  by (induction ss arbitrary: seen) (auto simp: try_search_spec list_ex_iff split: option.split)

lemma indexOf_from:
  "indexOf content s n = Some i \<Longrightarrow> n \<le> i \<and> i \<in> set (occurrences content s)"
  by (auto simp: indexOf_def find_Some_iff)

lemma occurrences_bound: "s \<noteq> [] \<Longrightarrow> i \<in> set (occurrences content s) \<Longrightarrow> i < length content"
  by (metis append_is_Nil_conv drop_all le_neq_implies_less order_refl set_occurrences)

text \<open>For a non-empty search text the repeated search ends, and adds nothing when the text was refused.\<close>

lemma try_multi_refused:
  "fnd \<noteq> [] \<Longrightarrow> \<not> accepts content all fnd \<Longrightarrow>
   \<exists>b. try_multi content fnd new all start seen = Some (Inl b) \<and>
       (seen \<longrightarrow> b) \<and> (b \<longrightarrow> seen \<or> occurrences content fnd \<noteq> [])"
proof (induction "length content - start" arbitrary: start seen rule: less_induct)
  case less
  show ?case
  proof (cases "indexOf content fnd start")
    case None
    then show ?thesis by (subst try_multi.simps) auto
  next
    case (Some i)
    then have i: "start \<le> i" "i \<in> set (occurrences content fnd)" using indexOf_from by auto
    with less.prems(1) have "i < length content" using occurrences_bound by blast
    with i less.prems(1) have "length content - (i + length fnd) < length content - start"
      by (cases fnd) auto
    from less.hyps [OF this less.prems, of "seen \<or> occurrences content fnd \<noteq> []"] i
    show ?thesis
      using Some less.prems(2) by (subst try_multi.simps) (auto simp: try_search_spec)
  qed
qed

lemma proposals_simple: "proposals content old = old # tl (proposals content old)"
  by (simp add: proposals_def finite_replacers_def SimpleReplacer_def)

lemma replace_correct: "old \<noteq> [] \<Longrightarrow> replace content old new all = Some (replace_spec content old new all)"
proof -
  assume old: "old \<noteq> []"
  show ?thesis
  proof (cases "find (accepts content all) (proposals content old)")
    case (Some s)
    then show ?thesis by (simp add: replace_def replace_spec_def try_all_spec)
  next
    case None
    let ?seen = "list_ex (\<lambda>s. occurrences content s \<noteq> []) (proposals content old)"
    have na: "\<not> accepts content all old" and occ: "occurrences content old \<noteq> [] \<Longrightarrow> ?seen"
      using None by (subst (asm) proposals_simple, auto split: if_splits)
         (subst proposals_simple, auto)
    from try_multi_refused [OF old na, of new 0 ?seen] occ
    have "try_multi content old new all 0 ?seen = Some (Inl ?seen)" by auto
    then show ?thesis using None by (auto simp: replace_def replace_spec_def try_all_spec)
  qed
qed

lemma accepts_unique:
  "accepts content False s \<longleftrightarrow> (\<exists>!pre. splits_at content s pre)"
proof
  assume "accepts content False s"
  then obtain i where i: "occurrences content s = [i]" by (auto simp: accepts_def length_Suc_conv)
  then have "splits_at content s (take i content)" using occurrences_pre [of i content s] by simp
  moreover have "pre = take i content" if "splits_at content s pre" for pre
    using splits_at_occurrences [OF that] i by auto
  ultimately show "\<exists>!pre. splits_at content s pre" by blast
next
  assume "\<exists>!pre. splits_at content s pre"
  then obtain pre where p: "splits_at content s pre" "\<And>q. splits_at content s q \<Longrightarrow> q = pre" by blast
  have "i = length pre" if "i \<in> set (occurrences content s)" for i
  proof -
    from that have "i \<le> length content" "take i content = pre"
      using occurrences_pre [of i content s] p(2) by blast+
    then show ?thesis by auto
  qed
  then have "set (occurrences content s) = {length pre}"
    using splits_at_occurrences [OF p(1)] by blast
  then have "card (set (occurrences content s)) = 1" by simp
  then show "accepts content False s"
    using distinct_card [OF sorted_occurrences(2) [of content s]] by (simp add: accepts_def)
qed

lemma spliced_unique:
  "content = pre @ s @ post \<Longrightarrow> accepts content False s \<Longrightarrow> spliced content new False s = pre @ new @ post"
proof -
  assume c: "content = pre @ s @ post" and a: "accepts content False s"
  then obtain i where i: "occurrences content s = [i]" by (auto simp: accepts_def length_Suc_conv)
  moreover have "length pre \<in> set (occurrences content s)"
    using c by (auto simp: set_occurrences)
  ultimately show ?thesis using c by (simp add: spliced_def)
qed

lemma accepts_splits: "accepts content False s \<Longrightarrow> \<exists>pre post. content = pre @ s @ post"
  by (auto simp: accepts_unique splits_at_def)

text \<open>
  C5. For a non-empty search text \<open>replace\<close> returns, and its result is the specified one: an
  error for identical texts; otherwise the first proposal of the replacers that occurs (exactly
  once, unless all occurrences are replaced) is substituted; when there is none, \<open>MultipleMatches\<close>
  or \<open>NotFound\<close> according to whether any proposal occurs.
\<close>

theorem replace_refines_spec:
  assumes "old \<noteq> []"
  shows "replace content old new all = Some (replace_spec content old new all)"
  using assms by (rule replace_correct)

theorem replace_refines_spec_witness:
  "replace (js ''a b a'') (js ''a'') (js ''c'') False = Some (Inl MultipleMatches)"
proof -
  have "replace_spec (js ''a b a'') (js ''a'') (js ''c'') False = Inl MultipleMatches" by code_simp
  then show ?thesis using replace_refines_spec [of "js ''a''" "js ''a b a''" "js ''c''" False] by simp
qed

text \<open>
  C6. A successful edit changes one place only: the content splits around a proposal of the
  replacers that occurs nowhere else in it, and the result has the new text in its place.
\<close>

theorem replace_edits_one_place:
  assumes "old \<noteq> []" "replace content old new False = Some (Inr r)"
  shows "\<exists>s \<in> set (proposals content old). \<exists>pre post.
           content = pre @ s @ post \<and> r = pre @ new @ post \<and> (\<exists>!p. splits_at content s p)"
proof -
  from assms obtain s where s: "find (accepts content False) (proposals content old) = Some s"
    "r = spliced content new False s"
    by (auto simp: replace_correct replace_spec_def split: if_splits option.splits)
  then have a: "accepts content False s" "s \<in> set (proposals content old)"
    by (auto simp: find_Some_iff)
  with s(2) accepts_splits spliced_unique show ?thesis by (metis accepts_unique)
qed

theorem replace_edits_one_place_witness:
  "\<exists>s \<in> set (proposals (js ''  foo;'') (js ''foo; '')). \<exists>pre post.
     js ''  foo;'' = pre @ s @ post \<and> js ''bar'' = pre @ js ''bar'' @ post \<and>
     (\<exists>!p. splits_at (js ''  foo;'') s p)"
proof (rule replace_edits_one_place)
  have "replace_spec (js ''  foo;'') (js ''foo; '') (js ''bar'') False = Inr (js ''bar'')" by code_simp
  then show "replace (js ''  foo;'') (js ''foo; '') (js ''bar'') False = Some (Inr (js ''bar''))"
    by (simp add: replace_correct)
qed simp

text \<open>
  When the search text itself occurs exactly once, that occurrence is replaced, whatever the
  other replacers would propose.
\<close>

theorem replace_exact_match:
  assumes "old \<noteq> new" "content = pre @ old @ post" "\<exists>!p. splits_at content old p"
  shows "replace content old new False = Some (Inr (pre @ new @ post))"
proof -
  have a: "accepts content False old" using assms(3) by (simp add: accepts_unique)
  have "try_all content new False (proposals content old) False = Inr (spliced content new False old)"
    by (subst proposals_simple) (simp add: try_search_spec a)
  then show ?thesis using assms(1) spliced_unique [OF assms(2) a] by (simp add: replace_def)
qed

theorem replace_exact_match_witness:
  "replace (js ''a b c'') (js ''b'') (js ''$&'') False = Some (Inr (js ''a $& c''))"
proof -
  have "accepts (js ''a b c'') False (js ''b'')" by code_simp
  then have "\<exists>!p. splits_at (js ''a b c'') (js ''b'') p" by (simp only: accepts_unique)
  moreover have "js ''a b c'' = js ''a '' @ js ''b'' @ js '' c''" by (simp add: js_def)
  ultimately have "replace (js ''a b c'') (js ''b'') (js ''$&'') False =
      Some (Inr (js ''a '' @ js ''$&'' @ js '' c''))"
    by (intro replace_exact_match) simp_all
  then show ?thesis by (simp add: js_def)
qed

section \<open>Replacing all occurrences\<close>

lemma get_substitution_literal: "36 \<notin> set new \<Longrightarrow> get_substitution m b a new = new"
  by (induction m b a new rule: get_substitution.induct) auto

lemma str_includes_startsWith: "startsWith s p \<Longrightarrow> str_includes s p"
  by (cases s) (auto simp: startsWith_prefix)

lemma replace_all_from_parts:
  "36 \<notin> set new \<Longrightarrow> search \<noteq> [] \<Longrightarrow>
   \<exists>p ps. rest = join search (p # ps) \<and> replace_all_from search new before rest = join new (p # ps) \<and>
          list_all (\<lambda>q. \<not> str_includes q search) (p # ps)"
proof (induction search new before rest rule: replace_all_from.induct)
  case (1 search new before rest)
  show ?case
  proof (cases "startsWith rest search")
    case True
    then obtain r where r: "rest = search @ r" by (auto simp: startsWith_prefix)
    from 1 True r obtain p ps where "r = join search (p # ps)"
      "replace_all_from search new (before @ search) r = join new (p # ps)"
      "list_all (\<lambda>q. \<not> str_includes q search) (p # ps)"
      by auto
    moreover have "replace_all_from search new before rest = new @ replace_all_from search new (before @ search) r"
      using True 1(3,4) r by (subst replace_all_from.simps) (simp add: get_substitution_literal)
    moreover have "\<not> str_includes [] search" using 1(4) by simp
    ultimately have "rest = join search ([] # p # ps) \<and> replace_all_from search new before rest = join new ([] # p # ps) \<and>
        list_all (\<lambda>q. \<not> str_includes q search) ([] # p # ps)"
      using r by (simp only: join_Cons list.simps list.pred_inject append_Nil) simp
    then show ?thesis by blast
  next
    case False
    show ?thesis
    proof (cases rest)
      case Nil
      with False 1(4) show ?thesis
        by (intro exI [of _ "[]"] exI) (auto simp: replace_all_from.simps)
    next
      case (Cons c cs)
      from 1(2) [OF _ Cons 1(3,4)] 1(4) False obtain p ps where ps: "cs = join search (p # ps)"
        "replace_all_from search new (before @ [c]) cs = join new (p # ps)"
        "list_all (\<lambda>q. \<not> str_includes q search) (p # ps)"
        by auto
      have "\<not> startsWith (c # p) search"
        using False Cons ps(1) by (cases ps) (auto simp: startsWith_prefix, metis append_Cons append_assoc)
      then show ?thesis
        using Cons ps False 1(4)
        by (intro exI [of _ "c # p"] exI [of _ ps])
           (auto simp: replace_all_from.simps [of search new before "c # u" for u] join_Cons_hd)
    qed
  qed
qed

text \<open>
  With \<open>replaceAll\<close> and a new text free of \<open>$\<close>, every occurrence is replaced: the content is the
  search text between parts in which it does not occur, and the result is the new text between
  the same parts.
\<close>

theorem replaceAll_all_occurrences:
  assumes "36 \<notin> set new" "search \<noteq> []"
  shows "\<exists>ps. content = join search ps \<and> replaceAll content search new = join new ps \<and>
              list_all (\<lambda>p. \<not> str_includes p search) ps"
  using replace_all_from_parts [OF assms, of content "[]"] unfolding replaceAll_def by blast

theorem replaceAll_all_occurrences_witness:
  "\<exists>ps. js ''a,b,c'' = join (js '','') ps \<and> replaceAll (js ''a,b,c'') (js '','') (js ''; '') = join (js ''; '') ps \<and>
        list_all (\<lambda>p. \<not> str_includes p (js '','')) ps"
  by (rule replaceAll_all_occurrences) code_simp+

text \<open>
  With \<open>replaceAll\<close> the new text is not taken literally: \<open>$$\<close> becomes \<open>$\<close>, as the language's
  replacement patterns are expanded, while the same edit without \<open>replaceAll\<close> inserts it as it is.
\<close>

theorem replaceAll_expands_patterns:
  "replace (js ''cost'') (js ''cost'') (js ''$$5'') True = Some (Inr (js ''$5'')) \<and>
   replace (js ''cost'') (js ''cost'') (js ''$$5'') False = Some (Inr (js ''$$5''))"
proof -
  have "replace_spec (js ''cost'') (js ''cost'') (js ''$$5'') True = Inr (js ''$5'')" by code_simp
  moreover have "replace_spec (js ''cost'') (js ''cost'') (js ''$$5'') False = Inr (js ''$$5'')" by code_simp
  ultimately show ?thesis by (simp add: replace_correct)
qed

section \<open>An empty search text\<close>

lemma occurrences_empty: "occurrences content [] = [0..<Suc (length content)]"
  by (simp add: occurrences_def startsWith_prefix del: upt_Suc)

lemma indexOf_empty: "n \<le> length content \<Longrightarrow> indexOf content [] n = Some n"
  by (auto simp: indexOf_def occurrences_empty find_Some_iff simp del: upt_Suc intro: exI [of _ n])

lemma try_multi_empty:
  "try_multi content fnd new all start seen = Some y \<Longrightarrow>
   \<not> (fnd = [] \<and> \<not> all \<and> content \<noteq> [] \<and> start \<le> length content)"
proof (rule try_multi.raw_induct [where P = "\<lambda>content fnd new all start seen y.
    \<not> (fnd = [] \<and> \<not> all \<and> content \<noteq> [] \<and> start \<le> length content)"], goal_cases)
  case (1 f content fnd new all start seen y)
  show ?case
  proof (rule notI)
    assume h: "fnd = [] \<and> \<not> all \<and> content \<noteq> [] \<and> start \<le> length content"
    then have "\<not> accepts content all []" by (auto simp: accepts_def occurrences_empty simp del: upt_Suc)
    with 1(3) h have "f content [] new all start True = Some y"
      by (simp add: indexOf_empty try_search_spec occurrences_empty del: upt_Suc)
    with 1(2) h show False by blast
  qed
qed

text \<open>
  For an empty search text and a non-empty content, when no replacer proposes a unique text,
  \<open>replace\<close> does not return: \<open>MultiOccurrenceReplacer\<close> yields the empty text for ever.
\<close>

theorem replace_empty_diverges:
  assumes "content \<noteq> []" "new \<noteq> []" "find (accepts content False) (proposals content []) = None"
  shows "replace content [] new False = None"
proof -
  have "try_multi content [] new False 0 seen = None" for seen
    using try_multi_empty [of content "[]" new False 0 seen] assms(1) by fastforce
  then show ?thesis using assms by (simp add: replace_def try_all_spec)
qed

theorem replace_empty_diverges_witness:
  "replace (js ''ab'') [] (js ''x'') False = None"
  by (rule replace_empty_diverges) code_simp+

section \<open>Line endings\<close>

lemma normalize_after_cr: "normalizeLineEndings (convertToLineEnding t CRLF) = t"
proof (induction t)
  case Nil
  then show ?case by (simp add: convertToLineEnding_def)
next
  case (Cons c t)
  have conv: "convertToLineEnding (c # t) CRLF =
      (if c = newline then [cr, newline] else [c]) @ convertToLineEnding t CRLF"
    by (simp add: convertToLineEnding_def)
  show ?case
  proof (cases "c = newline")
    case True
    then show ?thesis using Cons unfolding conv by simp
  next
    case False
    have "convertToLineEnding t CRLF = [] \<or> hd (convertToLineEnding t CRLF) \<noteq> newline"
      by (cases t) (auto simp: convertToLineEnding_def)
    moreover have "normalizeLineEndings (c # u) = c # normalizeLineEndings u" if "u = [] \<or> hd u \<noteq> newline" for u
      using that by (cases u) auto
    ultimately show ?thesis using False Cons unfolding conv by simp
  qed
qed

text \<open>
  Normalising line endings undoes the conversion to CRLF on every text, texts that already
  hold carriage returns included.
\<close>

theorem line_ending_roundtrip: "normalizeLineEndings (convertToLineEnding t e) = (if e = CRLF then t else normalizeLineEndings t)"
  by (cases e) (simp_all add: normalize_after_cr, simp add: convertToLineEnding_def)

text \<open>
  In a file with CRLF line endings, an edit that matches a line only up to its surrounding
  spaces takes the carriage return with the line: the result has one bare LF.
\<close>

theorem crlf_lost_by_trimmed_match:
  "detectLineEnding (js ''foo'' @ [cr, newline] @ js ''bar'' @ [cr, newline]) = CRLF \<and>
   edit_next (js ''foo'' @ [cr, newline] @ js ''bar'' @ [cr, newline]) (js ''foo '') (js ''baz'') False =
     Some (Inr (False, js ''baz'' @ [newline] @ js ''bar'' @ [cr, newline]))"
proof -
  let ?raw = "js ''foo'' @ [cr, newline] @ js ''bar'' @ [cr, newline]"
  have "bom_split ?raw = (False, ?raw)" "detectLineEnding ?raw = CRLF"
    "convertToLineEnding (normalizeLineEndings (js ''foo '')) CRLF = js ''foo ''"
    "convertToLineEnding (normalizeLineEndings (js ''baz'')) CRLF = js ''baz''"
    "bom_split (js ''baz'' @ [newline] @ js ''bar'' @ [cr, newline]) = (False, js ''baz'' @ [newline] @ js ''bar'' @ [cr, newline])"
    by code_simp+
  moreover have "replace_spec ?raw (js ''foo '') (js ''baz'') False = Inr (js ''baz'' @ [newline] @ js ''bar'' @ [cr, newline])"
    by code_simp
  ultimately show ?thesis by (simp add: edit_next_def replace_correct del: append.simps)
qed

end
