(* ===== verification/Todo.thy ===== *)
theory Todo
  imports JS_Prelude
begin

text \<open>
  The task list of a session, \<open>session/todo.ts\<close>: status transitions, the read-validate-write
  transaction of \<open>update\<close>, and \<open>get\<close>. The table of the project database is the list of its
  rows; a transaction that throws leaves it as it was. \<open>crypto.randomUUID\<close> is the parameter
  \<open>uuid\<close>, applied to the position of the task it names.
\<close>

section \<open>Data\<close>

record todo_info =
  todo_id :: "jstring option"
  content :: jstring
  status :: jstring
  priority :: jstring

record todo_row =
  row_session :: jstring
  row_id :: "jstring option"
  row_content :: jstring
  row_status :: jstring
  row_priority :: jstring
  row_position :: nat

datatype todo_error =
    InvalidStatus jstring
  | IllegalTransition jstring jstring jstring
  | OutOfOrder jstring jstring
  | DuplicateNew jstring
  | DuplicateTask jstring jstring

datatype todo_event = TodoUpdated jstring "todo_info list"

abbreviation pending_st :: jstring where "pending_st \<equiv> js ''pending''"
abbreviation in_progress_st :: jstring where "in_progress_st \<equiv> js ''in_progress''"
abbreviation completed_st :: jstring where "completed_st \<equiv> js ''completed''"
abbreviation cancelled_st :: jstring where "cancelled_st \<equiv> js ''cancelled''"

definition ALLOWED_STATUSES :: "jstring list" where
  "ALLOWED_STATUSES = [pending_st, in_progress_st, completed_st, cancelled_st]"

definition TERMINAL_STATUSES :: "jstring list" where
  "TERMINAL_STATUSES = [completed_st, cancelled_st]"

definition isValidTransition :: "jstring \<Rightarrow> jstring \<Rightarrow> bool" where
  "isValidTransition from to =
     (if from = to then True
      else if to \<notin> set ALLOWED_STATUSES then False
      else if from \<in> set TERMINAL_STATUSES then False
      else if to = pending_st then False
      else True)"

section \<open>The transaction\<close>

definition session_rows :: "jstring \<Rightarrow> todo_row list \<Rightarrow> todo_row list" where
  "session_rows sid table = sort_key row_position (filter (\<lambda>r. row_session r = sid) table)"

definition row_key :: "todo_row \<Rightarrow> jstring" where
  "row_key r = (case row_id r of Some i \<Rightarrow> i | None \<Rightarrow> row_content r)"

text \<open>\<open>new Map(rows.map(...))\<close>: of two rows with one key the later wins.\<close>

definition prevById :: "todo_row list \<Rightarrow> jstring \<Rightarrow> todo_row option" where
  "prevById rows k = map_of (rev (map (\<lambda>r. (row_key r, r)) rows)) k"

definition prevByContent :: "todo_row list \<Rightarrow> jstring \<Rightarrow> todo_row option" where
  "prevByContent rows k = map_of (rev (map (\<lambda>r. (row_content r, r)) rows)) k"

text \<open>\<open>todo.id || undefined\<close>.\<close>

definition requestedId :: "todo_info \<Rightarrow> jstring option" where
  "requestedId t = (case todo_id t of Some i \<Rightarrow> if i = [] then None else Some i | None \<Rightarrow> None)"

definition matched_row :: "todo_row list \<Rightarrow> todo_info \<Rightarrow> todo_row option" where
  "matched_row rows t =
     (case Option.bind (requestedId t) (prevById rows) of
        Some r \<Rightarrow> Some r
      | None \<Rightarrow> if content t \<noteq> [] then prevByContent rows (content t) else None)"

fun validate :: "todo_row list \<Rightarrow> todo_info list \<Rightarrow> todo_error option" where
  "validate rows [] = None"
| "validate rows (t # ts) =
     (if status t \<notin> set ALLOWED_STATUSES then Some (InvalidStatus (status t))
      else case matched_row rows t of
             Some r \<Rightarrow> if \<not> isValidTransition (row_status r) (status t)
                       then Some (IllegalTransition (content t) (row_status r) (status t))
                       else validate rows ts
           | None \<Rightarrow> validate rows ts)"

definition ordered_todos :: "todo_info list \<Rightarrow> todo_info list" where
  "ordered_todos todos =
     map fst (sort_key snd (filter (\<lambda>(t, position). status t \<noteq> cancelled_st) (zip todos [0..<length todos])))"

definition check_order :: "todo_info list \<Rightarrow> todo_error option" where
  "check_order todos =
     (case dropWhile (\<lambda>t. status t \<noteq> pending_st) (ordered_todos todos) of
        [] \<Rightarrow> None
      | firstPending # later \<Rightarrow>
          map_option (\<lambda>t. OutOfOrder (content t) (content firstPending))
            (find (\<lambda>t. status t = in_progress_st \<or> status t = completed_st) later))"

fun check_new :: "jstring list \<Rightarrow> todo_info list \<Rightarrow> todo_error option" where
  "check_new seen [] = None"
| "check_new seen (t # ts) =
     (if requestedId t = None \<and> content t \<noteq> [] then
        (if content t \<in> set seen then Some (DuplicateNew (content t)) else check_new (content t # seen) ts)
      else check_new seen ts)"

definition resolved_id :: "(nat \<Rightarrow> jstring) \<Rightarrow> todo_row list \<Rightarrow> nat \<Rightarrow> todo_info \<Rightarrow> jstring" where
  "resolved_id uuid rows n t =
     (case Option.bind (Option.bind (requestedId t) (prevById rows)) row_id of
        Some i \<Rightarrow> i
      | None \<Rightarrow>
          (case Option.bind (if content t \<noteq> [] then prevByContent rows (content t) else None) row_id of
             Some i \<Rightarrow> i
           | None \<Rightarrow> (case requestedId t of Some i \<Rightarrow> i | None \<Rightarrow> uuid n)))"

definition resolve_todos :: "(nat \<Rightarrow> jstring) \<Rightarrow> todo_row list \<Rightarrow> todo_info list \<Rightarrow> todo_info list" where
  "resolve_todos uuid rows todos =
     map (\<lambda>(t, n). t\<lparr>todo_id := Some (resolved_id uuid rows n t)\<rparr>) (zip todos [0..<length todos])"

fun check_ids :: "jstring list \<Rightarrow> todo_info list \<Rightarrow> todo_error option" where
  "check_ids seen [] = None"
| "check_ids seen (t # ts) =
     (case todo_id t of
        None \<Rightarrow> check_ids seen ts
      | Some i \<Rightarrow> if i \<in> set seen then Some (DuplicateTask (content t) i) else check_ids (i # seen) ts)"

definition insert_rows :: "jstring \<Rightarrow> todo_info list \<Rightarrow> todo_row list" where
  "insert_rows sid todos =
     map (\<lambda>(t, n). \<lparr>row_session = sid, row_id = todo_id t, row_content = content t,
                     row_status = status t, row_priority = priority t, row_position = n\<rparr>)
       (zip todos [0..<length todos])"

definition todo_transaction ::
  "(nat \<Rightarrow> jstring) \<Rightarrow> jstring \<Rightarrow> todo_info list \<Rightarrow> todo_row list \<Rightarrow> todo_error + (todo_info list \<times> todo_row list)" where
  "todo_transaction uuid sid todos table =
     (let rows = session_rows sid table; kept = filter (\<lambda>r. row_session r \<noteq> sid) table
      in case validate rows todos of Some e \<Rightarrow> Inl e | None \<Rightarrow>
         (case check_order todos of Some e \<Rightarrow> Inl e | None \<Rightarrow>
          (if todos = [] then Inr ([], kept)
           else case check_new [] todos of Some e \<Rightarrow> Inl e | None \<Rightarrow>
             (let resolved = resolve_todos uuid rows todos
              in case check_ids [] resolved of Some e \<Rightarrow> Inl e | None \<Rightarrow>
                   Inr (resolved, kept @ insert_rows sid resolved)))))"

text \<open>The result, the table after the transaction, and the published event.\<close>

definition update ::
  "(nat \<Rightarrow> jstring) \<Rightarrow> jstring \<Rightarrow> todo_info list \<Rightarrow> todo_row list \<Rightarrow>
   (todo_error + todo_info list) \<times> todo_row list \<times> todo_event list" where
  "update uuid sid todos table =
     (case todo_transaction uuid sid todos table of
        Inl e \<Rightarrow> (Inl e, table, [])
      | Inr (resolved, table') \<Rightarrow> (Inr resolved, table', [TodoUpdated sid resolved]))"

definition get :: "jstring \<Rightarrow> todo_row list \<Rightarrow> todo_info list" where
  "get sid table =
     map (\<lambda>r. \<lparr>todo_id = Some (row_key r), content = row_content r, status = row_status r, priority = row_priority r\<rparr>)
       (session_rows sid table)"

section \<open>Auxiliary facts\<close>

lemma ordered_todos_filter: "ordered_todos todos = filter (\<lambda>t. status t \<noteq> cancelled_st) todos"
proof -
  have "sorted (map snd (filter P (zip todos [0..<length todos])))" for P
    by (metis sorted_filter sorted_upt map_snd_zip length_upt diff_zero)
  then have "ordered_todos todos = map fst (filter (\<lambda>(t, p). status t \<noteq> cancelled_st) (zip todos [0..<length todos]))"
    by (simp add: ordered_todos_def sort_key_id_if_sorted sorted_sort_id)
  also have "\<dots> = filter (\<lambda>t. status t \<noteq> cancelled_st) (map fst (zip todos [0..<length todos]))"
    unfolding filter_map comp_def case_prod_beta ..
  finally show ?thesis by simp
qed

lemma session_rows_other:
  "s \<noteq> sid \<Longrightarrow> session_rows s (filter (\<lambda>r. row_session r \<noteq> sid) table @ insert_rows sid ts) = session_rows s table"
  by (auto simp: session_rows_def insert_rows_def filter_map comp_def case_prod_beta
      intro!: arg_cong [where f = "sort_key row_position"] filter_cong)

lemma session_rows_inserted:
  "session_rows sid (filter (\<lambda>r. row_session r \<noteq> sid) table @ insert_rows sid ts) = insert_rows sid ts"
proof -
  have "sorted (map row_position (insert_rows sid ts))"
    by (simp add: insert_rows_def comp_def case_prod_beta map_snd_zip flip: map_map [of snd])
  moreover have "filter (\<lambda>r. row_session r = sid) (insert_rows sid ts) = insert_rows sid ts"
    by (auto simp: insert_rows_def intro!: filter_True)
  ultimately show ?thesis by (simp add: session_rows_def sort_key_id_if_sorted)
qed

lemma get_inserted:
  "list_all (\<lambda>t. todo_id t \<noteq> None) ts \<Longrightarrow>
   get sid (filter (\<lambda>r. row_session r \<noteq> sid) table @ insert_rows sid ts) = ts"
  unfolding get_def session_rows_inserted
  by (rule nth_equalityI) (auto simp: insert_rows_def row_key_def list_all_length split: option.split)

lemma resolve_todos_ids: "list_all (\<lambda>t. todo_id t \<noteq> None) (resolve_todos uuid rows todos)"
  by (auto simp: resolve_todos_def list_all_iff)

lemma resolve_todos_nth:
  "length (resolve_todos uuid rows todos) = length todos"
  "i < length todos \<Longrightarrow> resolve_todos uuid rows todos ! i =
     (todos ! i)\<lparr>todo_id := Some (resolved_id uuid rows i (todos ! i))\<rparr>"
  by (simp_all add: resolve_todos_def)

lemma validate_ok:
  "validate rows todos = None \<longleftrightarrow>
     (\<forall>t\<in>set todos. status t \<in> set ALLOWED_STATUSES \<and>
        (\<forall>r. matched_row rows t = Some r \<longrightarrow> isValidTransition (row_status r) (status t)))"
  by (induction todos) (auto split: option.split)

lemma check_ids_distinct:
  "list_all (\<lambda>t. todo_id t \<noteq> None) ts \<Longrightarrow>
   check_ids seen ts = None \<longleftrightarrow> distinct (map todo_id ts) \<and> (\<forall>t\<in>set ts. the (todo_id t) \<notin> set seen)"
proof (induction ts arbitrary: seen)
  case (Cons t ts)
  then obtain i where "todo_id t = Some i" by auto
  with Cons show ?case by (auto simp: image_iff list_all_iff) (metis option.sel)+
qed simp

definition in_order :: "todo_info list \<Rightarrow> bool" where
  "in_order ts \<longleftrightarrow> sorted_wrt (\<lambda>a b. a = pending_st \<longrightarrow> b \<notin> {in_progress_st, completed_st}) (map status ts)"

lemma check_order_ok: "check_order todos = None \<Longrightarrow> in_order todos"
proof -
  have gen: "(case dropWhile (\<lambda>t. status t \<noteq> pending_st) (filter (\<lambda>t. status t \<noteq> cancelled_st) ts) of
        [] \<Rightarrow> None
      | f # later \<Rightarrow> map_option (\<lambda>t. OutOfOrder (content t) (content f))
            (find (\<lambda>t. status t = in_progress_st \<or> status t = completed_st) later)) = None \<Longrightarrow> in_order ts" for ts
  proof (induction ts)
    case (Cons t ts)
    show ?case
    proof (cases "status t = pending_st")
      case True
      then have none: "find (\<lambda>t. status t = in_progress_st \<or> status t = completed_st)
          (filter (\<lambda>t. status t \<noteq> cancelled_st) ts) = None"
        using Cons.prems by simp
      then have "\<forall>b\<in>set ts. status b \<notin> {in_progress_st, completed_st}"
        by (auto simp: find_None_iff)
      then show ?thesis
        unfolding in_order_def using sorted_wrt_map by (auto simp: sorted_wrt_iff_nth_less)
    next
      case False
      then show ?thesis using Cons by (auto simp: in_order_def split: if_splits)
    qed
  qed (simp add: in_order_def)
  assume "check_order todos = None"
  then show ?thesis by (intro gen) (simp add: check_order_def ordered_todos_filter)
qed

lemma update_success:
  assumes "update uuid sid todos table = (Inr resolved, table', evs)"
  shows "validate (session_rows sid table) todos = None" "check_order todos = None"
    "resolved = resolve_todos uuid (session_rows sid table) todos" "check_ids [] resolved = None"
    "table' = filter (\<lambda>r. row_session r \<noteq> sid) table @ insert_rows sid resolved"
    "evs = [TodoUpdated sid resolved]"
  using assms
  by (auto simp: update_def todo_transaction_def Let_def resolve_todos_def insert_rows_def
      split: sum.splits option.splits if_splits)

section \<open>Properties\<close>

text \<open>
  What \<open>update\<close> writes is what \<open>get\<close> reads: after a successful update the session's list is the
  resolved list, identifiers included, the same list is published, and no other session changes;
  a refused update changes nothing and publishes nothing.
\<close>

theorem todo_update_get:
  "case update uuid sid todos table of
     (Inl e, table', evs) \<Rightarrow> table' = table \<and> evs = []
   | (Inr resolved, table', evs) \<Rightarrow>
       get sid table' = resolved \<and> evs = [TodoUpdated sid resolved] \<and>
       map (\<lambda>t. t\<lparr>todo_id := None\<rparr>) resolved = map (\<lambda>t. t\<lparr>todo_id := None\<rparr>) todos \<and>
       (\<forall>s. s = sid \<or> get s table' = get s table)"
proof (cases "todo_transaction uuid sid todos table")
  case (Inl e)
  then show ?thesis by (simp add: update_def)
next
  case (Inr r)
  obtain resolved table' where r: "r = (resolved, table')" by (cases r)
  then have "update uuid sid todos table = (Inr resolved, table', [TodoUpdated sid resolved])"
    using Inr by (simp add: update_def)
  note u = this update_success [OF this]
  have "map (\<lambda>t. t\<lparr>todo_id := None\<rparr>) resolved = map (\<lambda>t. t\<lparr>todo_id := None\<rparr>) todos"
    unfolding u(4) by (rule nth_equalityI) (simp_all add: resolve_todos_nth)
  moreover have "get sid table' = resolved"
    using get_inserted resolve_todos_ids u(4,6) by metis
  moreover have "get s table' = get s table" if "s \<noteq> sid" for s
    using that u(6) by (simp add: get_def session_rows_other)
  ultimately show ?thesis using u(1) by auto
qed

text \<open>
  A list that \<open>update\<close> accepts has only known statuses, pairwise distinct identifiers, and no
  task started or finished after a pending one.
\<close>

theorem todo_update_wellformed:
  assumes "update uuid sid todos table = (Inr resolved, table', evs)"
  shows "list_all (\<lambda>t. status t \<in> set ALLOWED_STATUSES \<and> todo_id t \<noteq> None) resolved \<and>
         distinct (map todo_id resolved) \<and> in_order resolved"
proof -
  note u = update_success [OF assms]
  let ?rows = "session_rows sid table"
  have st: "map status resolved = map status todos"
    unfolding u(3) by (rule nth_equalityI) (simp_all add: resolve_todos_nth)
  then have "in_order resolved"
    using check_order_ok [OF u(2)] by (simp add: in_order_def)
  moreover have "\<forall>t\<in>set resolved. status t \<in> set ALLOWED_STATUSES"
  proof -
    have "status ` set resolved = status ` set todos" using st by (metis list.set_map)
    moreover have "status ` set todos \<subseteq> set ALLOWED_STATUSES" using u(1) unfolding validate_ok by blast
    ultimately show ?thesis by blast
  qed
  ultimately show ?thesis
    using resolve_todos_ids check_ids_distinct u(3,4) by (simp add: list_all_iff)
qed

theorem todo_update_wellformed_witness:
  "list_all (\<lambda>t. status t \<in> set ALLOWED_STATUSES \<and> todo_id t \<noteq> None)
     [\<lparr>todo_id = Some (js ''u0''), content = js ''a'', status = in_progress_st, priority = js ''low''\<rparr>,
      \<lparr>todo_id = Some (js ''k''), content = js ''b'', status = pending_st, priority = js ''low''\<rparr>] \<and>
   distinct (map todo_id
     [\<lparr>todo_id = Some (js ''u0''), content = js ''a'', status = in_progress_st, priority = js ''low''\<rparr>,
      \<lparr>todo_id = Some (js ''k''), content = js ''b'', status = pending_st, priority = js ''low''\<rparr>]) \<and>
   in_order
     [\<lparr>todo_id = Some (js ''u0''), content = js ''a'', status = in_progress_st, priority = js ''low''\<rparr>,
      \<lparr>todo_id = Some (js ''k''), content = js ''b'', status = pending_st, priority = js ''low''\<rparr>]"
  by (rule todo_update_wellformed [where uuid = "\<lambda>n. js ''u0''" and sid = "js ''s''" and table = "[]" and
        todos = "[\<lparr>todo_id = None, content = js ''a'', status = in_progress_st, priority = js ''low''\<rparr>,
          \<lparr>todo_id = Some (js ''k''), content = js ''b'', status = pending_st, priority = js ''low''\<rparr>]"])
     code_simp

text \<open>Every row of the session has an identifier of its own, as \<open>update\<close> leaves it.\<close>

definition identified :: "jstring \<Rightarrow> todo_row list \<Rightarrow> bool" where
  "identified sid table \<longleftrightarrow>
     list_all (\<lambda>r. row_id r \<noteq> None) (session_rows sid table) \<and> distinct (map row_id (session_rows sid table))"

lemma update_identified:
  assumes "update uuid sid todos table = (Inr resolved, table', evs)"
  shows "identified sid table'"
proof -
  note u = update_success [OF assms]
  have rows: "session_rows sid table' = insert_rows sid resolved"
    unfolding u(5) by (rule session_rows_inserted)
  have ids: "map row_id (insert_rows sid resolved) = map todo_id resolved"
    by (rule nth_equalityI) (simp_all add: insert_rows_def)
  have "list_all (\<lambda>t. todo_id t \<noteq> None) resolved" unfolding u(3) by (rule resolve_todos_ids)
  then have "distinct (map todo_id resolved)" "None \<notin> set (map todo_id resolved)"
    using check_ids_distinct [of resolved "[]"] u(4) by (auto simp: list_all_iff)
  moreover have "None \<notin> set (map row_id (insert_rows sid resolved)) \<longleftrightarrow>
      list_all (\<lambda>r. row_id r \<noteq> None) (insert_rows sid resolved)"
    by (simp add: list_all_iff image_iff) (metis not_None_eq)
  ultimately show ?thesis unfolding identified_def rows ids by simp
qed

lemma map_of_rev_SomeD: "map_of (rev (map (\<lambda>r. (f r, r)) rows)) k = Some r \<Longrightarrow> r \<in> set rows \<and> f r = k"
  by (auto dest!: map_of_SomeD)

lemma prevById_SomeD: "prevById rows k = Some r \<Longrightarrow> r \<in> set rows \<and> row_key r = k"
  unfolding prevById_def by (rule map_of_rev_SomeD)

lemma prevByContent_SomeD: "prevByContent rows k = Some r \<Longrightarrow> r \<in> set rows \<and> row_content r = k"
  unfolding prevByContent_def by (rule map_of_rev_SomeD)

lemma prevById_None: "prevById rows k = None \<longleftrightarrow> k \<notin> row_key ` set rows"
  by (auto simp: prevById_def map_of_eq_None_iff image_image)

text \<open>With identifiers on every row, the row a task takes its identifier from is the row it is checked against.\<close>

lemma resolved_matched:
  assumes ids: "list_all (\<lambda>r. row_id r \<noteq> None) rows" "distinct (map row_id rows)"
    and r: "r \<in> set rows" "row_id r = Some (resolved_id uuid rows n t)"
    and fresh: "Some (uuid n) \<notin> row_id ` set rows"
  shows "matched_row rows t = Some r"
proof -
  have same: "r' = r" if "r' \<in> set rows" "row_id r' = row_id r" for r'
    using that r(1) ids(2) by (auto simp: distinct_map inj_on_def)
  have key: "row_key q = i \<longleftrightarrow> row_id q = Some i" if "q \<in> set rows" for q i
    using that ids(1) by (auto simp: row_key_def list_all_iff split: option.split)
  show ?thesis
  proof (cases "Option.bind (requestedId t) (prevById rows)")
    case (Some r')
    then obtain q where q: "requestedId t = Some q" "prevById rows q = Some r'" by (cases "requestedId t") auto
    then have r': "r' \<in> set rows" "row_id r' = Some q" using prevById_SomeD key by blast+
    then have "resolved_id uuid rows n t = q" using q by (simp add: resolved_id_def)
    then show ?thesis using Some same r r' by (simp add: matched_row_def)
  next
    case none: None
    let ?c = "if content t \<noteq> [] then prevByContent rows (content t) else None"
    show ?thesis
    proof (cases ?c)
      case (Some r')
      then have "r' \<in> set rows" by (auto split: if_splits dest: prevByContent_SomeD)
      moreover from this obtain i where "row_id r' = Some i" using ids(1) by (auto simp: list_all_iff)
      ultimately show ?thesis
        using none Some same r by (auto simp: resolved_id_def matched_row_def)
    next
      case None
      show ?thesis
      proof (cases "requestedId t")
        case None
        then show ?thesis using none \<open>?c = None\<close> r fresh by (auto simp: resolved_id_def image_iff)
      next
        case (Some q)
        then have "resolved_id uuid rows n t = q" "prevById rows q = None"
          using none \<open>?c = None\<close> by (auto simp: resolved_id_def)
        then show ?thesis using r key [OF r(1)] prevById_None [of rows q] by (metis image_eqI)
      qed
    qed
  qed
qed

text \<open>
  C11. In a session whose rows carry identifiers, a task keeps to the allowed transitions: whatever
  text and identifier the caller passes, a task stored under the identifier of an earlier row has a
  status that row may move to. In particular finished and cancelled tasks stay as they are.
\<close>

theorem todo_transitions_respected:
  assumes "identified sid table" "range uuid \<inter> (the \<circ> row_id) ` set (session_rows sid table) = {}"
    and "update uuid sid todos table = (Inr resolved, table', evs)"
    and "r \<in> set (session_rows sid table)" "t \<in> set resolved" "todo_id t = row_id r"
  shows "isValidTransition (row_status r) (status t) \<and>
         (row_status r \<in> set TERMINAL_STATUSES \<longrightarrow> status t = row_status r)"
proof -
  note u = update_success [OF assms(3)]
  let ?rows = "session_rows sid table"
  from assms(5) obtain n where n: "n < length todos"
    "t = (todos ! n)\<lparr>todo_id := Some (resolved_id uuid ?rows n (todos ! n))\<rparr>"
    unfolding u(3) in_set_conv_nth by (auto simp: resolve_todos_nth)
  have "Some (uuid n) \<notin> row_id ` set ?rows"
  proof
    assume "Some (uuid n) \<in> row_id ` set ?rows"
    then have "uuid n \<in> (the \<circ> row_id) ` set ?rows" by (metis comp_apply imageE imageI option.sel)
    then show False using assms(2) by blast
  qed
  then have "matched_row ?rows (todos ! n) = Some r"
    using assms(1,4,6) n resolved_matched [of ?rows r uuid n "todos ! n"] by (simp add: identified_def)
  then have "isValidTransition (row_status r) (status (todos ! n))"
    using u(1) n(1) unfolding validate_ok by (metis nth_mem)
  then show ?thesis using n(2) by (auto simp: isValidTransition_def split: if_splits)
qed

theorem todo_transitions_respected_witness:
  "let r = \<lparr>row_session = js ''s'', row_id = Some (js ''k''), row_content = js ''a'', row_status = in_progress_st,
         row_priority = js ''low'', row_position = 0\<rparr>;
       t = \<lparr>todo_id = Some (js ''k''), content = js ''b'', status = completed_st, priority = js ''low''\<rparr>
   in fst (update (\<lambda>n. js ''u'') (js ''s'') [t] [r]) = Inr [t] \<and> isValidTransition (row_status r) (status t)"
proof -
  let ?r = "\<lparr>row_session = js ''s'', row_id = Some (js ''k''), row_content = js ''a'', row_status = in_progress_st,
    row_priority = js ''low'', row_position = 0\<rparr>"
  let ?t = "\<lparr>todo_id = Some (js ''k''), content = js ''b'', status = completed_st, priority = js ''low''\<rparr>"
  have u: "update (\<lambda>n. js ''u'') (js ''s'') [?t] [?r] =
      (Inr [?t], [?r\<lparr>row_content := js ''b'', row_status := completed_st\<rparr>], [TodoUpdated (js ''s'') [?t]])"
    by code_simp
  have rows: "session_rows (js ''s'') [?r] = [?r]" by code_simp
  show ?thesis
    using todo_transitions_respected [OF _ _ u, of ?r ?t] u by (simp add: rows identified_def)
qed

text \<open>
  Rows written before identifiers existed break this: a task that names such a row by its text
  and carries the text of another row is checked against the first and stored under the identifier
  of the second, so a completed task is started again.
\<close>

theorem todo_legacy_row_bypass:
  "let legacy = \<lparr>row_session = js ''s'', row_id = None, row_content = js ''x'', row_status = pending_st,
         row_priority = js ''low'', row_position = 0\<rparr>;
       fin = \<lparr>row_session = js ''s'', row_id = Some (js ''k''), row_content = js ''y'', row_status = completed_st,
         row_priority = js ''low'', row_position = 1\<rparr>;
       t = \<lparr>todo_id = Some (js ''x''), content = js ''y'', status = in_progress_st, priority = js ''low''\<rparr>
   in fst (update uuid (js ''s'') [t] [legacy, fin]) = Inr [t\<lparr>todo_id := Some (js ''k'')\<rparr>] \<and>
      \<not> isValidTransition (row_status fin) (status t)"
  unfolding Let_def by code_simp

end
