(* ===== verification/Stepper.thy ===== *)
theory Stepper
  imports JS_Prelude
begin

text \<open>
  The event-sourced session log, \<open>v2/session-event.ts\<close>, \<open>v2/session-entry.ts\<close> and
  \<open>v2/session-entry-stepper.ts\<close>: the events, the entries, and the step function that folds an
  event into the log through an adapter. Values of \<open>Record<string, unknown>\<close> are association
  lists over a type variable; times are numbers; of a structure the log only copies whole (files,
  agents, tokens, retry errors) the model keeps one value.
\<close>

section \<open>Events\<close>

type_synonym 'j jrecord = "(jstring \<times> 'j) list"

record 'j event_base =
  ev_id :: jstring
  ev_metadata :: "'j jrecord option"
  ev_timestamp :: nat

record file_attachment =
  uri :: jstring
  mime :: jstring
  file_name :: "jstring option"
  file_description :: "jstring option"
  file_source :: "(nat \<times> nat \<times> jstring) option"

record agent_attachment =
  agent_name :: jstring
  agent_source :: "(nat \<times> nat \<times> jstring) option"

record retry_error =
  retry_message :: jstring
  retry_statusCode :: "nat option"
  retry_isRetryable :: bool
  retry_responseHeaders :: "(jstring \<times> jstring) list option"
  retry_responseBody :: "jstring option"
  retry_metadata :: "(jstring \<times> jstring) list option"

record token_usage =
  tok_input :: nat
  tok_output :: nat
  tok_reasoning :: nat
  tok_cache_read :: nat
  tok_cache_write :: nat

record step_model =
  model_id :: jstring
  model_providerID :: jstring
  model_variant :: "jstring option"

record 'j provider_info =
  executed :: bool
  provider_metadata :: "'j jrecord option"

datatype 'j session_event =
    Prompt "'j event_base" jstring "file_attachment list option" "agent_attachment list option"
  | Synthetic "'j event_base" jstring
  | Step_Started "'j event_base" step_model
  | Step_Ended "'j event_base" jstring token_usage
  | Text_Started "'j event_base"
  | Text_Delta "'j event_base" jstring
  | Text_Ended "'j event_base" jstring
  | Tool_Input_Started "'j event_base" jstring jstring
  | Tool_Input_Delta "'j event_base" jstring jstring
  | Tool_Input_Ended "'j event_base" jstring jstring
  | Tool_Called "'j event_base" jstring jstring "'j jrecord" "'j provider_info"
  | Tool_Success "'j event_base" jstring jstring "jstring option" "file_attachment list option" "'j provider_info"
  | Tool_Error "'j event_base" jstring jstring "'j provider_info"
  | Reasoning_Started "'j event_base"
  | Reasoning_Delta "'j event_base" jstring
  | Reasoning_Ended "'j event_base" jstring
  | Retried "'j event_base" nat retry_error
  | Compacted "'j event_base" bool "bool option"

section \<open>Entries\<close>

datatype 'j tool_state =
    ToolStatePending (pending_input: jstring)
  | ToolStateRunning (running_input: "'j jrecord")
  | ToolStateCompleted "'j jrecord" jstring jstring "'j jrecord" "file_attachment list"
  | ToolStateError "'j jrecord" jstring "'j jrecord"

record 'j assistant_tool =
  callID :: jstring
  tool_name :: jstring
  tool_created :: nat
  tool_ran :: "nat option"
  tool_st :: "'j tool_state"

datatype 'j assistant_content =
    AssistantText jstring
  | AssistantReasoning jstring
  | AssistantTool "'j assistant_tool"

record assistant_retry =
  attempt :: nat
  retry_err :: retry_error
  retry_created :: nat

record 'j assistant =
  as_id :: jstring
  as_created :: nat
  as_completed :: "nat option"
  as_content :: "'j assistant_content list"
  as_retries :: "assistant_retry list"
  as_tokens :: "token_usage option"

record 'j user_entry =
  us_id :: jstring
  us_metadata :: "'j jrecord option"
  us_text :: jstring
  us_files :: "file_attachment list option"
  us_agents :: "agent_attachment list option"
  us_created :: nat

record 'j synthetic_entry =
  sy_base :: "'j event_base"
  sy_text :: jstring
  sy_created :: nat

record 'j compaction_entry =
  co_base :: "'j event_base"
  co_auto :: bool
  co_overflow :: "bool option"
  co_created :: nat

datatype 'j entry =
    User "'j user_entry"
  | SyntheticEntry "'j synthetic_entry"
  | Assistant "'j assistant"
  | Compaction "'j compaction_entry"

definition user_fromEvent ::
  "'j event_base \<Rightarrow> jstring \<Rightarrow> file_attachment list option \<Rightarrow> agent_attachment list option \<Rightarrow> 'j entry" where
  "user_fromEvent b txt fs ags =
     User \<lparr>us_id = ev_id b, us_metadata = ev_metadata b, us_text = txt, us_files = fs,
           us_agents = ags, us_created = ev_timestamp b\<rparr>"

definition synthetic_fromEvent :: "'j event_base \<Rightarrow> jstring \<Rightarrow> 'j entry" where
  "synthetic_fromEvent b txt = SyntheticEntry \<lparr>sy_base = b, sy_text = txt, sy_created = ev_timestamp b\<rparr>"

definition assistant_fromEvent :: "'j event_base \<Rightarrow> 'j entry" where
  "assistant_fromEvent b =
     Assistant \<lparr>as_id = ev_id b, as_created = ev_timestamp b, as_completed = None, as_content = [],
                as_retries = [], as_tokens = None\<rparr>"

definition retry_fromEvent :: "'j event_base \<Rightarrow> nat \<Rightarrow> retry_error \<Rightarrow> assistant_retry" where
  "retry_fromEvent b n e = \<lparr>attempt = n, retry_err = e, retry_created = ev_timestamp b\<rparr>"

definition compaction_fromEvent :: "'j event_base \<Rightarrow> bool \<Rightarrow> bool option \<Rightarrow> 'j entry" where
  "compaction_fromEvent b auto overflow =
     Compaction \<lparr>co_base = b, co_auto = auto, co_overflow = overflow, co_created = ev_timestamp b\<rparr>"

section \<open>The memory adapter\<close>

record 'j memory_state =
  entries :: "'j entry list"
  pending :: "'j entry list"

record ('s, 'j) adapter =
  getCurrentAssistant :: "'s \<Rightarrow> 'j assistant option"
  updateAssistant :: "'j assistant \<Rightarrow> 's \<Rightarrow> 's"
  appendEntry :: "'j entry \<Rightarrow> 's \<Rightarrow> 's"
  appendPending :: "'j entry \<Rightarrow> 's \<Rightarrow> 's"

fun findLastIndex :: "('a \<Rightarrow> bool) \<Rightarrow> 'a list \<Rightarrow> nat option" where
  "findLastIndex P [] = None"
| "findLastIndex P (x # xs) =
     (case findLastIndex P xs of Some i \<Rightarrow> Some (Suc i) | None \<Rightarrow> if P x then Some 0 else None)"

definition is_active :: "'j entry \<Rightarrow> bool" where
  "is_active e = (case e of Assistant a \<Rightarrow> as_completed a = None | _ \<Rightarrow> False)"

definition activeAssistantIndex :: "'j memory_state \<Rightarrow> nat option" where
  "activeAssistantIndex st = findLastIndex is_active (entries st)"

definition mem_getCurrentAssistant :: "'j memory_state \<Rightarrow> 'j assistant option" where
  "mem_getCurrentAssistant st =
     (case activeAssistantIndex st of
        None \<Rightarrow> None
      | Some i \<Rightarrow> (case entries st ! i of Assistant a \<Rightarrow> Some a | _ \<Rightarrow> None))"

definition mem_updateAssistant :: "'j assistant \<Rightarrow> 'j memory_state \<Rightarrow> 'j memory_state" where
  "mem_updateAssistant a st =
     (case activeAssistantIndex st of
        None \<Rightarrow> st
      | Some i \<Rightarrow>
          (case entries st ! i of
             Assistant c \<Rightarrow> st\<lparr>entries := (entries st)[i := Assistant a]\<rparr>
           | _ \<Rightarrow> st))"

definition mem_appendEntry :: "'j entry \<Rightarrow> 'j memory_state \<Rightarrow> 'j memory_state" where
  "mem_appendEntry e st = st\<lparr>entries := entries st @ [e]\<rparr>"

definition mem_appendPending :: "'j entry \<Rightarrow> 'j memory_state \<Rightarrow> 'j memory_state" where
  "mem_appendPending e st = st\<lparr>pending := pending st @ [e]\<rparr>"

definition memory :: "('j memory_state, 'j) adapter" where
  "memory = \<lparr>getCurrentAssistant = mem_getCurrentAssistant, updateAssistant = mem_updateAssistant,
             appendEntry = mem_appendEntry, appendPending = mem_appendPending\<rparr>"

section \<open>The step function\<close>

text \<open>A change of the last element that satisfies a predicate, if there is one.\<close>

definition update_last :: "('a \<Rightarrow> bool) \<Rightarrow> ('a \<Rightarrow> 'a) \<Rightarrow> 'a list \<Rightarrow> 'a list" where
  "update_last P f xs = (case findLastIndex P xs of None \<Rightarrow> xs | Some i \<Rightarrow> xs[i := f (xs ! i)])"

definition is_text :: "'j assistant_content \<Rightarrow> bool" where
  "is_text c = (case c of AssistantText _ \<Rightarrow> True | _ \<Rightarrow> False)"

definition is_reasoning :: "'j assistant_content \<Rightarrow> bool" where
  "is_reasoning c = (case c of AssistantReasoning _ \<Rightarrow> True | _ \<Rightarrow> False)"

definition is_tool :: "jstring \<Rightarrow> 'j assistant_content \<Rightarrow> bool" where
  "is_tool cid c = (case c of AssistantTool t \<Rightarrow> callID t = cid | _ \<Rightarrow> False)"

definition on_text :: "(jstring \<Rightarrow> jstring) \<Rightarrow> 'j assistant_content \<Rightarrow> 'j assistant_content" where
  "on_text f c = (case c of AssistantText s \<Rightarrow> AssistantText (f s) | AssistantReasoning s \<Rightarrow> AssistantReasoning (f s)
                  | AssistantTool t \<Rightarrow> AssistantTool t)"

definition on_tool :: "('j assistant_tool \<Rightarrow> 'j assistant_tool) \<Rightarrow> 'j assistant_content \<Rightarrow> 'j assistant_content" where
  "on_tool f c = (case c of AssistantTool t \<Rightarrow> AssistantTool (f t) | _ \<Rightarrow> c)"

definition latestText :: "(jstring \<Rightarrow> jstring) \<Rightarrow> 'j assistant \<Rightarrow> 'j assistant" where
  "latestText f a = a\<lparr>as_content := update_last is_text (on_text f) (as_content a)\<rparr>"

definition latestReasoning :: "(jstring \<Rightarrow> jstring) \<Rightarrow> 'j assistant \<Rightarrow> 'j assistant" where
  "latestReasoning f a = a\<lparr>as_content := update_last is_reasoning (on_text f) (as_content a)\<rparr>"

definition latestTool :: "jstring \<Rightarrow> ('j assistant_tool \<Rightarrow> 'j assistant_tool) \<Rightarrow> 'j assistant \<Rightarrow> 'j assistant" where
  "latestTool cid f a = a\<lparr>as_content := update_last (is_tool cid) (on_tool f) (as_content a)\<rparr>"

definition push_content :: "'j assistant_content \<Rightarrow> 'j assistant \<Rightarrow> 'j assistant" where
  "push_content c a = a\<lparr>as_content := as_content a @ [c]\<rparr>"

definition tool_input_delta :: "jstring \<Rightarrow> 'j assistant_tool \<Rightarrow> 'j assistant_tool" where
  "tool_input_delta delta t =
     (case tool_st t of ToolStatePending s \<Rightarrow> t\<lparr>tool_st := ToolStatePending (s @ delta)\<rparr> | _ \<Rightarrow> t)"

definition tool_called :: "nat \<Rightarrow> 'j jrecord \<Rightarrow> 'j assistant_tool \<Rightarrow> 'j assistant_tool" where
  "tool_called ts inp t = t\<lparr>tool_ran := Some ts, tool_st := ToolStateRunning inp\<rparr>"

definition tool_success ::
  "jstring option \<Rightarrow> jstring \<Rightarrow> 'j jrecord option \<Rightarrow> file_attachment list option \<Rightarrow> 'j assistant_tool \<Rightarrow> 'j assistant_tool" where
  "tool_success out title md att t =
     (case tool_st t of
        ToolStateRunning inp \<Rightarrow>
          t\<lparr>tool_st := ToolStateCompleted inp (case out of Some s \<Rightarrow> s | None \<Rightarrow> []) title
               (case md of Some r \<Rightarrow> r | None \<Rightarrow> []) (case att of Some l \<Rightarrow> l | None \<Rightarrow> [])\<rparr>
      | _ \<Rightarrow> t)"

definition tool_error :: "jstring \<Rightarrow> 'j jrecord option \<Rightarrow> 'j assistant_tool \<Rightarrow> 'j assistant_tool" where
  "tool_error err md t =
     (case tool_st t of
        ToolStateRunning inp \<Rightarrow> t\<lparr>tool_st := ToolStateError inp err (case md of Some r \<Rightarrow> r | None \<Rightarrow> [])\<rparr>
      | _ \<Rightarrow> t)"

text \<open>\<open>if (currentAssistant) adapter.updateAssistant(produce(currentAssistant, f))\<close>\<close>

definition on_current :: "('s, 'j) adapter \<Rightarrow> ('j assistant \<Rightarrow> 'j assistant) \<Rightarrow> 's \<Rightarrow> 's" where
  "on_current A f s =
     (case getCurrentAssistant A s of Some a \<Rightarrow> updateAssistant A (f a) s | None \<Rightarrow> s)"

fun stepWith :: "('s, 'j) adapter \<Rightarrow> 'j session_event \<Rightarrow> 's \<Rightarrow> 's" where
  "stepWith A (Prompt b txt fs ags) s =
     (case getCurrentAssistant A s of
        Some _ \<Rightarrow> appendPending A (user_fromEvent b txt fs ags) s
      | None \<Rightarrow> appendEntry A (user_fromEvent b txt fs ags) s)"
| "stepWith A (Synthetic b txt) s = appendEntry A (synthetic_fromEvent b txt) s"
| "stepWith A (Step_Started b m) s =
     appendEntry A (assistant_fromEvent b)
       (on_current A (\<lambda>a. a\<lparr>as_completed := Some (ev_timestamp b)\<rparr>) s)"
| "stepWith A (Step_Ended b reason tokens) s =
     on_current A (\<lambda>a. a\<lparr>as_completed := Some (ev_timestamp b), as_tokens := Some tokens\<rparr>) s"
| "stepWith A (Text_Started b) s = on_current A (push_content (AssistantText [])) s"
| "stepWith A (Text_Delta b delta) s = on_current A (latestText (\<lambda>x. x @ delta)) s"
| "stepWith A (Text_Ended b txt) s = s"
| "stepWith A (Tool_Input_Started b cid nm) s =
     on_current A (push_content (AssistantTool \<lparr>callID = cid, tool_name = nm, tool_created = ev_timestamp b,
        tool_ran = None, tool_st = ToolStatePending []\<rparr>)) s"
| "stepWith A (Tool_Input_Delta b cid delta) s = on_current A (latestTool cid (tool_input_delta delta)) s"
| "stepWith A (Tool_Input_Ended b cid txt) s = s"
| "stepWith A (Tool_Called b cid tool inp prov) s =
     on_current A (latestTool cid (tool_called (ev_timestamp b) inp)) s"
| "stepWith A (Tool_Success b cid title out att prov) s =
     on_current A (latestTool cid (tool_success out title (ev_metadata b) att)) s"
| "stepWith A (Tool_Error b cid err prov) s =
     on_current A (latestTool cid (tool_error err (ev_metadata b))) s"
| "stepWith A (Reasoning_Started b) s = on_current A (push_content (AssistantReasoning [])) s"
| "stepWith A (Reasoning_Delta b delta) s = on_current A (latestReasoning (\<lambda>x. x @ delta)) s"
| "stepWith A (Reasoning_Ended b txt) s = on_current A (latestReasoning (\<lambda>x. txt)) s"
| "stepWith A (Retried b n e) s =
     on_current A (\<lambda>a. a\<lparr>as_retries := as_retries a @ [retry_fromEvent b n e]\<rparr>) s"
| "stepWith A (Compacted b auto overflow) s = appendEntry A (compaction_fromEvent b auto overflow) s"

definition step :: "'j memory_state \<Rightarrow> 'j session_event \<Rightarrow> 'j memory_state" where
  "step old event = stepWith memory event old"

section \<open>The adapter interface\<close>

text \<open>
  What the step function needs of an adapter: seen through an abstraction to a memory state, its
  operations are those of the memory adapter. Every such adapter computes the same log.
\<close>

locale step_adapter =
  fixes A :: "('s, 'j) adapter"
    and log :: "'s \<Rightarrow> 'j memory_state"
  assumes get_log: "getCurrentAssistant A s = mem_getCurrentAssistant (log s)"
    and update_log: "log (updateAssistant A a s) = mem_updateAssistant a (log s)"
    and appendEntry_log: "log (appendEntry A e s) = mem_appendEntry e (log s)"
    and appendPending_log: "log (appendPending A e s) = mem_appendPending e (log s)"
begin

lemmas log_simps = get_log update_log appendEntry_log appendPending_log

lemma on_current_log: "log (on_current A f s) = on_current memory f (log s)"
  by (simp add: on_current_def memory_def log_simps split: option.split)

lemma stepWith_log: "log (stepWith A e s) = step (log s) e"
  by (cases e)
     (simp_all add: step_def on_current_log log_simps,
      simp_all add: memory_def log_simps split: option.split)

lemma fold_log: "log (fold (stepWith A) es s) = fold (\<lambda>e st. step st e) es (log s)"
  by (induction es arbitrary: s) (simp_all add: stepWith_log)

end

interpretation mem: step_adapter memory "\<lambda>st. st"
  by unfold_locales (simp_all add: memory_def)

section \<open>The last match\<close>

lemma findLastIndex_None: "findLastIndex P xs = None \<longleftrightarrow> (\<forall>x\<in>set xs. \<not> P x)"
  by (induction xs) (auto split: option.splits)

lemma findLastIndex_split:
  "(\<forall>z\<in>set zs. \<not> P z) \<Longrightarrow> P x \<Longrightarrow> findLastIndex P (ys @ x # zs) = Some (length ys)"
  by (induction ys) (auto simp: findLastIndex_None split: option.splits)

lemma update_last_split:
  "(\<forall>z\<in>set zs. \<not> P z) \<Longrightarrow> P x \<Longrightarrow> update_last P f (ys @ x # zs) = ys @ f x # zs"
  by (simp add: update_last_def findLastIndex_split)

lemma update_last_none: "\<forall>x\<in>set xs. \<not> P x \<Longrightarrow> update_last P f xs = xs"
  by (simp add: update_last_def findLastIndex_None [THEN iffD2])

lemma last_match_cases:
  obtains (none) "\<forall>x\<in>set xs. \<not> P x" | (some) ys x zs where "xs = ys @ x # zs" "P x" "\<forall>z\<in>set zs. \<not> P z"
  by (metis split_list_last_prop)

lemma findLast_at:
  "(\<forall>z\<in>set zs. \<not> P z) \<Longrightarrow> P x \<Longrightarrow> findLast P (ys @ x # zs) = Some x"
proof -
  assume *: "\<forall>z\<in>set zs. \<not> P z" "P x"
  then have "findLast P zs = None" by (simp add: findLast_None)
  then show ?thesis
    using * findLast_append [of P "ys @ [x]" zs] by simp
qed

lemma findLast_update_last:
  assumes "\<And>x. P x \<Longrightarrow> P (f x)"
  shows "findLast P (update_last P f xs) = map_option f (findLast P xs)"
proof (cases xs P rule: last_match_cases)
  case none
  then show ?thesis by (simp add: update_last_none findLast_None [THEN iffD2])
next
  case (some ys x zs)
  then show ?thesis using assms by (simp add: update_last_split findLast_at)
qed

lemma findLast_update_other:
  assumes "\<And>x. P x \<Longrightarrow> \<not> Q x \<and> \<not> Q (f x)"
  shows "findLast Q (update_last P f xs) = findLast Q xs"
proof (cases xs P rule: last_match_cases)
  case none
  then show ?thesis by (simp add: update_last_none)
next
  case (some ys x zs)
  then show ?thesis using assms [of x] by (auto simp: update_last_split findLast_def find_append split: option.split)
qed

section \<open>The log of the memory adapter\<close>

lemma current_split:
  "(\<forall>z\<in>set post. \<not> is_active z) \<Longrightarrow> as_completed a = None \<Longrightarrow> entries st = pre @ Assistant a # post \<Longrightarrow>
   mem_getCurrentAssistant st = Some a \<and>
   on_current memory f st = st\<lparr>entries := pre @ Assistant (f a) # post\<rparr>"
  by (simp add: on_current_def memory_def mem_getCurrentAssistant_def mem_updateAssistant_def
      activeAssistantIndex_def findLastIndex_split is_active_def)

lemma current_none:
  "\<forall>z\<in>set (entries st). \<not> is_active z \<Longrightarrow> mem_getCurrentAssistant st = None \<and> on_current memory f st = st"
  by (simp add: on_current_def memory_def mem_getCurrentAssistant_def activeAssistantIndex_def
      findLastIndex_None [THEN iffD2])

lemma log_cases:
  obtains (idle) "\<forall>z\<in>set (entries st). \<not> is_active z"
  | (busy) pre a post where "entries st = pre @ Assistant a # post" "as_completed a = None" "\<forall>z\<in>set post. \<not> is_active z"
proof (cases "\<exists>z\<in>set (entries st). is_active z")
  case False
  then show ?thesis using idle by blast
next
  case True
  then obtain pre x post where x: "entries st = pre @ x # post" "is_active x" "\<forall>z\<in>set post. \<not> is_active z"
    using split_list_last_prop by metis
  then obtain a where "x = Assistant a" "as_completed a = None"
    by (auto simp: is_active_def split: entry.splits)
  then show ?thesis using busy x by blast
qed

definition init_log :: "'j memory_state" where
  "init_log = \<lparr>entries = [], pending = []\<rparr>"

definition run_log :: "'j memory_state \<Rightarrow> 'j session_event list \<Rightarrow> 'j memory_state" where
  "run_log st es = fold (\<lambda>e st. step st e) es st"

lemma run_log_simps [simp]:
  "run_log st [] = st" "run_log st (e # es) = run_log (step st e) es"
  "run_log st (es @ es') = run_log (run_log st es) es'"
  by (simp_all add: run_log_def)

text \<open>The changes of the current assistant that events make keep it active, or complete it.\<close>

lemma is_active_fromEvent [simp]:
  "is_active (user_fromEvent b t fs ags) = False" "is_active (synthetic_fromEvent b t) = False"
  "is_active (compaction_fromEvent b au ov) = False" "is_active (assistant_fromEvent b) = True"
  by (simp_all add: is_active_def user_fromEvent_def synthetic_fromEvent_def compaction_fromEvent_def
      assistant_fromEvent_def)

lemma as_completed_updates [simp]:
  "as_completed (push_content c a) = as_completed a" "as_completed (latestText f a) = as_completed a"
  "as_completed (latestReasoning f a) = as_completed a" "as_completed (latestTool cid g a) = as_completed a"
  by (simp_all add: push_content_def latestText_def latestReasoning_def latestTool_def)

lemma memory_append [simp]:
  "appendEntry memory e st = st\<lparr>entries := entries st @ [e]\<rparr>"
  "appendPending memory e st = st\<lparr>pending := pending st @ [e]\<rparr>"
  "getCurrentAssistant memory st = mem_getCurrentAssistant st"
  by (simp_all add: memory_def mem_appendEntry_def mem_appendPending_def)

text \<open>Every step changes at most the active entry and appends at most one.\<close>

lemma step_shape:
  "(\<exists>es ps. entries (step st e) = entries st @ es \<and> pending (step st e) = pending st @ ps \<and>
      (\<forall>z\<in>set (entries st). \<not> is_active z) \<and> length (filter is_active es) \<le> 1) \<or>
   (\<exists>pre a a' post es ps. entries st = pre @ Assistant a # post \<and> as_completed a = None \<and>
      (\<forall>z\<in>set post. \<not> is_active z) \<and> entries (step st e) = pre @ Assistant a' # post @ es \<and>
      pending (step st e) = pending st @ ps \<and>
      length (filter is_active (Assistant a' # es)) \<le> 1)"
proof (cases st rule: log_cases)
  case idle
  note n = current_none [OF idle]
  show ?thesis
    by (rule disjI1, cases e) (use idle n in \<open>simp_all add: step_def\<close>)
next
  case (busy pre a post)
  note n = current_split [OF busy(3,2,1)]
  have act: "is_active (Assistant b) \<longleftrightarrow> as_completed b = None" for b by (simp add: is_active_def)
  show ?thesis
    by (rule disjI2, rule exI [of _ pre], rule exI [of _ a], cases e)
       (use busy n in \<open>auto simp: step_def act\<close>)
qed


lemma step_frozen:
  assumes "i < length (entries st)" "\<not> is_active (entries st ! i)"
  shows "i < length (entries (step st e)) \<and> entries (step st e) ! i = entries st ! i"
  using step_shape [of st e]
proof (elim disjE exE conjE, goal_cases)
  case (1 es ps)
  then show ?case using assms by (simp add: nth_append)
next
  case (2 pre a a' post es ps)
  then have "i \<noteq> length pre" using assms by (auto simp: is_active_def)
  then show ?case using 2 assms by (auto simp: nth_append nth_Cons split: nat.split)
qed

lemma step_active_count:
  "length (filter is_active (entries st)) \<le> 1 \<Longrightarrow> length (filter is_active (entries (step st e))) \<le> 1"
  using step_shape [of st e]
proof (elim disjE exE conjE, goal_cases)
  case (1 es ps)
  then have "filter is_active (entries st) = []" by simp
  with 1 show ?case by simp
next
  case (2 pre a a' post es ps)
  then have "filter is_active pre = []" "filter is_active post = []"
    by (auto simp: is_active_def)
  with 2 show ?case by (auto split: if_splits)
qed

context step_adapter
begin

lemma adapter_one_active:
  "length (filter is_active (entries (log s))) \<le> 1 \<Longrightarrow>
   length (filter is_active (entries (log (fold (stepWith A) es s)))) \<le> 1"
proof (induction es arbitrary: s)
  case (Cons e es)
  then show ?case using step_active_count [OF Cons.prems, of e] Cons.IH [of "stepWith A e s"] by (simp add: stepWith_log)
qed simp

lemma adapter_frozen:
  "i < length (entries (log s)) \<Longrightarrow> \<not> is_active (entries (log s) ! i) \<Longrightarrow>
   i < length (entries (log (fold (stepWith A) es s))) \<and> entries (log (fold (stepWith A) es s)) ! i = entries (log s) ! i"
proof (induction es arbitrary: s)
  case (Cons e es)
  then show ?case using step_frozen [OF Cons.prems, of e] Cons.IH [of "stepWith A e s"] by (simp add: stepWith_log)
qed simp

end

lemma run_log_fold: "run_log st es = fold (stepWith memory) es st"
  unfolding run_log_def by (induction es arbitrary: st) (simp_all add: step_def)

section \<open>Properties\<close>

text \<open>
  C12. Whatever events arrive, in whatever order, the log has at most one assistant entry that is not
  completed, so \<open>the current assistant\<close> is well defined.
\<close>

theorem log_one_active: "length (filter is_active (entries (run_log init_log es))) \<le> 1"
  using mem.adapter_one_active [of init_log es] by (simp add: run_log_fold init_log_def)

text \<open>
  C13. The log is append-only up to the active entry: an entry that is not an open assistant entry
  (a user, synthetic or compaction entry, or a completed assistant) is at the same place with the
  same value after any further events.
\<close>

theorem log_frozen:
  assumes "i < length (entries st)" "\<not> is_active (entries st ! i)"
  shows "i < length (entries (run_log st es)) \<and> entries (run_log st es) ! i = entries st ! i"
  using mem.adapter_frozen [OF assms, of es] by (simp add: run_log_fold)

theorem log_frozen_witness:
  "entries (run_log (run_log init_log [Synthetic \<lparr>ev_id = js ''e1'', ev_metadata = None, ev_timestamp = 1\<rparr> (js ''hi'')])
      [Step_Started \<lparr>ev_id = js ''e2'', ev_metadata = None, ev_timestamp = 2\<rparr>
         \<lparr>model_id = js ''m'', model_providerID = js ''p'', model_variant = None\<rparr>,
       Text_Started \<lparr>ev_id = js ''e3'', ev_metadata = None, ev_timestamp = 3\<rparr>]) ! 0 =
   (SyntheticEntry \<lparr>sy_base = \<lparr>ev_id = js ''e1'', ev_metadata = None, ev_timestamp = 1\<rparr>, sy_text = js ''hi'', sy_created = 1\<rparr> :: nat entry)"
proof -
  let ?st = "run_log init_log [Synthetic \<lparr>ev_id = js ''e1'', ev_metadata = None, ev_timestamp = 1\<rparr> (js ''hi'')] :: nat memory_state"
  have e: "entries ?st = [SyntheticEntry \<lparr>sy_base = \<lparr>ev_id = js ''e1'', ev_metadata = None, ev_timestamp = 1\<rparr>, sy_text = js ''hi'', sy_created = 1\<rparr>]"
    by (simp add: init_log_def step_def synthetic_fromEvent_def)
  then have "0 < length (entries ?st)" "\<not> is_active (entries ?st ! 0)" by (simp_all add: is_active_def)
  note log_frozen [OF this, THEN conjunct2]
  then show ?thesis unfolding e nth_Cons_0 .
qed

section \<open>Streaming\<close>

lemma step_current:
  assumes "mem_getCurrentAssistant st = Some a"
  obtains pre post where "entries st = pre @ Assistant a # post" "as_completed a = None" "\<forall>z\<in>set post. \<not> is_active z"
proof (cases st rule: log_cases)
  case idle
  then show ?thesis using assms current_none by (metis option.distinct(1))
next
  case (busy pre b post)
  then show ?thesis using that assms current_split [OF busy(3,2,1)] by simp
qed

lemma on_current_current:
  assumes "mem_getCurrentAssistant st = Some a" "as_completed (f a) = None"
  shows "mem_getCurrentAssistant (on_current memory f st) = Some (f a)"
proof -
  obtain pre post where *: "entries st = pre @ Assistant a # post" "as_completed a = None" "\<forall>z\<in>set post. \<not> is_active z"
    using step_current [OF assms(1)] .
  let ?st' = "st\<lparr>entries := pre @ Assistant (f a) # post\<rparr>"
  have "on_current memory f st = ?st'" using current_split [OF *(3,2,1)] by simp
  moreover have "mem_getCurrentAssistant ?st' = Some (f a)"
    using current_split [OF *(3) assms(2), of ?st' pre] by simp
  ultimately show ?thesis by simp
qed

lemma append_current:
  "mem_getCurrentAssistant st = Some a \<Longrightarrow> \<not> is_active e \<Longrightarrow>
   mem_getCurrentAssistant (st\<lparr>entries := entries st @ [e]\<rparr>) = Some a"
  by (erule step_current) (rule current_split [THEN conjunct1], auto)

lemma pending_current [simp]:
  "mem_getCurrentAssistant (st\<lparr>pending := ps\<rparr>) = mem_getCurrentAssistant st"
  by (simp add: mem_getCurrentAssistant_def activeAssistantIndex_def split: option.split)

lemma latestText_append: "latestText f (push_content (AssistantText s) a) = push_content (AssistantText (f s)) a"
  using update_last_split [of "[]" is_text "AssistantText s" "on_text f" "as_content a"]
  by (simp add: latestText_def push_content_def is_text_def on_text_def)

text \<open>
  A streamed text is the concatenation of its deltas: after the start of a text and any number of
  deltas the current assistant has one more text part, holding all deltas in order.
\<close>

theorem text_stream:
  assumes "mem_getCurrentAssistant st = Some a"
  shows "mem_getCurrentAssistant (run_log st (Text_Started b # map (Text_Delta b) ds)) =
           Some (a\<lparr>as_content := as_content a @ [AssistantText (concat ds)]\<rparr>)"
proof -
  have c: "as_completed a = None" using assms by (rule step_current)
  have "mem_getCurrentAssistant s = Some (push_content (AssistantText x) a) \<Longrightarrow>
      mem_getCurrentAssistant (run_log s (map (Text_Delta b) ds)) = Some (push_content (AssistantText (x @ concat ds)) a)" for s x
  proof (induction ds arbitrary: s x)
    case (Cons d ds)
    from Cons.prems have "mem_getCurrentAssistant (step s (Text_Delta b d)) = Some (push_content (AssistantText (x @ d)) a)"
      using on_current_current [of s "push_content (AssistantText x) a" "latestText (\<lambda>y. y @ d)"] c
      by (simp add: step_def latestText_append)
    from Cons.IH [OF this] show ?case by simp
  qed simp
  from this [of "step st (Text_Started b)" "[]"] on_current_current [OF assms, of "push_content (AssistantText [])"] c
  show ?thesis by (simp add: step_def push_content_def)
qed

theorem text_stream_witness:
  "let st = run_log init_log [Step_Started \<lparr>ev_id = js ''e1'', ev_metadata = None, ev_timestamp = 1\<rparr>
         \<lparr>model_id = js ''m'', model_providerID = js ''p'', model_variant = None\<rparr>];
       b = \<lparr>ev_id = js ''e2'', ev_metadata = None, ev_timestamp = 2\<rparr>
   in map_option as_content (mem_getCurrentAssistant (run_log st (Text_Started b # map (Text_Delta b) [js ''Hel'', js ''lo'']))) =
      Some [AssistantText (js ''Hello'') :: nat assistant_content]"
proof -
  let ?st = "run_log init_log [Step_Started \<lparr>ev_id = js ''e1'', ev_metadata = None, ev_timestamp = 1\<rparr>
         \<lparr>model_id = js ''m'', model_providerID = js ''p'', model_variant = None\<rparr>] :: nat memory_state"
  have "mem_getCurrentAssistant ?st = Some \<lparr>as_id = js ''e1'', as_created = 1, as_completed = None, as_content = [],
      as_retries = [], as_tokens = None\<rparr>"
    by (simp add: init_log_def step_def on_current_def mem_getCurrentAssistant_def activeAssistantIndex_def
        assistant_fromEvent_def is_active_def)
  from text_stream [OF this, of "\<lparr>ev_id = js ''e2'', ev_metadata = None, ev_timestamp = 2\<rparr>" "[js ''Hel'', js ''lo'']"]
  show ?thesis unfolding Let_def by (simp add: js_def)
qed

section \<open>Tool calls\<close>

definition tool_of :: "jstring \<Rightarrow> 'j memory_state \<Rightarrow> 'j assistant_tool option" where
  "tool_of cid st =
     (case mem_getCurrentAssistant st of
        None \<Rightarrow> None
      | Some a \<Rightarrow> (case findLast (is_tool cid) (as_content a) of Some (AssistantTool t) \<Rightarrow> Some t | _ \<Rightarrow> None))"

text \<open>Events that end the step, and the tool events of a call; all others are neutral for the call.\<close>

fun neutral :: "jstring \<Rightarrow> 'j session_event \<Rightarrow> bool" where
  "neutral cid (Step_Started b m) = False"
| "neutral cid (Step_Ended b r tk) = False"
| "neutral cid (Tool_Input_Started b c nm) = (c \<noteq> cid)"
| "neutral cid (Tool_Input_Delta b c d) = (c \<noteq> cid)"
| "neutral cid (Tool_Called b c nm inp p) = (c \<noteq> cid)"
| "neutral cid (Tool_Success b c ti out att p) = (c \<noteq> cid)"
| "neutral cid (Tool_Error b c er p) = (c \<noteq> cid)"
| "neutral cid e = True"

lemma callID_updates [simp]:
  "callID (tool_input_delta d t) = callID t" "callID (tool_called ts inp t) = callID t"
  "callID (tool_success out ti md att t) = callID t" "callID (tool_error er md t) = callID t"
  by (simp_all add: tool_input_delta_def tool_called_def tool_success_def tool_error_def split: tool_state.split)

lemma is_tool_on_tool: "(\<And>t. callID (f t) = callID t) \<Longrightarrow> is_tool cid (on_tool f c) = is_tool cid c"
  by (cases c) (simp_all add: is_tool_def on_tool_def)

lemma is_tool_on_text [simp]: "is_tool cid (on_text f c) = is_tool cid c"
  by (cases c) (simp_all add: is_tool_def on_text_def)

lemma is_tool_kinds: "is_text c \<Longrightarrow> \<not> is_tool cid c" "is_reasoning c \<Longrightarrow> \<not> is_tool cid c"
  "is_tool cid' c \<Longrightarrow> cid \<noteq> cid' \<Longrightarrow> \<not> is_tool cid c"
  by (cases c; simp add: is_tool_def is_text_def is_reasoning_def)+

lemma tool_of_on_current:
  assumes "mem_getCurrentAssistant st = Some a" "as_completed (f a) = None"
    and "findLast (is_tool cid) (as_content (f a)) = map_option (on_tool g) (findLast (is_tool cid) (as_content a))"
  shows "tool_of cid (on_current memory f st) = map_option g (tool_of cid st)"
  using on_current_current [of st a f, OF assms(1,2)] assms(1,3)
  by (auto simp: tool_of_def on_tool_def split: option.split assistant_content.splits)

lemma tool_of_latestTool:
  assumes "mem_getCurrentAssistant st = Some a" "\<And>t. callID (g t) = callID t"
  shows "tool_of cid (on_current memory (latestTool cid g) st) = map_option g (tool_of cid st)"
proof (rule tool_of_on_current [where a = a])
  have c: "as_completed a = None" using assms(1) by (rule step_current)
  then show "as_completed (latestTool cid g a) = None" by simp
  show "findLast (is_tool cid) (as_content (latestTool cid g a)) =
      map_option (on_tool g) (findLast (is_tool cid) (as_content a))"
    by (simp add: latestTool_def findLast_update_last is_tool_on_tool assms(2))
qed (rule assms(1))

lemma tool_of_neutral:
  assumes "mem_getCurrentAssistant st = Some a" "neutral cid e"
  shows "tool_of cid (step st e) = tool_of cid st \<and> mem_getCurrentAssistant (step st e) \<noteq> None"
proof -
  have c: "as_completed a = None" using assms(1) by (rule step_current)
  have upd: "tool_of cid (on_current memory f st) = tool_of cid st \<and> mem_getCurrentAssistant (on_current memory f st) \<noteq> None"
    if "as_completed (f a) = None" "findLast (is_tool cid) (as_content (f a)) = findLast (is_tool cid) (as_content a)" for f
    using on_current_current [of st a f, OF assms(1) that(1)] assms(1) that(2) by (simp add: tool_of_def)
  have app: "tool_of cid (st\<lparr>entries := entries st @ [x]\<rparr>) = tool_of cid st \<and>
      mem_getCurrentAssistant (st\<lparr>entries := entries st @ [x]\<rparr>) \<noteq> None" if "\<not> is_active x" for x
    using append_current [OF assms(1) that] assms(1) by (simp add: tool_of_def)
  have oth: "findLast (is_tool cid) (as_content (latestTool cid' g a)) = findLast (is_tool cid) (as_content a)"
    if "cid' \<noteq> cid" "\<And>t. callID (g t) = callID t" for cid' g
    unfolding latestTool_def by simp (rule findLast_update_other, use that in \<open>auto simp: is_tool_on_tool dest: is_tool_kinds(3) [of cid' _ cid]\<close>)
  have tx: "findLast (is_tool cid) (as_content (latestText g a)) = findLast (is_tool cid) (as_content a)"
    "findLast (is_tool cid) (as_content (latestReasoning g a)) = findLast (is_tool cid) (as_content a)" for g
    unfolding latestText_def latestReasoning_def by (simp_all, (rule findLast_update_other, simp add: is_tool_kinds)+)
  have push: "findLast (is_tool cid) (as_content (push_content x a)) = findLast (is_tool cid) (as_content a)"
    if "\<not> is_tool cid x" for x
    using that by (simp add: push_content_def)
  show ?thesis
    by (cases e; use assms(2) in \<open>simp only: step_def stepWith.simps memory_append assms(1) option.case neutral.simps\<close>;
        ((rule upd | rule app), simp_all add: c tx oth push is_tool_def)?)
       (simp_all add: tool_of_def assms(1))
qed

lemma tool_of_neutrals:
  "mem_getCurrentAssistant st \<noteq> None \<Longrightarrow> list_all (neutral cid) es \<Longrightarrow>
   tool_of cid (run_log st es) = tool_of cid st \<and> mem_getCurrentAssistant (run_log st es) \<noteq> None"
proof (induction es arbitrary: st)
  case (Cons e es)
  then obtain a where "mem_getCurrentAssistant st = Some a" by auto
  with Cons.prems(2) have "tool_of cid (step st e) = tool_of cid st" "mem_getCurrentAssistant (step st e) \<noteq> None"
    using tool_of_neutral [of st a cid e] by auto
  with Cons.IH [of "step st e"] Cons.prems(2) show ?case by simp
qed simp

lemma step_tool_started:
  assumes "mem_getCurrentAssistant st = Some a"
  shows "tool_of cid (step st (Tool_Input_Started b cid nm)) =
      Some \<lparr>callID = cid, tool_name = nm, tool_created = ev_timestamp b, tool_ran = None, tool_st = ToolStatePending []\<rparr> \<and>
    mem_getCurrentAssistant (step st (Tool_Input_Started b cid nm)) \<noteq> None"
proof -
  have "as_completed a = None" using assms by (rule step_current)
  then show ?thesis
    using on_current_current [OF assms, of "push_content (AssistantTool \<lparr>callID = cid, tool_name = nm,
      tool_created = ev_timestamp b, tool_ran = None, tool_st = ToolStatePending []\<rparr>)"]
    by (simp add: step_def tool_of_def push_content_def is_tool_def)
qed

lemma step_tool_update:
  assumes "mem_getCurrentAssistant st \<noteq> None"
  shows "tool_of cid (step st (Tool_Called b cid nm inp p)) = map_option (tool_called (ev_timestamp b) inp) (tool_of cid st)"
    "tool_of cid (step st (Tool_Success b cid ti out att p)) = map_option (tool_success out ti (ev_metadata b) att) (tool_of cid st)"
    "tool_of cid (step st (Tool_Error b cid er p)) = map_option (tool_error er (ev_metadata b)) (tool_of cid st)"
    "mem_getCurrentAssistant (step st (Tool_Called b cid nm inp p)) \<noteq> None"
proof -
  obtain a where a: "mem_getCurrentAssistant st = Some a" using assms by auto
  have c: "as_completed a = None" using a by (rule step_current)
  note u = tool_of_latestTool [OF a, of _ cid]
  show "tool_of cid (step st (Tool_Called b cid nm inp p)) = map_option (tool_called (ev_timestamp b) inp) (tool_of cid st)"
    "tool_of cid (step st (Tool_Success b cid ti out att p)) = map_option (tool_success out ti (ev_metadata b) att) (tool_of cid st)"
    "tool_of cid (step st (Tool_Error b cid er p)) = map_option (tool_error er (ev_metadata b)) (tool_of cid st)"
    by (simp_all add: step_def u)
  show "mem_getCurrentAssistant (step st (Tool_Called b cid nm inp p)) \<noteq> None"
    using on_current_current [OF a, of "latestTool cid (tool_called (ev_timestamp b) inp)"] c by (simp add: step_def)
qed



end
