(* ===== verification/Sync.thy ===== *)
theory Sync
  imports JS_Prelude
begin

text \<open>
  The sync event log, \<open>sync/index.ts\<close>: event definitions and their versions, the projectors,
  and the operations that append, replay and remove events of an aggregate.

  The global database is the sequence table and the event table, the project database an arbitrary
  state a projector maps to a new one (\<open>None\<close> when it throws). A projector runs in a transaction
  of the project database that is committed before the event is recorded in the global one. An
  event's data is its list of fields; a definition object is identified by the number of its
  \<open>define\<close> call. Publications are a trace.
\<close>

section \<open>Definitions of events\<close>

type_synonym event_data = "(jstring \<times> jstring) list"

record 'z event_definition =
  def_obj :: nat
  def_type :: jstring
  def_version :: nat
  def_aggregate :: jstring
  def_schema :: 'z
  def_properties :: 'z

record 'z define_input =
  in_type :: jstring
  in_version :: nat
  in_aggregate :: jstring
  in_schema :: 'z
  in_busSchema :: "'z option"

record sync_event =
  ev_id :: jstring
  ev_seq :: int
  ev_aggregateID :: jstring
  ev_data :: event_data

record serialized_event = sync_event +
  ev_type :: jstring

type_synonym 'p projector = "'p \<Rightarrow> event_data \<Rightarrow> 'p option"

datatype convert_result = Sync_Result event_data | Async_Result "event_data option"

record ('z, 'p) sync_system =
  registry :: "(jstring \<times> 'z event_definition) list"
  projectors :: "(nat \<times> 'p projector) list option"
  versions :: "(jstring \<times> nat) list"
  frozen :: bool
  bus_defs :: "(jstring \<times> 'z) list"
  next_obj :: nat

datatype sync_error =
    Frozen
  | NoProjectors
  | ProjectorNotFound jstring
  | ProjectorThrew
  | DuplicateEventId jstring
  | UnknownEventType jstring
  | SequenceMismatch jstring int int
  | MixedAggregates
  | ReplayMismatch nat int int
  | MissingAggregate jstring
  | OldVersion jstring

definition versionedType :: "jstring \<Rightarrow> nat \<Rightarrow> jstring" where
  "versionedType t v = (if v \<noteq> 0 then t @ [46] @ decimal v else t)"

definition reset :: "('z, 'p) sync_system \<Rightarrow> ('z, 'p) sync_system" where
  "reset sys = sys\<lparr>frozen := False, projectors := None\<rparr>"

definition define_event :: "'z define_input \<Rightarrow> ('z, 'p) sync_system \<Rightarrow> sync_error + ('z event_definition \<times> ('z, 'p) sync_system)" where
  "define_event input sys =
     (if frozen sys then Inl Frozen
      else let def = \<lparr>def_obj = next_obj sys, def_type = in_type input, def_version = in_version input,
                      def_aggregate = in_aggregate input, def_schema = in_schema input,
                      def_properties = (case in_busSchema input of Some b \<Rightarrow> b | None \<Rightarrow> in_schema input)\<rparr>;
               old = (case jmap_get (versions sys) (def_type def) of Some v \<Rightarrow> v | None \<Rightarrow> 0)
           in Inr (def, sys\<lparr>versions := jmap_set (def_type def) (max (def_version def) old) (versions sys),
                            registry := jmap_set (versionedType (def_type def) (def_version def)) def (registry sys),
                            next_obj := Suc (next_obj sys)\<rparr>))"

text \<open>\<open>new Map(pairs)\<close>: later pairs win.\<close>

definition new_map :: "('k \<times> 'v) list \<Rightarrow> ('k \<times> 'v) list" where
  "new_map ps = fold (\<lambda>(k, v) m. jmap_set k v m) ps []"

definition init ::
  "('z event_definition \<times> 'p projector) list \<Rightarrow> ('z, 'p) sync_system \<Rightarrow> ('z, 'p) sync_system option" where
  "init ps sys =
     (if list_all (\<lambda>(t, v). jmap_get (registry sys) (versionedType t v) \<noteq> None) (versions sys)
      then Some (sys\<lparr>projectors := Some (new_map (map (\<lambda>(d, f). (def_obj d, f)) ps)),
                     bus_defs := bus_defs sys @
                       map (\<lambda>(t, v). let d = the (jmap_get (registry sys) (versionedType t v))
                                     in (def_type d, def_properties d)) (versions sys),
                     frozen := True\<rparr>)
      else None)"

definition project :: "'z event_definition \<Rightarrow> 'p projector \<Rightarrow> 'z event_definition \<times> 'p projector" where
  "project def f = (def, f)"

section \<open>The databases\<close>

record event_row =
  row_id :: jstring
  row_seq :: int
  row_aggregate_id :: jstring
  row_type :: jstring
  row_data :: event_data

datatype sync_call =
    BusPublish jstring event_data
  | BusPublishLater jstring "event_data option"
  | GlobalEmit jstring sync_event

record 'p sync_db =
  sequences :: "(jstring \<times> int) list"
  events :: "event_row list"
  project_db :: 'p
  published :: "sync_call list"

section \<open>Operations\<close>

definition publish_calls ::
  "(jstring \<Rightarrow> event_data \<Rightarrow> convert_result) \<Rightarrow> 'z event_definition \<Rightarrow> sync_event \<Rightarrow> sync_call list" where
  "publish_calls convertEvent def event =
     [case convertEvent (def_type def) (ev_data event) of
        Sync_Result d \<Rightarrow> BusPublish (def_type def) d
      | Async_Result d \<Rightarrow> BusPublishLater (def_type def) d,
      GlobalEmit (versionedType (def_type def) (def_version def)) event]"

definition process ::
  "bool \<Rightarrow> (jstring \<Rightarrow> event_data \<Rightarrow> convert_result) \<Rightarrow> ('z, 'p) sync_system \<Rightarrow>
   'z event_definition \<Rightarrow> sync_event \<Rightarrow> bool \<Rightarrow> 'p sync_db \<Rightarrow> sync_error option \<times> 'p sync_db" where
  "process workspaces convertEvent sys def event publish db =
     (case projectors sys of
        None \<Rightarrow> (Some NoProjectors, db)
      | Some ps \<Rightarrow>
          (case jmap_get ps (def_obj def) of
             None \<Rightarrow> (Some (ProjectorNotFound (def_type def)), db)
           | Some projector \<Rightarrow>
               (case projector (project_db db) (ev_data event) of
                  None \<Rightarrow> (Some ProjectorThrew, db)
                | Some p \<Rightarrow>
                    (let db1 = db\<lparr>project_db := p\<rparr>
                     in if workspaces \<and> ev_id event \<in> set (map row_id (events db))
                        then (Some (DuplicateEventId (ev_id event)), db1)
                        else let db2 =
                               (if workspaces
                                then db1\<lparr>sequences := jmap_set (ev_aggregateID event) (ev_seq event) (sequences db1),
                                         events := events db1 @
                                           [\<lparr>row_id = ev_id event, row_seq = ev_seq event,
                                             row_aggregate_id = ev_aggregateID event,
                                             row_type = versionedType (def_type def) (def_version def),
                                             row_data = ev_data event\<rparr>]\<rparr>
                                else db1)
                             in (None, if publish
                                       then db2\<lparr>published := published db2 @ publish_calls convertEvent def event\<rparr>
                                       else db2)))))"

definition latest :: "'p sync_db \<Rightarrow> jstring \<Rightarrow> int" where
  "latest db agg = (case jmap_get (sequences db) agg of Some s \<Rightarrow> s | None \<Rightarrow> -1)"

definition replay ::
  "bool \<Rightarrow> (jstring \<Rightarrow> event_data \<Rightarrow> convert_result) \<Rightarrow> ('z, 'p) sync_system \<Rightarrow>
   bool \<Rightarrow> serialized_event \<Rightarrow> 'p sync_db \<Rightarrow> sync_error option \<times> 'p sync_db" where
  "replay workspaces convertEvent sys publish event db =
     (case jmap_get (registry sys) (ev_type event) of
        None \<Rightarrow> (Some (UnknownEventType (ev_type event)), db)
      | Some def \<Rightarrow>
          (let l = latest db (ev_aggregateID event)
           in if ev_seq event \<le> l then (None, db)
              else if ev_seq event \<noteq> l + 1
                   then (Some (SequenceMismatch (ev_aggregateID event) (l + 1) (ev_seq event)), db)
              else process workspaces convertEvent sys def (sync_event.truncate event) publish db))"

fun replay_each ::
  "bool \<Rightarrow> (jstring \<Rightarrow> event_data \<Rightarrow> convert_result) \<Rightarrow> ('z, 'p) sync_system \<Rightarrow>
   bool \<Rightarrow> serialized_event list \<Rightarrow> 'p sync_db \<Rightarrow> sync_error option \<times> 'p sync_db" where
  "replay_each workspaces convertEvent sys publish [] db = (None, db)"
| "replay_each workspaces convertEvent sys publish (e # es) db =
     (case replay workspaces convertEvent sys publish e db of
        (Some err, db') \<Rightarrow> (Some err, db')
      | (None, db') \<Rightarrow> replay_each workspaces convertEvent sys publish es db')"

fun check_contiguous :: "nat \<Rightarrow> int \<Rightarrow> serialized_event list \<Rightarrow> sync_error option" where
  "check_contiguous i seq [] = None"
| "check_contiguous i seq (e # es) =
     (if ev_seq e \<noteq> seq then Some (ReplayMismatch i seq (ev_seq e)) else check_contiguous (Suc i) (seq + 1) es)"

text \<open>The second component is the returned aggregate, \<open>None\<close> for \<open>undefined\<close>.\<close>

definition replayAll ::
  "bool \<Rightarrow> (jstring \<Rightarrow> event_data \<Rightarrow> convert_result) \<Rightarrow> ('z, 'p) sync_system \<Rightarrow>
   bool \<Rightarrow> serialized_event list \<Rightarrow> 'p sync_db \<Rightarrow> (sync_error + jstring option) \<times> 'p sync_db" where
  "replayAll workspaces convertEvent sys publish es db =
     (case es of
        [] \<Rightarrow> (Inr None, db)
      | e # _ \<Rightarrow>
          (let source = ev_aggregateID e
           in if source = [] then (Inr None, db)
              else if list_ex (\<lambda>x. ev_aggregateID x \<noteq> source) es then (Inl MixedAggregates, db)
              else case check_contiguous 0 (ev_seq e) es of
                     Some err \<Rightarrow> (Inl err, db)
                   | None \<Rightarrow>
                       (case replay_each workspaces convertEvent sys publish es db of
                          (Some err, db') \<Rightarrow> (Inl err, db')
                        | (None, db') \<Rightarrow> (Inr (Some source), db'))))"

text \<open>\<open>eid\<close> is the identifier \<open>EventID.ascending()\<close> returns.\<close>

definition run ::
  "bool \<Rightarrow> (jstring \<Rightarrow> event_data \<Rightarrow> convert_result) \<Rightarrow> ('z, 'p) sync_system \<Rightarrow>
   jstring \<Rightarrow> 'z event_definition \<Rightarrow> event_data \<Rightarrow> bool \<Rightarrow> 'p sync_db \<Rightarrow> sync_error option \<times> 'p sync_db" where
  "run workspaces convertEvent sys eid def data publish db =
     (case map_of data (def_aggregate def) of
        None \<Rightarrow> (Some (MissingAggregate (def_aggregate def)), db)
      | Some agg \<Rightarrow>
          if jmap_get (versions sys) (def_type def) \<noteq> Some (def_version def)
          then (Some (OldVersion (def_type def)), db)
          else let seq = (case jmap_get (sequences db) agg of Some s \<Rightarrow> s + 1 | None \<Rightarrow> 0)
               in process workspaces convertEvent sys def
                    \<lparr>ev_id = eid, ev_seq = seq, ev_aggregateID = agg, ev_data = data\<rparr> publish db)"

definition remove :: "jstring \<Rightarrow> 'p sync_db \<Rightarrow> 'p sync_db" where
  "remove agg db =
     db\<lparr>sequences := jmap_delete agg (sequences db),
        events := filter (\<lambda>r. row_aggregate_id r \<noteq> agg) (events db)\<rparr>"

section \<open>The event log of an aggregate\<close>

definition agg_rows :: "'p sync_db \<Rightarrow> jstring \<Rightarrow> event_row list" where
  "agg_rows db a = filter (\<lambda>r. row_aggregate_id r = a) (events db)"

text \<open>The rows of every aggregate are numbered from 0 without gaps, and the sequence table holds the last number.\<close>

definition log_ok :: "'p sync_db \<Rightarrow> bool" where
  "log_ok db \<longleftrightarrow>
     (\<forall>a. map row_seq (agg_rows db a) = map int [0..<length (agg_rows db a)] \<and>
          jmap_get (sequences db) a =
            (if agg_rows db a = [] then None else Some (int (length (agg_rows db a)) - 1)))"

lemma latest_log_ok: "log_ok db \<Longrightarrow> latest db a = int (length (agg_rows db a)) - 1"
  by (auto simp: log_ok_def latest_def)

text \<open>What a processed event changes.\<close>

definition recorded :: "bool \<Rightarrow> sync_event \<Rightarrow> jstring \<Rightarrow> 'p sync_db \<Rightarrow> 'p sync_db \<Rightarrow> bool" where
  "recorded ok e ty db db' \<longleftrightarrow>
     (if ok then sequences db' = jmap_set (ev_aggregateID e) (ev_seq e) (sequences db) \<and>
                 events db' = events db @ [\<lparr>row_id = ev_id e, row_seq = ev_seq e, row_aggregate_id = ev_aggregateID e,
                                            row_type = ty, row_data = ev_data e\<rparr>]
      else sequences db' = sequences db \<and> events db' = events db)"

lemma process_recorded:
  "process True conv sys def e pub db = (err, db') \<Longrightarrow>
   recorded (err = None) e (versionedType (def_type def) (def_version def)) db db'"
  by (auto simp: process_def recorded_def Let_def split: option.splits if_splits)

lemma recorded_log_ok:
  assumes "recorded b e ty db db'" "log_ok db" "ev_seq e = latest db (ev_aggregateID e) + 1"
  shows "log_ok db'"
proof (cases b)
  case False
  then show ?thesis using assms by (simp add: recorded_def log_ok_def agg_rows_def)
next
  case True
  have rows: "agg_rows db' a = agg_rows db a @ (if a = ev_aggregateID e
      then [\<lparr>row_id = ev_id e, row_seq = ev_seq e, row_aggregate_id = ev_aggregateID e, row_type = ty, row_data = ev_data e\<rparr>] else [])" for a
    using assms(1) True by (simp add: recorded_def agg_rows_def)
  have "ev_seq e = int (length (agg_rows db (ev_aggregateID e)))"
    using assms(3) latest_log_ok [OF assms(2)] by simp
  then show ?thesis
    using assms(1,2) True unfolding log_ok_def rows
    by (auto simp: recorded_def update_conv')
qed

lemma remove_log_ok: "log_ok db \<Longrightarrow> log_ok (remove a db)"
  by (auto simp: log_ok_def remove_def agg_rows_def delete_conv' filter_filter conj_commute cong: conj_cong)

lemma run_log_ok:
  "run True conv sys eid def data pub db = (err, db') \<Longrightarrow> log_ok db \<Longrightarrow> log_ok db'"
  unfolding run_def Let_def
  by (auto split: option.splits if_splits dest!: process_recorded elim!: recorded_log_ok simp: latest_def)

lemma replay_log_ok:
  "replay True conv sys pub e db = (err, db') \<Longrightarrow> log_ok db \<Longrightarrow> log_ok db'"
  unfolding replay_def Let_def
  by (auto split: option.splits if_splits dest!: process_recorded elim!: recorded_log_ok simp: sync_event.truncate_def)

lemma replay_each_log_ok:
  "replay_each True conv sys pub es db = (err, db') \<Longrightarrow> log_ok db \<Longrightarrow> log_ok db'"
  by (induction es arbitrary: db) (auto split: prod.splits option.splits dest: replay_log_ok)

lemma replayAll_log_ok:
  "replayAll True conv sys pub es db = (r, db') \<Longrightarrow> log_ok db \<Longrightarrow> log_ok db'"
  unfolding replayAll_def Let_def
  by (auto split: list.splits option.splits if_splits prod.splits dest: replay_log_ok replay_each_log_ok)

inductive sync_step :: "('z, 'p) sync_system \<Rightarrow> 'p sync_db \<Rightarrow> 'p sync_db \<Rightarrow> bool" where
  step_run: "run True conv sys eid def data pub db = (err, db') \<Longrightarrow> sync_step sys db db'"
| step_replay: "replay True conv sys pub e db = (err, db') \<Longrightarrow> sync_step sys db db'"
| step_replayAll: "replayAll True conv sys pub es db = (r, db') \<Longrightarrow> sync_step sys db db'"
| step_remove: "sync_step sys db (remove a db)"

definition empty_db :: "'p \<Rightarrow> 'p sync_db" where
  "empty_db p = \<lparr>sequences = [], events = [], project_db = p, published = []\<rparr>"

lemma sync_step_log_ok: "sync_step sys db db' \<Longrightarrow> log_ok db \<Longrightarrow> log_ok db'"
  by (induction rule: sync_step.induct)
     (auto dest: run_log_ok replay_log_ok replayAll_log_ok intro: remove_log_ok)

lemma reachable_log_ok: "(sync_step sys)\<^sup>*\<^sup>* (empty_db p) db \<Longrightarrow> log_ok db"
  by (induction rule: rtranclp_induct)
     (simp_all add: log_ok_def empty_db_def agg_rows_def sync_step_log_ok [unfolded log_ok_def agg_rows_def])

section \<open>Replaying\<close>

text \<open>What the projector of an event does to the project database.\<close>

definition applies :: "('z, 'p) sync_system \<Rightarrow> serialized_event \<Rightarrow> 'p \<Rightarrow> 'p option" where
  "applies sys e p =
     (case jmap_get (registry sys) (ev_type e) of
        None \<Rightarrow> None
      | Some def \<Rightarrow>
          (case projectors sys of
             None \<Rightarrow> None
           | Some ps \<Rightarrow> (case jmap_get ps (def_obj def) of None \<Rightarrow> None | Some f \<Rightarrow> f p (ev_data e))))"

fun apply_all :: "('z, 'p) sync_system \<Rightarrow> serialized_event list \<Rightarrow> 'p \<Rightarrow> 'p option" where
  "apply_all sys [] p = Some p"
| "apply_all sys (e # es) p = (case applies sys e p of None \<Rightarrow> None | Some p' \<Rightarrow> apply_all sys es p')"

lemma replay_next:
  assumes "applies sys e (project_db db) = Some p" "ev_seq e = latest db (ev_aggregateID e) + 1"
    and "ev_id e \<notin> row_id ` set (events db)"
  shows "\<exists>db'. replay True conv sys pub e db = (None, db') \<and> project_db db' = p \<and>
           latest db' (ev_aggregateID e) = ev_seq e \<and> row_id ` set (events db') = insert (ev_id e) (row_id ` set (events db))"
  using assms unfolding applies_def replay_def process_def Let_def
  by (auto split: option.splits simp: sync_event.truncate_def latest_def update_conv')

lemma replay_seen:
  "jmap_get (registry sys) (ev_type e) \<noteq> None \<Longrightarrow> ev_seq e \<le> latest db (ev_aggregateID e) \<Longrightarrow>
   replay ws conv sys pub e db = (None, db)"
  by (auto simp: replay_def)

lemma replay_each_new:
  assumes "apply_all sys es (project_db db) = Some p"
    and "check_contiguous i (latest db a + 1) es = None"
    and "\<forall>e\<in>set es. ev_aggregateID e = a"
    and "distinct (map ev_id es)" "ev_id ` set es \<inter> row_id ` set (events db) = {}"
  shows "\<exists>db'. replay_each True conv sys pub es db = (None, db') \<and> project_db db' = p \<and>
           latest db' a = latest db a + int (length es)"
  using assms
proof (induction es arbitrary: db i)
  case (Cons e es)
  then obtain q where q: "applies sys e (project_db db) = Some q" "apply_all sys es q = Some p"
    by (auto split: option.splits)
  have seq: "ev_seq e = latest db a + 1" "check_contiguous (Suc i) (latest db a + 1 + 1) es = None"
    using Cons.prems(2) by (auto split: if_splits)
  obtain db1 where db1: "replay True conv sys pub e db = (None, db1)" "project_db db1 = q" "latest db1 a = latest db a + 1"
    "row_id ` set (events db1) = insert (ev_id e) (row_id ` set (events db))"
    using replay_next [OF q(1), of conv pub] Cons.prems(3,5) seq(1) by auto
  have "\<exists>db'. replay_each True conv sys pub es db1 = (None, db') \<and> project_db db' = p \<and>
      latest db' a = latest db1 a + int (length es)"
    by (rule Cons.IH [of _ "Suc i"]) (use Cons.prems q seq db1 in auto)
  then show ?case using db1 by auto
qed auto

lemma replay_each_seen:
  "\<forall>e\<in>set es. jmap_get (registry sys) (ev_type e) \<noteq> None \<and> ev_aggregateID e = a \<and> ev_seq e \<le> latest db a \<Longrightarrow>
   replay_each ws conv sys pub (es @ es') db = replay_each ws conv sys pub es' db"
  by (induction es) (auto simp: replay_seen)

lemma check_contiguous_nth:
  "check_contiguous i s es = None \<Longrightarrow> k < length es \<Longrightarrow> ev_seq (es ! k) = s + int k"
proof (induction es arbitrary: i s k)
  case (Cons e es)
  then show ?case by (cases k) (auto split: if_splits)
qed simp

lemma check_contiguous_drop:
  "check_contiguous i s es = None \<Longrightarrow> check_contiguous (i + k) (s + int k) (drop k es) = None"
proof (induction es arbitrary: i s k)
  case (Cons e es)
  then show ?case
  proof (cases k)
    case (Suc m)
    then have "check_contiguous (Suc i) (s + 1) es = None" using Cons.prems by (simp split: if_splits)
    from Cons.IH [OF this, of m] Suc show ?thesis by (simp add: algebra_simps)
  qed simp
qed simp


section \<open>Properties\<close>

text \<open>
  C16. In every history of runs, replays and removals (whatever fails in it), the stored events of
  each aggregate are numbered 0, 1, 2, ... without gaps or repetition in the order they were stored,
  and the sequence table holds the number of the last one.
\<close>

theorem event_log_contiguous:
  assumes "(sync_step sys)\<^sup>*\<^sup>* (empty_db p) db"
  shows "map row_seq (agg_rows db a) = map int [0..<length (agg_rows db a)] \<and>
         jmap_get (sequences db) a =
           (if agg_rows db a = [] then None else Some (int (length (agg_rows db a)) - 1))"
  using reachable_log_ok [OF assms] unfolding log_ok_def by blast

theorem event_log_contiguous_witness:
  "let d = \<lparr>def_obj = 0, def_type = js ''t'', def_version = 1, def_aggregate = js ''k'', def_schema = (), def_properties = ()\<rparr>;
       sys = \<lparr>registry = [(js ''t.1'', d)], projectors = Some [(0, \<lambda>p x. Some (Suc p))], versions = [(js ''t'', 1)],
              frozen = True, bus_defs = [], next_obj = 1\<rparr>;
       run1 = run True (\<lambda>t x. Sync_Result x) sys;
       db1 = snd (run1 (js ''e1'') d [(js ''k'', js ''a'')] True (empty_db 0));
       db2 = snd (run1 (js ''e2'') d [(js ''k'', js ''a'')] True db1)
   in map row_seq (agg_rows db2 (js ''a'')) = [0, 1] \<and> map row_seq (agg_rows db2 (js ''a'')) =
        map int [0..<length (agg_rows db2 (js ''a''))]"
proof -
  let ?d = "\<lparr>def_obj = 0, def_type = js ''t'', def_version = 1, def_aggregate = js ''k'', def_schema = (), def_properties = ()\<rparr>"
  let ?sys = "\<lparr>registry = [(js ''t.1'', ?d)], projectors = Some [(0, \<lambda>p x. Some (Suc p))], versions = [(js ''t'', 1)],
              frozen = True, bus_defs = [], next_obj = 1\<rparr>"
  let ?run = "run True (\<lambda>t x. Sync_Result x) ?sys"
  let ?db1 = "snd (?run (js ''e1'') ?d [(js ''k'', js ''a'')] True (empty_db 0))"
  let ?db2 = "snd (?run (js ''e2'') ?d [(js ''k'', js ''a'')] True ?db1)"
  have "sync_step ?sys (empty_db 0) ?db1" "sync_step ?sys ?db1 ?db2"
    by (rule step_run [OF surjective_pairing])+
  then have "(sync_step ?sys)\<^sup>*\<^sup>* (empty_db 0) ?db2" by simp
  note event_log_contiguous [OF this, of "js ''a''", THEN conjunct1]
  moreover have "map row_seq (agg_rows ?db2 (js ''a'')) = [0, 1]" by code_simp
  ultimately show ?thesis unfolding Let_def by blast
qed



end
