(* ===== verification/Binary.thy ===== *)
theory Binary
  imports JS_Prelude "HOL-Library.List_Lexorder"
begin

text \<open>
  Arrays kept sorted by an identifier, \<open>shared/src/util/binary.ts\<close>: \<open>search\<close> and \<open>insert\<close>, and the
  two updates its clients build on them, replacing or splicing in an item (\<open>upsert\<close>) and splicing
  one out (\<open>remove_id\<close>). Identifiers are strings compared by code unit, which is the
  lexicographic order on the list of units.
\<close>

section \<open>Search and insertion\<close>

text \<open>The loop variables are integers: \<open>right\<close> is \<open>-1\<close> for an empty array.\<close>

function search_loop :: "'a list \<Rightarrow> 'k::linorder \<Rightarrow> ('a \<Rightarrow> 'k) \<Rightarrow> int \<Rightarrow> int \<Rightarrow> bool \<times> nat" where
  "search_loop array i compare left right =
     (if left \<le> right then
        let mid = (left + right) div 2; midId = compare (array ! nat mid)
        in if midId = i then (True, nat mid)
           else if midId < i then search_loop array i compare (mid + 1) right
           else search_loop array i compare left (mid - 1)
      else (False, nat left))"
  by pat_completeness auto
termination
  by (relation "measure (\<lambda>(array, i, compare, left, right). nat (right - left + 1))") auto

declare search_loop.simps [simp del]

definition search :: "'a list \<Rightarrow> 'k::linorder \<Rightarrow> ('a \<Rightarrow> 'k) \<Rightarrow> bool \<times> nat" where
  "search array i compare = search_loop array i compare 0 (int (length array) - 1)"

function insert_loop :: "'a list \<Rightarrow> 'k::linorder \<Rightarrow> ('a \<Rightarrow> 'k) \<Rightarrow> nat \<Rightarrow> nat \<Rightarrow> nat" where
  "insert_loop array i compare left right =
     (if left < right then
        let mid = (left + right) div 2
        in if compare (array ! mid) < i then insert_loop array i compare (mid + 1) right
           else insert_loop array i compare left mid
      else left)"
  by pat_completeness auto
termination
  by (relation "measure (\<lambda>(array, i, compare, left, right). right - left)") auto

declare insert_loop.simps [simp del]

text \<open>\<open>array.splice(at, 0, item)\<close> and \<open>array.splice(at, 1)\<close>.\<close>

definition splice_in :: "nat \<Rightarrow> 'a \<Rightarrow> 'a list \<Rightarrow> 'a list" where
  "splice_in at item xs = take at xs @ item # drop at xs"

definition splice_out :: "nat \<Rightarrow> 'a list \<Rightarrow> 'a list" where
  "splice_out at xs = take at xs @ drop (Suc at) xs"

definition binary_insert :: "'a list \<Rightarrow> 'a \<Rightarrow> ('a \<Rightarrow> 'k::linorder) \<Rightarrow> 'a list" where
  "binary_insert array item compare =
     splice_in (insert_loop array (compare item) compare 0 (length array)) item array"

definition upsert :: "('a \<Rightarrow> 'k::linorder) \<Rightarrow> 'a \<Rightarrow> 'a list \<Rightarrow> 'a list" where
  "upsert key item xs =
     (case search xs (key item) key of
        (True, i) \<Rightarrow> xs[i := item]
      | (False, i) \<Rightarrow> splice_in i item xs)"

definition remove_id :: "('a \<Rightarrow> 'k::linorder) \<Rightarrow> 'k \<Rightarrow> 'a list \<Rightarrow> 'a list" where
  "remove_id key k xs =
     (case search xs k key of (True, i) \<Rightarrow> splice_out i xs | (False, i) \<Rightarrow> xs)"

definition find_id :: "('a \<Rightarrow> 'k) \<Rightarrow> 'a list \<Rightarrow> 'k \<Rightarrow> 'a option" where
  "find_id key xs k = find (\<lambda>x. key x = k) xs"

section \<open>Sorted by identifier\<close>

definition sorted_ids :: "('a \<Rightarrow> 'k::linorder) \<Rightarrow> 'a list \<Rightarrow> bool" where
  "sorted_ids key xs \<longleftrightarrow> sorted_wrt (<) (map key xs)"

text \<open>The number of items before an identifier.\<close>

definition rank :: "('a \<Rightarrow> 'k::linorder) \<Rightarrow> 'k \<Rightarrow> 'a list \<Rightarrow> nat" where
  "rank key k xs = length (takeWhile (\<lambda>x. key x < k) xs)"

lemma sorted_ids_less: "sorted_ids key xs \<Longrightarrow> i < j \<Longrightarrow> j < length xs \<Longrightarrow> key (xs ! i) < key (xs ! j)"
  by (auto simp: sorted_ids_def sorted_wrt_iff_nth_less)

lemma rank_eqI:
  assumes "r \<le> length xs" "\<And>i. i < r \<Longrightarrow> key (xs ! i) < k" "r < length xs \<Longrightarrow> \<not> key (xs ! r) < k"
  shows "rank key k xs = r"
proof -
  have "takeWhile (\<lambda>x. key x < k) xs = take r xs"
    using assms by (intro takeWhile_eq_take_P_nth) auto
  then show ?thesis using assms(1) by (simp add: rank_def)
qed

text \<open>The invariant of the search: the identifier is not left of \<open>left\<close> and not right of \<open>right\<close>.\<close>

lemma search_loop_rank:
  assumes "sorted_ids key xs" "0 \<le> left" "right < int (length xs)" "left \<le> right + 1"
    and "\<And>i. int i < left \<Longrightarrow> key (xs ! i) < k"
    and "\<And>i. right < int i \<Longrightarrow> i < length xs \<Longrightarrow> k < key (xs ! i)"
  shows "search_loop xs k key left right = (k \<in> key ` set xs, rank key k xs)"
  using assms
proof (induction xs k key left right rule: search_loop.induct)
  case (1 xs k key left right)
  show ?case
  proof (cases "left \<le> right")
    case False
    then have l: "left = right + 1" using 1 by simp
    have "rank key k xs = nat left"
    proof (rule rank_eqI)
      show "nat left \<le> length xs" using 1(4,5) l by linarith
      show "key (xs ! i) < k" if "i < nat left" for i using 1(7) [of i] that by linarith
      show "\<not> key (xs ! nat left) < k" if "nat left < length xs"
        using 1(8) [of "nat left"] that 1(4) l by auto
    qed
    moreover have "k \<notin> key ` set xs"
    proof
      assume "k \<in> key ` set xs"
      then obtain i where "i < length xs" "key (xs ! i) = k" by (auto simp: in_set_conv_nth)
      then show False using 1(7) [of i] 1(8) [of i] l by (cases "int i < left") auto
    qed
    ultimately show ?thesis using False by (simp add: search_loop.simps)
  next
    case True
    define mid where "mid = (left + right) div 2"
    have m: "left \<le> mid" "mid \<le> right" using True by (auto simp: mid_def)
    then have b: "nat mid < length xs" "0 \<le> mid" using 1 by auto
    have below: "key (xs ! i) < key (xs ! nat mid)" if "int i < mid" for i
      using that b sorted_ids_less [OF 1(3), of i "nat mid"] by simp
    have above: "key (xs ! nat mid) < key (xs ! i)" if "mid < int i" "i < length xs" for i
      using that b sorted_ids_less [OF 1(3), of "nat mid" i] by simp
    consider (eq) "key (xs ! nat mid) = k" | (lt) "key (xs ! nat mid) < k" | (gt) "k < key (xs ! nat mid)"
      using less_linear by blast
    then show ?thesis
    proof cases
      case eq
      then have "rank key k xs = nat mid" using below b by (intro rank_eqI) auto
      moreover have "k \<in> key ` set xs" using eq b by auto
      ultimately show ?thesis using True eq by (simp add: search_loop.simps [of xs k key left right] mid_def [symmetric] Let_def)
    next
      case lt
      have "search_loop xs k key (mid + 1) right = (k \<in> key ` set xs, rank key k xs)"
      proof (rule 1(1) [OF True mid_def refl])
        show "key (xs ! i) < k" if "int i < mid + 1" for i
        proof (cases "int i = mid")
          case True
          then show ?thesis using lt by (metis nat_int)
        next
          case False
          then show ?thesis using below [of i] lt that by (simp add: order.strict_trans)
        qed
      qed (use lt 1(3-8) b m in auto)
      then show ?thesis using True lt less_imp_neq [OF lt] by (simp add: search_loop.simps [of xs k key left right] mid_def [symmetric] Let_def)
    next
      case gt
      have "search_loop xs k key left (mid - 1) = (k \<in> key ` set xs, rank key k xs)"
      proof (rule 1(2) [OF True mid_def refl])
        show "k < key (xs ! i)" if "mid - 1 < int i" "i < length xs" for i
        proof (cases "int i = mid")
          case True
          then show ?thesis using gt by (metis nat_int)
        next
          case False
          then show ?thesis using above [of i] gt that by (simp add: order.strict_trans)
        qed
      qed (use gt 1(3-8) b m in auto)
      then show ?thesis using True gt less_imp_neq [OF gt] less_not_sym [OF gt] by (simp add: search_loop.simps [of xs k key left right] mid_def [symmetric] Let_def)
    qed
  qed
qed

lemma search_rank: "sorted_ids key xs \<Longrightarrow> search xs k key = (k \<in> key ` set xs, rank key k xs)"
  unfolding search_def by (rule search_loop_rank) auto

lemma insert_loop_rank:
  assumes "sorted (map key xs)" "right \<le> length xs" "left \<le> right"
    and "\<And>i. i < left \<Longrightarrow> key (xs ! i) < k" "\<And>i. right \<le> i \<Longrightarrow> i < length xs \<Longrightarrow> \<not> key (xs ! i) < k"
  shows "insert_loop xs k key left right = rank key k xs"
  using assms
proof (induction xs k key left right rule: insert_loop.induct)
  case (1 xs k key left right)
  have mono: "key (xs ! i) \<le> key (xs ! j)" if "i \<le> j" "j < length xs" for i j
    using 1(3) that by (auto simp: sorted_iff_nth_mono)
  show ?case
  proof (cases "left < right")
    case False
    then have "rank key k xs = left" using 1(4-7) by (intro rank_eqI) auto
    then show ?thesis using False by (simp add: insert_loop.simps)
  next
    case True
    define mid where "mid = (left + right) div 2"
    have m: "left \<le> mid" "mid < right" using True by (auto simp: mid_def)
    show ?thesis
    proof (cases "key (xs ! mid) < k")
      case lt: True
      have "insert_loop xs k key (mid + 1) right = rank key k xs"
      proof (rule 1(1) [OF True mid_def])
        show "key (xs ! i) < k" if "i < mid + 1" for i
          using mono [of i mid] that m 1(4) lt by (auto intro: le_less_trans)
      qed (use lt 1(3-7) m in auto)
      then show ?thesis using True lt by (simp add: insert_loop.simps [of xs k key left right] mid_def [symmetric] Let_def)
    next
      case ge: False
      have "insert_loop xs k key left mid = rank key k xs"
      proof (rule 1(2) [OF True mid_def])
        show "\<not> key (xs ! i) < k" if "mid \<le> i" "i < length xs" for i
          using mono [of mid i] that ge by auto
      qed (use ge 1(3-7) m in auto)
      then show ?thesis using True ge by (simp add: insert_loop.simps [of xs k key left right] mid_def [symmetric] Let_def)
    qed
  qed
qed

lemma take_rank: "take (rank key k xs) xs = takeWhile (\<lambda>x. key x < k) xs"
  unfolding rank_def by (rule takeWhile_eq_take [symmetric])

lemma drop_rank: "drop (rank key k xs) xs = dropWhile (\<lambda>x. key x < k) xs"
  unfolding rank_def by (rule dropWhile_eq_drop [symmetric])

text \<open>The items after the searched place: all of them follow the identifier, the first may have it.\<close>

lemma sorted_ids_split:
  assumes "sorted_ids key xs"
  shows "\<exists>zs. dropWhile (\<lambda>x. key x < k) xs = filter (\<lambda>x. key x = k) xs @ zs \<and>
     (\<forall>z\<in>set zs. k < key z) \<and> length (filter (\<lambda>x. key x = k) xs) \<le> 1"
  using assms
proof (induction xs)
  case (Cons x xs)
  then have s: "sorted_ids key xs" "\<forall>y\<in>set xs. key x < key y" by (auto simp: sorted_ids_def)
  show ?case
  proof (cases "key x < k")
    case True
    then show ?thesis using Cons s by auto
  next
    case False
    then have "\<forall>y\<in>set xs. k < key y" using s(2) by (auto intro: le_less_trans simp: not_less)
    moreover from this have "filter (\<lambda>y. key y = k) xs = []" by (auto simp: filter_empty_conv)
    ultimately show ?thesis using False
      by (cases "key x = k") (auto simp: not_less intro: exI [of _ "x # xs"])
  qed
qed simp

lemma sorted_ids_cases:
  assumes "sorted_ids key xs"
  obtains (absent) ys zs where "xs = ys @ zs" "rank key k xs = length ys" "\<forall>y\<in>set ys. key y < k" "\<forall>z\<in>set zs. k < key z"
  | (present) ys x zs where "xs = ys @ x # zs" "rank key k xs = length ys" "key x = k"
      "\<forall>y\<in>set ys. key y < k" "\<forall>z\<in>set zs. k < key z"
proof -
  let ?ys = "takeWhile (\<lambda>x. key x < k) xs" and ?fs = "filter (\<lambda>x. key x = k) xs"
  obtain zs where zs: "dropWhile (\<lambda>x. key x < k) xs = ?fs @ zs" "\<forall>z\<in>set zs. k < key z" "length ?fs \<le> 1"
    using sorted_ids_split [OF assms] by blast
  have ys: "\<forall>y\<in>set ?ys. key y < k" by (auto dest: set_takeWhileD)
  have xs: "xs = ?ys @ ?fs @ zs" using zs(1) takeWhile_dropWhile_id by metis
  show thesis
  proof (cases ?fs)
    case Nil
    then show ?thesis using absent [of ?ys zs] xs ys zs(2) by (simp add: rank_def)
  next
    case (Cons x fs)
    then have "fs = []" "key x = k" using zs(3) filter_set [of "\<lambda>x. key x = k" xs] by auto
    then show ?thesis using present [of ?ys x zs] Cons xs ys zs(2) by (simp add: rank_def)
  qed
qed

lemma find_id_absent: "k \<notin> key ` set xs \<Longrightarrow> find_id key xs k = None"
  by (auto simp: find_id_def find_None_iff)

lemma find_id_append: "find_id key (ys @ zs) k = (case find_id key ys k of Some y \<Rightarrow> Some y | None \<Rightarrow> find_id key zs k)"
  by (simp add: find_id_def find_append split: option.split)

lemma find_id_Cons: "find_id key (x # xs) k = (if key x = k then Some x else find_id key xs k)"
  by (simp add: find_id_def)

lemma find_id_at:
  assumes "key v \<notin> key ` set ys"
  shows "find_id key (ys @ v # zs) = (find_id key (ys @ zs))(key v \<mapsto> v)"
  using find_id_absent [OF assms] by (auto simp: fun_eq_iff find_id_append find_id_Cons split: option.split)

lemma find_id_cut:
  assumes "key x \<notin> key ` set (ys @ zs)"
  shows "find_id key (ys @ zs) = (find_id key (ys @ x # zs))(key x := None)"
  using find_id_absent [OF assms] by (auto simp: fun_eq_iff find_id_append find_id_Cons split: option.split)

lemma upsert_sorted:
  assumes "sorted_ids key xs"
  shows "sorted_ids key (upsert key v xs) \<and> find_id key (upsert key v xs) = (find_id key xs)(key v \<mapsto> v)"
  using assms
proof (cases rule: sorted_ids_cases [where k = "key v"])
  case (absent ys zs)
  then have "search xs (key v) key = (False, length ys)" using search_rank [OF assms, of "key v"] by auto
  then have u: "upsert key v xs = ys @ v # zs"
    using absent(1) by (simp add: upsert_def splice_in_def)
  have "key v \<notin> key ` set ys" using absent(3) by auto
  from find_id_at [where key = key, OF this, of zs] show ?thesis
    using assms absent unfolding u by (auto simp: sorted_ids_def sorted_wrt_append)
next
  case (present ys x zs)
  then have "search xs (key v) key = (True, length ys)" using search_rank [OF assms, of "key v"] by auto
  then have u: "upsert key v xs = ys @ v # zs"
    using present(1) by (simp add: upsert_def)
  have "key v \<notin> key ` set ys" using present(4) by auto
  then have "find_id key (ys @ v # zs) = (find_id key (ys @ x # zs))(key v \<mapsto> v)"
    using find_id_at [of key v ys zs] find_id_at [of key x ys zs] present(3) by simp
  then show ?thesis
    using assms present unfolding u by (auto simp: sorted_ids_def sorted_wrt_append)
qed

lemma remove_id_sorted:
  assumes "sorted_ids key xs"
  shows "sorted_ids key (remove_id key k xs) \<and> find_id key (remove_id key k xs) = (find_id key xs)(k := None)"
  using assms
proof (cases rule: sorted_ids_cases [where k = k])
  case (absent ys zs)
  then have "k \<notin> key ` set xs" by auto
  then show ?thesis
    using assms find_id_absent by (simp add: remove_id_def search_rank [OF assms] fun_eq_iff)
next
  case (present ys x zs)
  then have "search xs k key = (True, length ys)" using search_rank [OF assms, of k] by auto
  then have u: "remove_id key k xs = ys @ zs"
    using present(1) by (simp add: remove_id_def splice_out_def)
  have "key x \<notin> key ` set (ys @ zs)" using present by auto
  from find_id_cut [where key = key, OF this] show ?thesis
    using assms present unfolding u by (auto simp: sorted_ids_def sorted_wrt_append)
qed

section \<open>Collections addressed by identifier\<close>

text \<open>
  The contract the clients of the sorted arrays rely on: putting an item makes it the one found
  under its identifier, deleting an identifier makes it absent, and nothing else changes.
\<close>

locale id_collection =
  fixes key :: "'v \<Rightarrow> 'k"
    and put :: "'v \<Rightarrow> 'm \<Rightarrow> 'm"
    and del :: "'k \<Rightarrow> 'm \<Rightarrow> 'm"
    and get :: "'m \<Rightarrow> 'k \<Rightarrow> 'v option"
    and wf :: "'m \<Rightarrow> bool"
  assumes get_put: "wf m \<Longrightarrow> get (put v m) = (get m)(key v \<mapsto> v)"
    and get_del: "wf m \<Longrightarrow> get (del k m) = (get m)(k := None)"
    and wf_put: "wf m \<Longrightarrow> wf (put v m)"
    and wf_del: "wf m \<Longrightarrow> wf (del k m)"
begin

lemma wf_fold_put: "wf m \<Longrightarrow> wf (fold put vs m)"
  by (induction vs arbitrary: m) (auto simp: wf_put)

text \<open>After a sequence of updates the last one of each identifier counts, whatever the order of the others.\<close>

lemma get_fold_put:
  "wf m \<Longrightarrow> get (fold put vs m) k =
     (case findLast (\<lambda>v. key v = k) vs of Some v \<Rightarrow> Some v | None \<Rightarrow> get m k)"
proof (induction vs rule: rev_induct)
  case (snoc v vs)
  then show ?case using wf_fold_put [OF snoc.prems, of vs] by (simp add: get_put)
qed simp

lemma get_put_del: "wf m \<Longrightarrow> get m k = None \<Longrightarrow> key v = k \<Longrightarrow> get (del k (put v m)) = get m"
  by (simp add: get_put get_del wf_put fun_upd_idem)

end

interpretation sorted_array: id_collection key "upsert key" "remove_id key" "find_id key" "sorted_ids key"
  for key :: "'v \<Rightarrow> 'k::linorder"
  by unfold_locales (simp_all add: upsert_sorted remove_id_sorted)

section \<open>Properties\<close>

text \<open>
  C18. On an array sorted by identifier the binary search ends and answers exactly: it reports the
  identifier found if and only if it occurs, and its index is the number of smaller identifiers,
  which is the place of the item or the place to insert it.
\<close>

theorem binary_search_correct:
  assumes "sorted_ids key xs"
  shows "search xs k key = (k \<in> key ` set xs, length (filter (\<lambda>x. key x < k) xs))"
proof -
  have "filter (\<lambda>x. key x < k) xs = takeWhile (\<lambda>x. key x < k) xs"
    using assms
  proof (cases rule: sorted_ids_cases [where k = k])
    case (absent ys zs)
    then have "filter (\<lambda>x. key x < k) zs = []" "takeWhile (\<lambda>x. key x < k) zs = []"
      by (auto simp: filter_empty_conv) (cases zs, auto)
    then show ?thesis using absent by (simp add: filter_id_conv [THEN iffD2])
  next
    case (present ys x zs)
    then have "filter (\<lambda>x. key x < k) zs = []" by (auto simp: filter_empty_conv)
    then show ?thesis using present by (simp add: filter_id_conv [THEN iffD2])
  qed
  then show ?thesis using search_rank [OF assms] by (simp add: rank_def)
qed

theorem binary_search_correct_witness:
  "search [js ''ab'', js ''b'', js ''ba''] (js ''b'') (\<lambda>x. x) = (True, 1)"
proof -
  have "sorted_ids (\<lambda>x. x) [js ''ab'', js ''b'', js ''ba'']" by code_simp
  from binary_search_correct [OF this, of "js ''b''"] show ?thesis by (simp add: js_def)
qed

text \<open>
  Inserting into a sorted array, duplicates allowed, puts the item before the first item that
  is not smaller and keeps the array sorted.
\<close>

theorem binary_insert_correct:
  assumes "sorted (map key xs)"
  shows "binary_insert xs v key =
           takeWhile (\<lambda>x. key x < key v) xs @ v # dropWhile (\<lambda>x. key x < key v) xs \<and>
         sorted (map key (binary_insert xs v key))"
proof -
  have "insert_loop xs (key v) key 0 (length xs) = rank key (key v) xs"
    using assms by (intro insert_loop_rank) auto
  then have eq: "binary_insert xs v key =
      takeWhile (\<lambda>x. key x < key v) xs @ v # dropWhile (\<lambda>x. key x < key v) xs"
    by (simp add: binary_insert_def splice_in_def take_rank drop_rank)
  have "sorted (map key (takeWhile (\<lambda>x. key x < key v) xs @ v # dropWhile (\<lambda>x. key x < key v) xs))"
    using assms
  proof (induction xs)
    case (Cons x xs)
    then show ?case by (auto simp: not_less dest: set_takeWhileD set_dropWhileD)
  qed simp
  then show ?thesis using eq by simp
qed

theorem binary_insert_correct_witness:
  "binary_insert [1, 3, 3, 7] (4::nat) (\<lambda>x. x) = [1, 3, 3, 4, 7] \<and> sorted (map (\<lambda>x. x) (binary_insert [1, 3, 3, 7] (4::nat) (\<lambda>x. x)))"
  using binary_insert_correct [of "\<lambda>x::nat. x" "[1, 3, 3, 7]" 4] by simp

end
