(* ===== verification/Session_Trim.thy ===== *)
theory Session_Trim
  imports Binary "HOL-Library.Product_Lexorder" "HOL-Library.Multiset"
begin

text \<open>
  Which sessions and directories the client keeps, \<open>app/src/context/global-sync/\<close>:
  \<open>session-trim.ts\<close>, the eviction choice of \<open>session-cache.ts\<close>, and \<open>eviction.ts\<close>. Times are
  milliseconds; \<open>Date.now()\<close> is the parameter \<open>now\<close>. A JavaScript \<open>Set\<close> is the list of its
  elements in insertion order.
\<close>

section \<open>Sessions\<close>

text \<open>Fields the client only stores are one value of the type variable.\<close>

record 'x session =
  s_id :: jstring
  s_parentID :: "jstring option"
  s_created :: int
  s_updated :: "int option"
  s_archived :: "int option"
  s_rest :: 'x

definition truthy_str :: "jstring option \<Rightarrow> bool" where
  "truthy_str x = (case x of Some s \<Rightarrow> s \<noteq> [] | None \<Rightarrow> False)"

definition truthy_num :: "int option \<Rightarrow> bool" where
  "truthy_num x = (case x of Some n \<Rightarrow> n \<noteq> 0 | None \<Rightarrow> False)"

definition SESSION_RECENT_WINDOW :: int where "SESSION_RECENT_WINDOW = 4 * 60 * 60 * 1000"
definition SESSION_RECENT_LIMIT :: int where "SESSION_RECENT_LIMIT = 50"

definition sessionUpdatedAt :: "'x session \<Rightarrow> int" where
  "sessionUpdatedAt s = (case s_updated s of Some t \<Rightarrow> t | None \<Rightarrow> s_created s)"

definition cmp :: "jstring \<Rightarrow> jstring \<Rightarrow> int" where
  "cmp a b = (if a < b then -1 else if b < a then 1 else 0)"

definition compareSessionRecent :: "'x session \<Rightarrow> 'x session \<Rightarrow> int" where
  "compareSessionRecent a b =
     (if sessionUpdatedAt a \<noteq> sessionUpdatedAt b then sessionUpdatedAt b - sessionUpdatedAt a
      else cmp (s_id a) (s_id b))"

definition insert_recent :: "int \<Rightarrow> 'x session \<Rightarrow> 'x session list \<Rightarrow> 'x session list" where
  "insert_recent limit s selected =
     (let added = (case findIndex (\<lambda>x. compareSessionRecent s x < 0) selected of
                     None \<Rightarrow> selected @ [s]
                   | Some i \<Rightarrow> splice_in i s selected)
      in if int (length added) > limit then butlast added else added)"

fun take_recent_loop ::
  "int \<Rightarrow> int \<Rightarrow> 'x session list \<Rightarrow> jstring list \<Rightarrow> 'x session list \<Rightarrow> 'x session list" where
  "take_recent_loop limit cutoff [] seen selected = selected"
| "take_recent_loop limit cutoff (s # ss) seen selected =
     (if s_id s = [] \<or> s_id s \<in> set seen then take_recent_loop limit cutoff ss seen selected
      else if sessionUpdatedAt s \<le> cutoff then take_recent_loop limit cutoff ss (s_id s # seen) selected
      else take_recent_loop limit cutoff ss (s_id s # seen) (insert_recent limit s selected))"

definition takeRecentSessions :: "'x session list \<Rightarrow> int \<Rightarrow> int \<Rightarrow> 'x session list" where
  "takeRecentSessions sessions limit cutoff =
     (if limit \<le> 0 then [] else take_recent_loop limit cutoff sessions [] [])"

definition keep_child ::
  "(jstring \<Rightarrow> nat) \<Rightarrow> int \<Rightarrow> jstring list \<Rightarrow> 'x session \<Rightarrow> bool" where
  "keep_child perms cutoff keepRootIds s =
     ((case s_parentID s of Some p \<Rightarrow> p \<noteq> [] \<and> p \<in> set keepRootIds | None \<Rightarrow> False) \<or>
      perms (s_id s) > 0 \<or> sessionUpdatedAt s > cutoff)"

text \<open>\<open>perms\<close> gives the number of pending permission requests of a session.\<close>

definition trimSessions :: "'x session list \<Rightarrow> int \<Rightarrow> (jstring \<Rightarrow> nat) \<Rightarrow> int \<Rightarrow> 'x session list" where
  "trimSessions input limit0 perms now =
     (let limit = nat (max 0 limit0);
          cutoff = now - SESSION_RECENT_WINDOW;
          all = sort_key s_id (filter (\<lambda>s. \<not> truthy_num (s_archived s)) (filter (\<lambda>s. s_id s \<noteq> []) input));
          roots = filter (\<lambda>s. \<not> truthy_str (s_parentID s)) all;
          children = filter (\<lambda>s. truthy_str (s_parentID s)) all;
          base = take limit roots;
          recent = takeRecentSessions (drop limit roots) SESSION_RECENT_LIMIT cutoff;
          keepRoots = base @ recent;
          keepChildren = filter (keep_child perms cutoff (map s_id keepRoots)) children
      in sort_key s_id (keepRoots @ keepChildren))"

section \<open>Eviction\<close>

definition SESSION_CACHE_LIMIT :: int where "SESSION_CACHE_LIMIT = 40"

text \<open>The loop over \<open>seen\<close>; \<open>n\<close> is the size of the set, which the loop does not change.\<close>

fun evict_loop :: "int \<Rightarrow> int \<Rightarrow> jstring list \<Rightarrow> jstring list \<Rightarrow> jstring list \<Rightarrow> jstring list" where
  "evict_loop n limit keep [] stale = stale"
| "evict_loop n limit keep (x # xs) stale =
     (if n - int (length stale) \<le> limit then stale
      else if x \<in> set keep then evict_loop n limit keep xs stale
      else evict_loop n limit keep xs (stale @ [x]))"

text \<open>The result is the evicted identifiers and the set afterwards.\<close>

definition pickSessionCacheEvictions ::
  "jstring list \<Rightarrow> jstring \<Rightarrow> int \<Rightarrow> jstring list \<Rightarrow> jstring list \<times> jstring list" where
  "pickSessionCacheEvictions seen keep limit preserve =
     (let seen' = filter (\<lambda>x. x \<noteq> keep) seen @ [keep];
          stale = evict_loop (int (length seen')) limit (keep # preserve) seen' []
      in (stale, filter (\<lambda>x. x \<notin> set stale) seen'))"

record evict_plan =
  stores :: "jstring list"
  dir_state :: "(jstring \<times> int) list"
  pins :: "jstring list"
  ep_max :: int
  ttl :: int
  ep_now :: int

definition lastAccessAt :: "evict_plan \<Rightarrow> jstring \<Rightarrow> int" where
  "lastAccessAt plan d = (case map_of (dir_state plan) d of Some t \<Rightarrow> t | None \<Rightarrow> 0)"

fun pick_loop :: "evict_plan \<Rightarrow> jstring list \<Rightarrow> int \<Rightarrow> jstring list" where
  "pick_loop plan [] pendingOverflow = []"
| "pick_loop plan (d # ds) pendingOverflow =
     (let idle = ep_now plan - lastAccessAt plan d \<ge> ttl plan
      in if \<not> idle \<and> pendingOverflow \<le> 0 then pick_loop plan ds pendingOverflow
         else d # pick_loop plan ds (if pendingOverflow > 0 then pendingOverflow - 1 else pendingOverflow))"

definition pickDirectoriesToEvict :: "evict_plan \<Rightarrow> jstring list" where
  "pickDirectoriesToEvict plan =
     pick_loop plan (sort_key (lastAccessAt plan) (filter (\<lambda>d. d \<notin> set (pins plan)) (stores plan)))
       (max 0 (int (length (stores plan)) - ep_max plan))"

record dispose_check =
  directory :: jstring
  hasStore :: bool
  pinned :: bool
  booting :: bool
  loadingSessions :: bool

definition canDisposeDirectory :: "dispose_check \<Rightarrow> bool" where
  "canDisposeDirectory c =
     (if directory c = [] then False
      else if \<not> hasStore c then False
      else if pinned c then False
      else if booting c then False
      else if loadingSessions c then False
      else True)"

section \<open>The most recent sessions\<close>

definition recency :: "'x session \<Rightarrow> int \<times> jstring" where
  "recency s = (- sessionUpdatedAt s, s_id s)"

text \<open>The first session of each non-empty identifier.\<close>

fun first_by_id :: "jstring list \<Rightarrow> 'x session list \<Rightarrow> 'x session list" where
  "first_by_id seen [] = []"
| "first_by_id seen (s # ss) =
     (if s_id s = [] \<or> s_id s \<in> set seen then first_by_id seen ss else s # first_by_id (s_id s # seen) ss)"

lemma compare_recency: "compareSessionRecent s x < 0 \<longleftrightarrow> recency s < recency x"
  by (auto simp: compareSessionRecent_def recency_def cmp_def)

lemma recency_inj: "s_id a \<noteq> s_id b \<Longrightarrow> recency a \<noteq> recency b"
  by (simp add: recency_def)

lemma splice_in_Suc: "splice_in (Suc i) s (x # xs) = x # splice_in i s xs"
  by (simp add: splice_in_def)

lemma insert_at_insort:
  "s_id s \<notin> s_id ` set sel \<Longrightarrow>
   (case findIndex (\<lambda>x. compareSessionRecent s x < 0) sel of None \<Rightarrow> sel @ [s] | Some i \<Rightarrow> splice_in i s sel) =
   insort_key recency s sel"
proof (induction sel)
  case (Cons x sel)
  then have ne: "recency s \<noteq> recency x" by (auto simp: recency_def)
  show ?case
  proof (cases "recency s < recency x")
    case True
    then have "recency s \<le> recency x" by simp
    then show ?thesis using True by (simp add: compare_recency splice_in_def)
  next
    case False
    then have "\<not> recency s \<le> recency x" using ne by auto
    then show ?thesis using Cons False
      by (cases "findIndex (\<lambda>x. recency s < recency x) sel") (auto simp: compare_recency splice_in_Suc)
  qed
qed simp

lemma take_insort: "take k (insort_key f x (take k ys)) = take k (insort_key f x ys)"
proof (induction ys arbitrary: k)
  case (Cons y ys)
  then show ?case
  proof (cases k)
    case (Suc n)
    have "take n (y # take n ys) = take n (y # ys)" by (cases n) auto
    then show ?thesis using Cons [of n] Suc by simp
  qed simp
qed simp

lemma insert_recent_take:
  assumes "s_id s \<notin> s_id ` set sel" "length sel \<le> nat limit" "0 < limit"
  shows "insert_recent limit s sel = take (nat limit) (insort_key recency s sel)"
proof -
  have "butlast xs = take (nat limit) xs" if "length xs = Suc (nat limit)" for xs :: "'a session list"
    using that by (simp add: butlast_conv_take)
  moreover have "length (insort_key recency s sel) = Suc (length sel)" by simp
  ultimately show ?thesis
    using assms insert_at_insort [OF assms(1)] by (auto simp: insert_recent_def Let_def)
qed

lemma sort_recency_snoc:
  assumes "distinct (map s_id (P @ [s]))"
  shows "sort_key recency (P @ [s]) = insort_key recency s (sort_key recency P)"
proof (rule sort_key_inj_key_eq)
  show "inj_on recency (set (P @ [s]))"
    using assms by (intro inj_onI) (metis distinct_map inj_onD recency_inj)
  show "sorted (map recency (insort_key recency s (sort_key recency P)))"
    by (simp add: sorted_insort_key)
qed simp

lemma take_recent_loop_sort:
  assumes "distinct (map s_id P)" "s_id ` set P \<subseteq> set seen" "0 < limit"
  shows "take_recent_loop limit cutoff ss seen (take (nat limit) (sort_key recency P)) =
    take (nat limit) (sort_key recency (P @ filter (\<lambda>s. cutoff < sessionUpdatedAt s) (first_by_id seen ss)))"
  using assms
proof (induction ss arbitrary: seen P)
  case (Cons s ss)
  consider (skip) "s_id s = [] \<or> s_id s \<in> set seen" | (old) "\<not> (s_id s = [] \<or> s_id s \<in> set seen)" "sessionUpdatedAt s \<le> cutoff"
    | (new) "\<not> (s_id s = [] \<or> s_id s \<in> set seen)" "\<not> sessionUpdatedAt s \<le> cutoff" by blast
  then show ?case
  proof cases
    case skip
    then show ?thesis using Cons by simp
  next
    case old
    then show ?thesis using Cons.IH [of P "s_id s # seen"] Cons.prems by auto
  next
    case new
    then have s: "s_id s \<notin> s_id ` set P" using Cons.prems(2) by blast
    have "insert_recent limit s (take (nat limit) (sort_key recency P)) =
        take (nat limit) (insort_key recency s (take (nat limit) (sort_key recency P)))"
      using s Cons.prems(3) by (intro insert_recent_take) (auto dest!: in_set_takeD)
    also have "\<dots> = take (nat limit) (sort_key recency (P @ [s]))"
      using Cons.prems(1) s by (simp add: take_insort sort_recency_snoc)
    finally show ?thesis
      using new Cons.IH [of "P @ [s]" "s_id s # seen"] Cons.prems s by auto
  qed
qed simp

text \<open>
  The bounded insertion keeps the right sessions: the result is the first \<open>limit\<close> of all
  sessions newer than the cutoff, one per identifier, sorted by time of update (latest first) and
  then by identifier.
\<close>

theorem takeRecentSessions_top:
  "takeRecentSessions sessions limit cutoff =
     take (nat limit) (sort_key recency (filter (\<lambda>s. cutoff < sessionUpdatedAt s) (first_by_id [] sessions)))"
  using take_recent_loop_sort [of "[]" "[]" limit cutoff sessions] by (simp add: takeRecentSessions_def)

section \<open>Trimming\<close>

lemma set_takeRecent: "set (takeRecentSessions ss limit cutoff) \<subseteq> set ss"
proof -
  have "set (first_by_id seen ss) \<subseteq> set ss" for seen
    by (induction ss arbitrary: seen) auto
  then show ?thesis unfolding takeRecentSessions_top by (fastforce dest: in_set_takeD)
qed

lemma distinct_takeRecent: "distinct (map s_id (takeRecentSessions ss limit cutoff))"
proof -
  have first: "distinct (map s_id (first_by_id seen ss)) \<and> s_id ` set (first_by_id seen ss) \<inter> set seen = {}" for seen
  proof (induction ss arbitrary: seen)
    case (Cons s ss)
    from Cons.IH [of "s_id s # seen"] Cons.IH [of seen] show ?case by auto
  qed simp
  have "distinct (map s_id (filter P (first_by_id [] ss)))" for P
    using first [of "[]"] by (simp add: distinct_map_filter)
  then have "distinct (map s_id (sort_key recency (filter P (first_by_id [] ss))))" for P
    by (simp add: distinct_map)
  then show ?thesis unfolding takeRecentSessions_top by (simp add: take_map [symmetric] distinct_take)
qed

lemma length_takeRecent: "length (takeRecentSessions ss limit cutoff) \<le> nat limit"
  unfolding takeRecentSessions_top by simp

lemma length_filter_sort: "length (filter P (sort_key f xs)) = length (filter P xs)"
proof -
  have "mset (filter P (sort_key f xs)) = mset (filter P xs)" by (simp only: mset_filter mset_sort)
  then show ?thesis by (rule mset_eq_length)
qed

lemma sorted_sort_ids: "distinct (map key xs) \<Longrightarrow> sorted_ids key (sort_key key xs)"
  by (simp add: sorted_ids_def strict_sorted_iff distinct_map)

definition trim_roots :: "'x session list \<Rightarrow> int \<Rightarrow> int \<Rightarrow> 'x session list" where
  "trim_roots roots limit0 now =
     take (nat (max 0 limit0)) roots @
     takeRecentSessions (drop (nat (max 0 limit0)) roots) SESSION_RECENT_LIMIT (now - SESSION_RECENT_WINDOW)"

lemma trim_roots_props:
  assumes "distinct (map s_id roots)"
  shows "set (trim_roots roots limit0 now) \<subseteq> set roots" "distinct (map s_id (trim_roots roots limit0 now))"
    "length (trim_roots roots limit0 now) \<le> nat (max 0 limit0) + 50"
proof -
  let ?n = "nat (max 0 limit0)"
  let ?r = "takeRecentSessions (drop ?n roots) SESSION_RECENT_LIMIT (now - SESSION_RECENT_WINDOW)"
  have sub: "set ?r \<subseteq> set (drop ?n roots)" by (rule set_takeRecent)
  then show "set (trim_roots roots limit0 now) \<subseteq> set roots"
    by (auto simp: trim_roots_def dest: in_set_takeD in_set_dropD)
  have "distinct (map s_id (take ?n roots @ drop ?n roots))" using assms by simp
  then have "s_id ` set (take ?n roots) \<inter> s_id ` set (drop ?n roots) = {}" "distinct (map s_id (take ?n roots))"
    unfolding map_append distinct_append by simp_all
  then show "distinct (map s_id (trim_roots roots limit0 now))"
    using distinct_takeRecent sub by (fastforce simp: trim_roots_def)
  have "length (take ?n roots) \<le> ?n" "length ?r \<le> 50"
    using length_takeRecent [of "drop ?n roots" SESSION_RECENT_LIMIT] by (simp_all add: SESSION_RECENT_LIMIT_def)
  then show "length (trim_roots roots limit0 now) \<le> ?n + 50" by (simp add: trim_roots_def)
qed

text \<open>
  Trimming a session list with distinct identifiers yields a list sorted by identifier, made of
  input sessions that are not archived, with at most \<open>limit\<close> plus fifty root sessions; a child
  session that waits for a permission is never dropped.
\<close>

theorem trimSessions_sound:
  assumes "distinct (map s_id input)"
  shows "sorted_ids s_id (trimSessions input limit perms now) \<and>
    set (trimSessions input limit perms now) \<subseteq> {s \<in> set input. s_id s \<noteq> [] \<and> \<not> truthy_num (s_archived s)} \<and>
    length (filter (\<lambda>s. \<not> truthy_str (s_parentID s)) (trimSessions input limit perms now)) \<le> nat (max 0 limit) + 50 \<and>
    {s \<in> set input. s_id s \<noteq> [] \<and> \<not> truthy_num (s_archived s) \<and> truthy_str (s_parentID s) \<and> perms (s_id s) > 0}
      \<subseteq> set (trimSessions input limit perms now)"
proof -
  define live where "live = sort_key s_id (filter (\<lambda>s. \<not> truthy_num (s_archived s)) (filter (\<lambda>s. s_id s \<noteq> []) input))"
  let ?root = "\<lambda>s. \<not> truthy_str (s_parentID s)"
  define kr where "kr = trim_roots (filter ?root live) limit now"
  define kc where "kc = filter (keep_child perms (now - SESSION_RECENT_WINDOW) (map s_id kr)) (filter (\<lambda>s. truthy_str (s_parentID s)) live)"
  have t: "trimSessions input limit perms now = sort_key s_id (kr @ kc)"
    by (simp add: trimSessions_def Let_def live_def kr_def kc_def trim_roots_def)
  have live: "distinct (map s_id live)" "set live = {s \<in> set input. s_id s \<noteq> [] \<and> \<not> truthy_num (s_archived s)}"
    using assms by (auto simp: live_def distinct_map inj_on_def)
  note kr = trim_roots_props [of "filter ?root live" limit now, folded kr_def]
  have dr: "distinct (map s_id (filter ?root live))" "distinct (map s_id kc)"
    using live(1) by (simp_all add: distinct_map_filter kc_def)
  have inj: "inj_on s_id (set live)" using live(1) by (simp add: distinct_map)
  have sub: "set kr \<subseteq> set (filter ?root live)" "set kc \<subseteq> {s \<in> set live. \<not> ?root s}"
    using kr(1) [OF dr(1)] by (auto simp: kc_def)
  have "s_id ` set kr \<inter> s_id ` set kc = s_id ` (set kr \<inter> set kc)"
    using sub by (intro inj_on_image_Int [OF inj, symmetric]) auto
  moreover have "set kr \<inter> set kc = {}" using sub by auto
  ultimately have "s_id ` set kr \<inter> s_id ` set kc = {}" by simp
  then have dist: "distinct (map s_id (kr @ kc))" using kr(2) [OF dr(1)] dr(2) by simp
  have "filter ?root kc = []" using sub(2) by (auto simp: filter_empty_conv)
  then have "length (filter ?root (sort_key s_id (kr @ kc))) = length (filter ?root kr)"
    by (simp add: length_filter_sort)
  then have "length (filter ?root (sort_key s_id (kr @ kc))) \<le> nat (max 0 limit) + 50"
    using kr(3) [OF dr(1)] length_filter_le [of ?root kr] by linarith
  moreover have "{s \<in> set input. s_id s \<noteq> [] \<and> \<not> truthy_num (s_archived s) \<and> truthy_str (s_parentID s) \<and> perms (s_id s) > 0}
      \<subseteq> set (kr @ kc)"
    using live(2) by (auto simp: kc_def keep_child_def)
  moreover have "set (kr @ kc) \<subseteq> set live" using sub by auto
  ultimately show ?thesis
    unfolding t using sorted_sort_ids [OF dist] live(2) by (simp only: set_sort)
qed

theorem trimSessions_sound_witness:
  "let s = (\<lambda>i p t. \<lparr>s_id = js i, s_parentID = p, s_created = t, s_updated = None, s_archived = None, s_rest = ()\<rparr>);
       input = [s ''b'' None 5, s ''a'' None 7, s ''c'' (Some (js ''zz'')) 1]
   in map s_id (trimSessions input 1 (\<lambda>i. if i = js ''c'' then 1 else 0) 100000000) = [js ''a'', js ''c''] \<and>
      sorted_ids s_id (trimSessions input 1 (\<lambda>i. if i = js ''c'' then 1 else 0) 100000000)"
proof -
  let ?s = "\<lambda>i p t. \<lparr>s_id = js i, s_parentID = p, s_created = t, s_updated = None, s_archived = None, s_rest = ()\<rparr>"
  let ?input = "[?s ''b'' None 5, ?s ''a'' None 7, ?s ''c'' (Some (js ''zz'')) 1]"
  have "distinct (map s_id ?input)" by simp
  note trimSessions_sound [OF this, of 1 "\<lambda>i. if i = js ''c'' then 1 else 0" 100000000, THEN conjunct1]
  moreover have "map s_id (trimSessions ?input 1 (\<lambda>i. if i = js ''c'' then 1 else 0) 100000000) = [js ''a'', js ''c'']"
    by code_simp
  ultimately show ?thesis unfolding Let_def by blast
qed

section \<open>Eviction\<close>

lemma evict_loop_take:
  "evict_loop n limit keep xs stale =
     stale @ take (nat (n - limit - int (length stale))) (filter (\<lambda>x. x \<notin> set keep) xs)"
proof (induction xs arbitrary: stale)
  case (Cons x xs)
  show ?case
  proof (cases "n - int (length stale) \<le> limit")
    case False
    then have "nat (n - limit - int (length stale)) = Suc (nat (n - limit - int (length (stale @ [x]))))" by simp
    then show ?thesis using False Cons [of stale] Cons [of "stale @ [x]"] by simp
  qed simp
qed simp

text \<open>
  The session cache evicts the least recently seen sessions that are not kept or preserved, just
  as many as exceed the limit; the kept session becomes the most recent and is never evicted.
\<close>

theorem pickSessionCacheEvictions_lru:
  "pickSessionCacheEvictions seen keep limit preserve =
     (let others = filter (\<lambda>x. x \<noteq> keep) seen;
          stale = take (nat (int (length others) + 1 - limit)) (filter (\<lambda>x. x \<notin> set preserve) others)
      in (stale, filter (\<lambda>x. x \<notin> set stale) others @ [keep]))"
proof -
  let ?others = "filter (\<lambda>x. x \<noteq> keep) seen"
  have "filter (\<lambda>x. x \<notin> set (keep # preserve)) (?others @ [keep]) = filter (\<lambda>x. x \<notin> set preserve) ?others"
    by (simp add: filter_filter conj_commute)
  moreover have "keep \<notin> set (take n (filter P ?others))" for n P by (auto dest: in_set_takeD)
  ultimately show ?thesis
    by (simp add: pickSessionCacheEvictions_def Let_def evict_loop_take add.commute)
qed

lemma pick_loop_take:
  assumes "sorted (map (lastAccessAt plan) ds)" "0 \<le> ov"
  shows "pick_loop plan ds ov =
    take (max (nat ov) (length (filter (\<lambda>d. ttl plan \<le> ep_now plan - lastAccessAt plan d) ds))) ds"
  using assms
proof (induction ds arbitrary: ov)
  case (Cons d ds)
  let ?idle = "\<lambda>d. ttl plan \<le> ep_now plan - lastAccessAt plan d"
  have s: "sorted (map (lastAccessAt plan) ds)" using Cons.prems(1) by simp
  show ?case
  proof (cases "?idle d")
    case True
    show ?thesis
    proof (cases "ov > 0")
      case ov: True
      then have "nat ov = Suc (nat (ov - 1))" by simp
      then show ?thesis using True ov Cons.IH [OF s, of "ov - 1"] by (simp add: max_Suc_Suc)
    next
      case False
      then show ?thesis using True Cons.prems(2) Cons.IH [OF s, of ov] by simp
    qed
  next
    case False
    then have none: "filter ?idle ds = []" using Cons.prems(1) by (fastforce simp: filter_empty_conv)
    show ?thesis
    proof (cases "ov > 0")
      case ov: True
      then have "nat ov = Suc (nat (ov - 1))" by simp
      then show ?thesis using False ov none Cons.IH [OF s, of "ov - 1"] by simp
    next
      case ov: False
      then have "ov = 0" using Cons.prems(2) by simp
      then show ?thesis using False none Cons.IH [OF s, of 0] by simp
    qed
  qed
qed simp

text \<open>
  Directories are evicted in order of their last access, pinned ones never, and exactly as many
  as exceed the maximum or have been idle for the time to live, whichever is more.
\<close>

theorem pickDirectoriesToEvict_lru:
  "pickDirectoriesToEvict plan =
     (let unpinned = filter (\<lambda>d. d \<notin> set (pins plan)) (stores plan)
      in take (max (nat (int (length (stores plan)) - ep_max plan))
                   (length (filter (\<lambda>d. ttl plan \<le> ep_now plan - lastAccessAt plan d) unpinned)))
              (sort_key (lastAccessAt plan) unpinned))"
proof -
  let ?u = "filter (\<lambda>d. d \<notin> set (pins plan)) (stores plan)"
  let ?idle = "\<lambda>d. ttl plan \<le> ep_now plan - lastAccessAt plan d"
  have "length (filter ?idle (sort_key (lastAccessAt plan) ?u)) = length (filter ?idle ?u)"
    by (rule length_filter_sort)
  moreover have "nat (max 0 x) = nat x" for x :: int by simp
  ultimately show ?thesis
    by (simp add: pickDirectoriesToEvict_def Let_def pick_loop_take del: filter_filter)
qed

end
