(* ===== verification/Global_Sync.thy ===== *)
theory Global_Sync
  imports Session_Trim
begin

text \<open>
  The client's copy of the server state, \<open>app/src/context/global-sync/event-reducer.ts\<close>, with
  \<open>dropSessionCaches\<close> of \<open>session-cache.ts\<close> and the clean-up of received values in
  \<open>app/src/utils/diffs.ts\<close>. The store is a record; setting a path of the store to
  \<open>reconcile(v)\<close> makes the value there equal to \<open>v\<close>. A dictionary of the store is an
  insertion-ordered map. Callbacks the reducer is given are a trace of calls.
\<close>

section \<open>Received values\<close>

definition field :: "jstring \<Rightarrow> (jstring \<times> json) list \<Rightarrow> json option" where
  "field k ps = map_of ps k"

definition is_str :: "json option \<Rightarrow> bool" where
  "is_str v = (case v of Some (JStr s) \<Rightarrow> True | _ \<Rightarrow> False)"

definition is_num :: "json option \<Rightarrow> bool" where
  "is_num v = (case v of Some (JNum n) \<Rightarrow> True | _ \<Rightarrow> False)"

definition is_diff :: "json \<Rightarrow> bool" where
  "is_diff value =
     (case value of
        JObj ps \<Rightarrow>
          is_str (field (js ''file'') ps) \<and> is_str (field (js ''patch'') ps) \<and>
          is_num (field (js ''additions'') ps) \<and> is_num (field (js ''deletions'') ps) \<and>
          (case field (js ''status'') ps of
             None \<Rightarrow> True
           | Some st \<Rightarrow> st = JStr (js ''added'') \<or> st = JStr (js ''deleted'') \<or> st = JStr (js ''modified''))
      | _ \<Rightarrow> False)"

definition diffs :: "json option \<Rightarrow> json list" where
  "diffs value =
     (case value of
        Some (JArr vs) \<Rightarrow> if list_all is_diff vs then vs else filter is_diff vs
      | Some (JObj ps) \<Rightarrow> if is_diff (JObj ps) then [JObj ps] else filter is_diff (map snd ps)
      | _ \<Rightarrow> [])"

record message =
  m_id :: jstring
  m_sessionID :: jstring
  m_role :: jstring
  m_summary :: "json option"
  m_error :: "json option"
  m_rest :: json

text \<open>\<open>undefined\<close> is \<open>None\<close>; the identity test on \<open>diffs\<close> holds when the array was returned as it is.\<close>

definition clean_message :: "message \<Rightarrow> message" where
  "clean_message value =
     (if m_role value \<noteq> js ''user'' then value
      else case m_summary value of
             None \<Rightarrow> value
           | Some (JObj raw) \<Rightarrow>
               (let title = (if is_str (field (js ''title'') raw) then field (js ''title'') raw else None);
                    body = (if is_str (field (js ''body'') raw) then field (js ''body'') raw else None);
                    same = (case field (js ''diffs'') raw of Some (JArr vs) \<Rightarrow> list_all is_diff vs | _ \<Rightarrow> False)
                in if title = field (js ''title'') raw \<and> body = field (js ''body'') raw \<and> same then value
                   else value\<lparr>m_summary := Some (JObj
                     ((case title of Some t \<Rightarrow> [(js ''title'', t)] | None \<Rightarrow> []) @
                      (case body of Some t \<Rightarrow> [(js ''body'', t)] | None \<Rightarrow> []) @
                      [(js ''diffs'', JArr (diffs (field (js ''diffs'') raw)))]))\<rparr>)
           | Some _ \<Rightarrow> value\<lparr>m_summary := None\<rparr>)"

section \<open>The store\<close>

text \<open>
  A part keeps its string fields, the end of its time span, the metadata of a tool state, and the
  rest as one value.
\<close>

record part =
  p_id :: jstring
  p_sessionID :: jstring
  p_messageID :: jstring
  p_type :: jstring
  p_strings :: "(jstring \<times> jstring) list"
  p_time_end :: "int option"
  p_metadata :: "(jstring \<times> json) list option"
  p_rest :: json

record pending_request =
  q_id :: jstring
  q_sessionID :: jstring
  q_rest :: json

record client_project =
  proj_id :: jstring
  proj_fields :: "(jstring \<times> json) list"

record gstate =
  session :: "json session list"
  message :: "(jstring \<times> message list) list"
  part :: "(jstring \<times> part list) list"
  permission :: "(jstring \<times> pending_request list) list"
  question :: "(jstring \<times> pending_request list) list"
  todo :: "(jstring \<times> json list) list"
  session_diff :: "(jstring \<times> json list) list"
  session_status :: "(jstring \<times> json) list"
  vcs :: "(jstring \<times> json) list option"
  limit :: int
  graph_index_status :: "json option"

datatype gcall =
    SetSessionTodo jstring "json list option"
  | VcsCacheSet "(jstring \<times> json) list"
  | LoadLsp
  | RefreshMcp

record genv =
  isAborted :: "jstring \<Rightarrow> bool"
  hasSetSessionTodo :: bool
  hasVcsCache :: bool
  now :: int

datatype gevent =
    InstanceDisposed
  | SessionCreated "json session"
  | SessionUpdated "json session"
  | SessionDeleted "json session"
  | SessionDiff jstring "json option"
  | TodoUpdated jstring "json list"
  | SessionStatus jstring json
  | MessageUpdated message
  | MessageRemoved jstring jstring
  | PartUpdated part
  | PartRemoved jstring jstring
  | PartDelta jstring jstring jstring jstring
  | BranchUpdated "json option"
  | PermissionAsked pending_request
  | PermissionReplied jstring jstring
  | QuestionAsked pending_request
  | QuestionReplied jstring jstring
  | QuestionRejected jstring jstring
  | LspUpdated
  | McpToolsChanged
  | GraphIndexStatus json
  | OtherEvent jstring

section \<open>Global events\<close>

datatype global_event = GlobalDisposed | ServerConnected | ProjectUpdated client_project | OtherGlobal jstring

text \<open>\<open>{ ...draft[i], ...properties }\<close>\<close>

definition merge_fields :: "(jstring \<times> json) list \<Rightarrow> (jstring \<times> json) list \<Rightarrow> (jstring \<times> json) list" where
  "merge_fields old new = fold (\<lambda>(k, v) m. jmap_set k v m) new old"

text \<open>The projects afterwards, and whether a refresh is requested.\<close>

definition applyGlobalEvent :: "global_event \<Rightarrow> client_project list \<Rightarrow> client_project list \<times> bool" where
  "applyGlobalEvent e ps =
     (case e of
        GlobalDisposed \<Rightarrow> (ps, True)
      | ServerConnected \<Rightarrow> (ps, True)
      | OtherGlobal _ \<Rightarrow> (ps, False)
      | ProjectUpdated p \<Rightarrow>
          (case search ps (proj_id p) proj_id of
             (True, i) \<Rightarrow>
               (ps[i := \<lparr>proj_id = proj_id p, proj_fields = merge_fields (proj_fields (ps ! i)) (proj_fields p)\<rparr>], False)
           | (False, i) \<Rightarrow> (splice_in i p ps, False)))"

section \<open>Session caches\<close>

definition dropSessionCaches :: "jstring list \<Rightarrow> gstate \<Rightarrow> gstate" where
  "dropSessionCaches sessionIDs st =
     (let stale = filter (\<lambda>i. i \<noteq> []) sessionIDs
      in if stale = [] then st
         else st\<lparr>part := filter (\<lambda>(k, ps). \<not> list_ex (\<lambda>p. p_sessionID p \<in> set stale) ps) (part st),
                 message := fold jmap_delete stale (message st),
                 todo := fold jmap_delete stale (todo st),
                 session_diff := fold jmap_delete stale (session_diff st),
                 session_status := fold jmap_delete stale (session_status st),
                 permission := fold jmap_delete stale (permission st),
                 question := fold jmap_delete stale (question st)\<rparr>)"

definition todo_calls :: "genv \<Rightarrow> jstring list \<Rightarrow> gcall list" where
  "todo_calls env ids = (if hasSetSessionTodo env then map (\<lambda>i. SetSessionTodo i None) ids else [])"

definition cleanupSessionCaches :: "genv \<Rightarrow> jstring \<Rightarrow> gstate \<Rightarrow> gstate \<times> gcall list" where
  "cleanupSessionCaches env sessionID st =
     (if sessionID = [] then (st, []) else (dropSessionCaches [sessionID] st, todo_calls env [sessionID]))"

definition part_session :: "part list \<Rightarrow> jstring list" where
  "part_session ps = (case find (\<lambda>p. p_sessionID p \<noteq> []) ps of Some p \<Rightarrow> [p_sessionID p] | None \<Rightarrow> [])"

text \<open>Of repeated identifiers the first occurrence is kept.\<close>

definition stale_sessions :: "json session list \<Rightarrow> gstate \<Rightarrow> jstring list" where
  "stale_sessions next st =
     (let keep = map s_id next;
          activeParents = List.map_filter s_parentID (filter (\<lambda>s. truthy_str (s_parentID s)) next);
          cached = jmap_keys (message st) @ jmap_keys (session_diff st) @ jmap_keys (todo st) @
                   jmap_keys (permission st) @ jmap_keys (question st) @ jmap_keys (session_status st) @
                   concat (map (\<lambda>(k, ps). part_session ps) (part st))
      in rev (remdups (rev (filter (\<lambda>i. i \<notin> set keep \<and> i \<notin> set activeParents) cached))))"

definition cleanupDroppedSessionCaches ::
  "genv \<Rightarrow> json session list \<Rightarrow> gstate \<Rightarrow> gstate \<times> gcall list" where
  "cleanupDroppedSessionCaches env next st =
     (let stale = stale_sessions next st
      in if stale = [] then (st, []) else (dropSessionCaches stale st, todo_calls env stale))"

section \<open>Directory events\<close>

definition SKIP_PARTS :: "jstring list" where
  "SKIP_PARTS = [js ''patch'', js ''step-start'', js ''step-finish'']"

definition preserveToolMetadata :: "part option \<Rightarrow> part \<Rightarrow> part" where
  "preserveToolMetadata existing p =
     (if p_type p \<noteq> js ''tool'' then p
      else let incoming = p_metadata p; old = Option.bind existing p_metadata
           in if (incoming = None \<or> incoming = Some []) \<and> old \<noteq> None \<and> old \<noteq> Some []
              then p\<lparr>p_metadata := old\<rparr> else p)"

text \<open>The pattern of the reducer: an absent list is created, a found item replaced, a new one spliced in.\<close>

definition put_item :: "('v \<Rightarrow> jstring) \<Rightarrow> jstring \<Rightarrow> 'v \<Rightarrow> (jstring \<times> 'v list) list \<Rightarrow> (jstring \<times> 'v list) list" where
  "put_item key k v m =
     (case jmap_get m k of
        None \<Rightarrow> jmap_set k [v] m
      | Some vs \<Rightarrow> jmap_set k (upsert key v vs) m)"

definition drop_item :: "('v \<Rightarrow> jstring) \<Rightarrow> jstring \<Rightarrow> jstring \<Rightarrow> (jstring \<times> 'v list) list \<Rightarrow> (jstring \<times> 'v list) list" where
  "drop_item key k i m =
     (case jmap_get m k of None \<Rightarrow> m | Some vs \<Rightarrow> jmap_set k (remove_id key i vs) m)"

definition put_session :: "genv \<Rightarrow> json session \<Rightarrow> gstate \<Rightarrow> gstate \<times> gcall list" where
  "put_session env info st =
     (case search (session st) (s_id info) s_id of
        (True, i) \<Rightarrow> (st\<lparr>session := (session st)[i := info]\<rparr>, [])
      | (False, i) \<Rightarrow>
          (let trimmed = trimSessions (splice_in i info (session st)) (limit st)
                 (\<lambda>s. case jmap_get (permission st) s of Some rs \<Rightarrow> length rs | None \<Rightarrow> 0) (now env)
           in cleanupDroppedSessionCaches env trimmed (st\<lparr>session := trimmed\<rparr>)))"

definition remove_session :: "genv \<Rightarrow> json session \<Rightarrow> gstate \<Rightarrow> gstate \<times> gcall list" where
  "remove_session env info st =
     cleanupSessionCaches env (s_id info) (st\<lparr>session := remove_id s_id (s_id info) (session st)\<rparr>)"

definition mark_aborted :: "genv \<Rightarrow> message \<Rightarrow> message" where
  "mark_aborted env info =
     (if m_role info = js ''assistant'' \<and> m_error info \<in> {None, Some JNull} \<and> isAborted env (m_sessionID info)
      then info\<lparr>m_error := Some (JObj [(js ''name'', JStr (js ''MessageAbortedError'')),
             (js ''data'', JObj [(js ''message'', JStr (js ''Interrupted by user''))])])\<rparr>
      else info)"

definition apply_delta :: "jstring \<Rightarrow> jstring \<Rightarrow> part \<Rightarrow> part" where
  "apply_delta fld delta p =
     (if truthy_num (p_time_end p) then p
      else p\<lparr>p_strings := jmap_set fld ((case jmap_get (p_strings p) fld of Some s \<Rightarrow> s | None \<Rightarrow> []) @ delta)
               (p_strings p)\<rparr>)"

definition part_updated :: "genv \<Rightarrow> part \<Rightarrow> gstate \<Rightarrow> gstate" where
  "part_updated env p st =
     (if p_type p \<in> set SKIP_PARTS then st
      else if (p_type p = js ''text'' \<or> p_type p = js ''reasoning'') \<and> isAborted env (p_sessionID p) then st
      else let p' = (if p_type p = js ''tool''
                     then preserveToolMetadata
                       (Option.bind (jmap_get (part st) (p_messageID p)) (find (\<lambda>q. p_id q = p_id p))) p
                     else p)
           in st\<lparr>part := put_item p_id (p_messageID p') p' (part st)\<rparr>)"

definition part_removed :: "jstring \<Rightarrow> jstring \<Rightarrow> gstate \<Rightarrow> gstate" where
  "part_removed messageID partID st =
     (case jmap_get (part st) messageID of
        None \<Rightarrow> st
      | Some ps \<Rightarrow>
          (case search ps partID p_id of
             (True, i) \<Rightarrow>
               (let ps' = splice_out i ps
                in if ps' = [] then st\<lparr>part := jmap_delete messageID (part st)\<rparr>
                   else st\<lparr>part := jmap_set messageID ps' (part st)\<rparr>)
           | (False, i) \<Rightarrow> st))"

definition part_delta :: "genv \<Rightarrow> jstring \<Rightarrow> jstring \<Rightarrow> jstring \<Rightarrow> jstring \<Rightarrow> gstate \<Rightarrow> gstate" where
  "part_delta env messageID partID fld delta st =
     (case jmap_get (part st) messageID of
        None \<Rightarrow> st
      | Some ps \<Rightarrow>
          (let aborted = (case find (\<lambda>p. p_id p = partID) ps of
                            Some p \<Rightarrow> p_sessionID p \<noteq> [] \<and> isAborted env (p_sessionID p) | None \<Rightarrow> False)
           in if aborted then st
              else case search ps partID p_id of
                     (True, i) \<Rightarrow> st\<lparr>part := jmap_set messageID (ps[i := apply_delta fld delta (ps ! i)]) (part st)\<rparr>
                   | (False, i) \<Rightarrow> st))"

definition branch_updated :: "genv \<Rightarrow> json option \<Rightarrow> gstate \<Rightarrow> gstate \<times> gcall list" where
  "branch_updated env branch st =
     (if Option.bind (vcs st) (field (js ''branch'')) = branch then (st, [])
      else let old = (case vcs st of Some v \<Rightarrow> v | None \<Rightarrow> []);
               nxt = (case branch of Some b \<Rightarrow> jmap_set (js ''branch'') b old
                                   | None \<Rightarrow> jmap_delete (js ''branch'') old)
           in (st\<lparr>vcs := Some nxt\<rparr>, if hasVcsCache env then [VcsCacheSet nxt] else []))"

fun applyDirectoryEvent :: "genv \<Rightarrow> gevent \<Rightarrow> gstate \<Rightarrow> gstate \<times> gcall list" where
  "applyDirectoryEvent env InstanceDisposed st = (st, [])"
| "applyDirectoryEvent env (SessionCreated info) st = put_session env info st"
| "applyDirectoryEvent env (SessionUpdated info) st =
     (if truthy_num (s_archived info) then remove_session env info st else put_session env info st)"
| "applyDirectoryEvent env (SessionDeleted info) st = remove_session env info st"
| "applyDirectoryEvent env (SessionDiff sid diff) st =
     (st\<lparr>session_diff := jmap_set sid (diffs diff) (session_diff st)\<rparr>, [])"
| "applyDirectoryEvent env (TodoUpdated sid todos) st =
     (st\<lparr>todo := jmap_set sid todos (todo st)\<rparr>,
      if hasSetSessionTodo env then [SetSessionTodo sid (Some todos)] else [])"
| "applyDirectoryEvent env (SessionStatus sid status) st =
     (st\<lparr>session_status := jmap_set sid status (session_status st)\<rparr>, [])"
| "applyDirectoryEvent env (MessageUpdated msg) st =
     (let info = mark_aborted env (clean_message msg)
      in (st\<lparr>message := put_item m_id (m_sessionID info) info (message st)\<rparr>, []))"
| "applyDirectoryEvent env (MessageRemoved sid mid) st =
     (st\<lparr>message := drop_item m_id sid mid (message st), part := jmap_delete mid (part st)\<rparr>, [])"
| "applyDirectoryEvent env (PartUpdated p) st = (part_updated env p st, [])"
| "applyDirectoryEvent env (PartRemoved mid pid) st = (part_removed mid pid st, [])"
| "applyDirectoryEvent env (PartDelta mid pid fld delta) st = (part_delta env mid pid fld delta st, [])"
| "applyDirectoryEvent env (BranchUpdated branch) st = branch_updated env branch st"
| "applyDirectoryEvent env (PermissionAsked r) st =
     (st\<lparr>permission := put_item q_id (q_sessionID r) r (permission st)\<rparr>, [])"
| "applyDirectoryEvent env (PermissionReplied sid rid) st =
     (st\<lparr>permission := drop_item q_id sid rid (permission st)\<rparr>, [])"
| "applyDirectoryEvent env (QuestionAsked r) st =
     (st\<lparr>question := put_item q_id (q_sessionID r) r (question st)\<rparr>, [])"
| "applyDirectoryEvent env (QuestionReplied sid rid) st =
     (st\<lparr>question := drop_item q_id sid rid (question st)\<rparr>, [])"
| "applyDirectoryEvent env (QuestionRejected sid rid) st =
     (st\<lparr>question := drop_item q_id sid rid (question st)\<rparr>, [])"
| "applyDirectoryEvent env LspUpdated st = (st, [LoadLsp])"
| "applyDirectoryEvent env McpToolsChanged st = (st, [RefreshMcp])"
| "applyDirectoryEvent env (GraphIndexStatus s) st = (st\<lparr>graph_index_status := Some s\<rparr>, [])"
| "applyDirectoryEvent env (OtherEvent t) st = (st, [])"

section \<open>Lists of items per key\<close>

definition lists_ok :: "('v \<Rightarrow> jstring) \<Rightarrow> (jstring \<times> 'v list) list \<Rightarrow> bool" where
  "lists_ok key m \<longleftrightarrow> distinct (map fst m) \<and> list_all (\<lambda>(k, vs). sorted_ids key vs) m"

definition lookup_in :: "('v \<Rightarrow> jstring) \<Rightarrow> (jstring \<times> 'v list) list \<Rightarrow> jstring \<Rightarrow> jstring \<Rightarrow> 'v option" where
  "lookup_in key m k i = (case jmap_get m k of None \<Rightarrow> None | Some vs \<Rightarrow> find_id key vs i)"

lemma lists_ok_get: "lists_ok key m \<Longrightarrow> jmap_get m k = Some vs \<Longrightarrow> sorted_ids key vs"
  by (auto simp: lists_ok_def list_all_iff dest: map_of_SomeD)

lemma set_jmap_set: "set (jmap_set k v m) \<subseteq> insert (k, v) (set m)"
  by (induction m) auto

lemma lists_ok_set: "lists_ok key m \<Longrightarrow> sorted_ids key vs \<Longrightarrow> lists_ok key (jmap_set k vs m)"
  using set_jmap_set [of k vs m] by (fastforce simp: lists_ok_def list_all_iff distinct_update)

lemma lists_ok_delete: "lists_ok key m \<Longrightarrow> lists_ok key (jmap_delete k m)"
  by (auto simp: lists_ok_def list_all_iff distinct_delete set_jmap_delete)

lemma lists_ok_fold_delete: "lists_ok key m \<Longrightarrow> lists_ok key (fold jmap_delete ks m)"
  by (induction ks arbitrary: m) (simp_all add: lists_ok_delete)

lemma lists_ok_filter: "lists_ok key m \<Longrightarrow> lists_ok key (filter P m)"
  by (auto simp: lists_ok_def list_all_iff distinct_map_filter)

lemma sorted_ids_single: "sorted_ids key [v]" "sorted_ids key []"
  by (simp_all add: sorted_ids_def)

lemma lists_ok_put: "lists_ok key m \<Longrightarrow> lists_ok key (put_item key k v m)"
  using lists_ok_get [of key m k] upsert_sorted [of key]
  by (auto simp: put_item_def sorted_ids_single split: option.split intro!: lists_ok_set)

lemma lists_ok_drop: "lists_ok key m \<Longrightarrow> lists_ok key (drop_item key k i m)"
  using lists_ok_get [of key m k] remove_id_sorted [of key]
  by (auto simp: drop_item_def split: option.split intro!: lists_ok_set)

lemma lookup_put:
  "lists_ok key m \<Longrightarrow> lookup_in key (put_item key k v m) k' i =
     (if k' = k \<and> i = key v then Some v else lookup_in key m k' i)"
  using lists_ok_get [of key m k] upsert_sorted [of key _ v]
  by (auto simp: put_item_def lookup_in_def update_conv' find_id_Cons find_id_absent split: option.split)

lemma lookup_drop:
  "lists_ok key m \<Longrightarrow> lookup_in key (drop_item key k j m) k' i =
     (if k' = k \<and> i = j then None else lookup_in key m k' i)"
  using lists_ok_get [of key m k] remove_id_sorted [of key _ j]
  by (auto simp: drop_item_def lookup_in_def update_conv' split: option.split)

text \<open>The lists of a dictionary together are a collection addressed by key and identifier.\<close>

interpretation keyed_lists: id_collection
  "\<lambda>(k, v). (k, key v)" "\<lambda>(k, v). put_item key k v" "\<lambda>(k, i). drop_item key k i"
  "\<lambda>m (k, i). map_option (\<lambda>v. (k, v)) (lookup_in key m k i)" "lists_ok key"
  for key :: "'v \<Rightarrow> jstring"
  by unfold_locales (auto simp: fun_eq_iff lookup_put lookup_drop lists_ok_put lists_ok_drop split: if_splits)

section \<open>The invariant of the store\<close>

definition store_ok :: "gstate \<Rightarrow> bool" where
  "store_ok st \<longleftrightarrow> sorted_ids s_id (session st) \<and> lists_ok m_id (message st) \<and> lists_ok p_id (part st) \<and>
     lists_ok q_id (permission st) \<and> lists_ok q_id (question st)"

lemma store_ok_dropSessionCaches: "store_ok st \<Longrightarrow> store_ok (dropSessionCaches ids st)"
  by (simp add: store_ok_def dropSessionCaches_def Let_def lists_ok_fold_delete lists_ok_filter)

lemma store_ok_cleanup:
  "store_ok st \<Longrightarrow> store_ok (fst (cleanupSessionCaches env i st))"
  "store_ok st \<Longrightarrow> store_ok (fst (cleanupDroppedSessionCaches env next st))"
  by (simp_all add: cleanupSessionCaches_def cleanupDroppedSessionCaches_def Let_def store_ok_dropSessionCaches)

lemma sorted_ids_distinct: "sorted_ids key xs \<Longrightarrow> distinct (map key xs)"
  by (simp add: sorted_ids_def strict_sorted_iff)

lemma store_ok_session: "store_ok st \<Longrightarrow> sorted_ids s_id ss \<Longrightarrow> store_ok (st\<lparr>session := ss\<rparr>)"
  by (simp add: store_ok_def)

lemma store_ok_put_session:
  assumes "store_ok st"
  shows "store_ok (fst (put_session env info st))"
proof -
  have ss: "sorted_ids s_id (session st)" using assms by (simp add: store_ok_def)
  obtain f i where f: "search (session st) (s_id info) s_id = (f, i)" by (cases "search (session st) (s_id info) s_id")
  have up: "sorted_ids s_id (upsert s_id info (session st))" using upsert_sorted [OF ss] by blast
  show ?thesis
  proof (cases f)
    case True
    then show ?thesis using f up assms by (simp add: put_session_def upsert_def store_ok_session)
  next
    case False
    then have "distinct (map s_id (splice_in i info (session st)))"
      using f sorted_ids_distinct [OF up] by (simp add: upsert_def)
    from trimSessions_sound [OF this] False f assms show ?thesis
      by (simp add: put_session_def Let_def store_ok_cleanup store_ok_session)
  qed
qed

lemma store_ok_remove_session: "store_ok st \<Longrightarrow> store_ok (fst (remove_session env info st))"
  using remove_id_sorted [of s_id "session st"]
  by (simp add: remove_session_def store_ok_cleanup store_ok_def [of st] store_ok_session)

lemma p_id_apply_delta [simp]: "p_id (apply_delta f d p) = p_id p"
  by (simp add: apply_delta_def)

lemma sorted_ids_list_update: "key v = key (xs ! i) \<Longrightarrow> sorted_ids key xs \<Longrightarrow> sorted_ids key (xs[i := v])"
proof -
  assume "key v = key (xs ! i)" "sorted_ids key xs"
  moreover from this have "map key (xs[i := v]) = map key xs"
    by (cases "i < length xs") (auto simp: map_update list_update_beyond intro: list_update_same_conv [THEN iffD2])
  ultimately show ?thesis by (simp add: sorted_ids_def)
qed

lemma store_ok_part_delta: "store_ok st \<Longrightarrow> store_ok (part_delta env mid pid f d st)"
  using lists_ok_get [of p_id "part st" mid]
  by (auto simp: store_ok_def part_delta_def Let_def split: option.split prod.split bool.split
      intro!: lists_ok_set sorted_ids_list_update)

lemma store_ok_part_removed:
  assumes "store_ok st"
  shows "store_ok (part_removed mid pid st)"
proof (cases "jmap_get (part st) mid")
  case None
  then show ?thesis using assms by (simp add: part_removed_def)
next
  case (Some ps)
  have l: "lists_ok p_id (part st)" using assms by (simp add: store_ok_def)
  have ps: "sorted_ids p_id ps" using lists_ok_get [OF l Some] .
  obtain f i where f: "search ps pid p_id = (f, i)" by (cases "search ps pid p_id")
  show ?thesis
  proof (cases f)
    case False
    then show ?thesis using Some f assms by (simp add: part_removed_def)
  next
    case True
    then have "splice_out i ps = remove_id p_id pid ps" using f by (simp add: remove_id_def)
    then have "sorted_ids p_id (splice_out i ps)" using remove_id_sorted [OF ps] by simp
    then show ?thesis
      using Some f True assms by (simp add: part_removed_def Let_def store_ok_def lists_ok_set lists_ok_delete)
  qed
qed

lemma store_ok_event: "store_ok st \<Longrightarrow> store_ok (fst (applyDirectoryEvent env e st))"
  by (cases e)
     (simp_all add: store_ok_put_session store_ok_remove_session store_ok_part_delta store_ok_part_removed,
      simp_all add: store_ok_def Let_def lists_ok_put lists_ok_drop lists_ok_delete part_updated_def branch_updated_def)

definition run_events :: "(genv \<times> gevent) list \<Rightarrow> gstate \<Rightarrow> gstate" where
  "run_events es st = fold (\<lambda>(env, e) s. fst (applyDirectoryEvent env e s)) es st"

lemma run_events_ok: "store_ok st \<Longrightarrow> store_ok (run_events es st)"
  unfolding run_events_def by (induction es arbitrary: st) (auto simp: store_ok_event)

definition empty_store :: "int \<Rightarrow> gstate" where
  "empty_store lim = \<lparr>session = [], message = [], part = [], permission = [], question = [], todo = [],
     session_diff = [], session_status = [], vcs = None, limit = lim, graph_index_status = None\<rparr>"

lemma empty_store_ok: "store_ok (empty_store lim)"
  by (simp add: store_ok_def empty_store_def lists_ok_def sorted_ids_def)

section \<open>Properties\<close>


text \<open>
  The message lists hold the last version received: after a burst of message updates a message
  is the last update with its session and identifier (cleaned, and marked when its session was
  stopped), and messages without an update are as before.
\<close>

theorem message_updates_last_wins:
  assumes "store_ok st"
  shows "lookup_in m_id (message (run_events (map (\<lambda>m. (env, MessageUpdated m)) ms) st)) sid mid =
    (case findLast (\<lambda>m. m_sessionID m = sid \<and> m_id m = mid) (map (\<lambda>m. mark_aborted env (clean_message m)) ms) of
       Some m \<Rightarrow> Some m | None \<Rightarrow> lookup_in m_id (message st) sid mid)"
proof -
  let ?f = "\<lambda>m. mark_aborted env (clean_message m)"
  let ?ps = "map (\<lambda>m. (m_sessionID (?f m), ?f m)) ms"
  have run: "message (run_events (map (\<lambda>m. (env, MessageUpdated m)) ms) s) =
      fold (\<lambda>(k, v). put_item m_id k v) (map (\<lambda>m. (m_sessionID (?f m), ?f m)) ms) (message s)" for s
    unfolding run_events_def by (induction ms arbitrary: s) (simp_all add: Let_def)
  have ok: "lists_ok m_id (message st)" using assms by (simp add: store_ok_def)
  have fl: "findLast (\<lambda>x. (case x of (k, v) \<Rightarrow> (k, m_id v)) = (sid, mid)) ?ps =
      map_option (\<lambda>m. (sid, m)) (findLast (\<lambda>m. m_sessionID m = sid \<and> m_id m = mid) (map ?f ms))"
    by (induction ms rule: rev_induct) auto
  from keyed_lists.get_fold_put [OF ok, of ?ps "(sid, mid)"]
  have "map_option (Pair sid) (lookup_in m_id (fold (\<lambda>(k, v). put_item m_id k v) ?ps (message st)) sid mid) =
    map_option (Pair sid) (case findLast (\<lambda>m. m_sessionID m = sid \<and> m_id m = mid) (map ?f ms) of
       Some m \<Rightarrow> Some m | None \<Rightarrow> lookup_in m_id (message st) sid mid)"
    unfolding fl by (simp split: option.split)
  moreover have "inj (map_option (Pair sid :: message \<Rightarrow> jstring \<times> message))"
    by (rule option.inj_map) (simp add: inj_on_def)
  ultimately show ?thesis unfolding run by (rule injD [rotated])
qed

theorem message_updates_last_wins_witness:
  "let m = (\<lambda>i t. \<lparr>m_id = js i, m_sessionID = js ''s'', m_role = js ''assistant'', m_summary = None, m_error = None, m_rest = JStr (js t)\<rparr>);
       env = \<lparr>isAborted = (\<lambda>i. False), hasSetSessionTodo = False, hasVcsCache = False, now = 0\<rparr>
   in lookup_in m_id (message (run_events (map (\<lambda>x. (env, MessageUpdated x)) [m ''b'' ''1'', m ''a'' ''2'', m ''b'' ''3'']) (empty_store 5)))
        (js ''s'') (js ''b'') = Some (m ''b'' ''3'')"
proof -
  let ?m = "\<lambda>i t. \<lparr>m_id = js i, m_sessionID = js ''s'', m_role = js ''assistant'', m_summary = None, m_error = None, m_rest = JStr (js t)\<rparr>"
  let ?env = "\<lparr>isAborted = (\<lambda>i. False), hasSetSessionTodo = False, hasVcsCache = False, now = 0\<rparr>"
  from message_updates_last_wins [OF empty_store_ok [of 5], of ?env "[?m ''b'' ''1'', ?m ''a'' ''2'', ?m ''b'' ''3'']" "js ''s''" "js ''b''"]
  show ?thesis unfolding Let_def by (simp add: clean_message_def mark_aborted_def findLast_def)
qed

text \<open>
  Deleting a session leaves nothing of it behind and touches nothing else: it is gone from the
  session list and from every cache, no message keeps parts of it, and all other sessions and the
  parts of messages without a part of it are unchanged.
\<close>

theorem session_deleted_purges:
  assumes "store_ok st" "s_id info \<noteq> []" "st' = fst (applyDirectoryEvent env (SessionDeleted info) st)"
  shows "find_id s_id (session st') = (find_id s_id (session st))(s_id info := None) \<and>
    jmap_get (message st') = (jmap_get (message st))(s_id info := None) \<and>
    jmap_get (todo st') = (jmap_get (todo st))(s_id info := None) \<and>
    jmap_get (session_diff st') = (jmap_get (session_diff st))(s_id info := None) \<and>
    jmap_get (session_status st') = (jmap_get (session_status st))(s_id info := None) \<and>
    jmap_get (permission st') = (jmap_get (permission st))(s_id info := None) \<and>
    jmap_get (question st') = (jmap_get (question st))(s_id info := None) \<and>
    list_all (\<lambda>(k, ps). list_all (\<lambda>p. p_sessionID p \<noteq> s_id info) ps) (part st') \<and>
    {kp \<in> set (part st). list_all (\<lambda>p. p_sessionID p \<noteq> s_id info) (snd kp)} = set (part st')"
proof -
  have "sorted_ids s_id (session st)" using assms(1) by (simp add: store_ok_def)
  then have "find_id s_id (remove_id s_id (s_id info) (session st)) = (find_id s_id (session st))(s_id info := None)"
    using remove_id_sorted by blast
  then show ?thesis
    using assms(2,3)
    by (auto simp: remove_session_def cleanupSessionCaches_def dropSessionCaches_def Let_def delete_conv'
        list_all_iff list_ex_iff)
qed

theorem session_deleted_purges_witness:
  "let s = \<lparr>s_id = js ''s'', s_parentID = None, s_created = 1, s_updated = None, s_archived = None, s_rest = JNull\<rparr>;
       env = \<lparr>isAborted = (\<lambda>i. False), hasSetSessionTodo = True, hasVcsCache = False, now = 5\<rparr>;
       st = run_events [(env, SessionCreated s), (env, TodoUpdated (js ''s'') [JNull]), (env, TodoUpdated (js ''t'') [])] (empty_store 5);
       st' = fst (applyDirectoryEvent env (SessionDeleted s) st)
   in find_id s_id (session st) (js ''s'') = Some s \<and> find_id s_id (session st') (js ''s'') = None \<and>
      jmap_get (todo st') = [js ''t'' \<mapsto> []]"
proof -
  let ?s = "\<lparr>s_id = js ''s'', s_parentID = None, s_created = 1, s_updated = None, s_archived = None, s_rest = JNull\<rparr>"
  let ?env = "\<lparr>isAborted = (\<lambda>i. False), hasSetSessionTodo = True, hasVcsCache = False, now = 5\<rparr>"
  let ?st = "run_events [(?env, SessionCreated ?s), (?env, TodoUpdated (js ''s'') [JNull]), (?env, TodoUpdated (js ''t'') [])] (empty_store 5)"
  have ok: "store_ok ?st" by (rule run_events_ok [OF empty_store_ok])
  have st: "session ?st = [?s]" "todo ?st = [(js ''s'', [JNull]), (js ''t'', [])]" by code_simp+
  from session_deleted_purges [OF ok, of ?s _ ?env] show ?thesis
    unfolding Let_def by (auto simp: st find_id_def fun_eq_iff)
qed

end
