(* ===== verification/Lock.thy ===== *)
theory Lock
  imports JS_Prelude
begin

text \<open>
  The in-process reader-writer lock, \<open>util/lock.ts\<close>. Lock objects live in a heap, because the
  disposables and the waiting callbacks hold on to the object they were created with while
  \<open>process\<close> looks the object up by key again. A call of \<open>read\<close> or \<open>write\<close> is a handle, named by
  its number: the promise it returns is resolved when the handle is in \<open>granted\<close>, and a waiting
  callback is the number of the handle it would resolve.
\<close>

section \<open>The lock table\<close>

record lock_obj =
  readers :: int
  writer :: bool
  waitingReaders :: "nat list"
  waitingWriters :: "nat list"

datatype lock_kind = Reader | Writer

record handle =
  h_key :: jstring
  h_obj :: nat
  h_kind :: lock_kind

record lock_state =
  objs :: "lock_obj list"
  locks :: "(jstring \<times> nat) list"
  handles :: "handle list"
  granted :: "nat list"

definition new_lock :: lock_obj where
  "new_lock = \<lparr>readers = 0, writer = False, waitingReaders = [], waitingWriters = []\<rparr>"

definition upd_obj :: "nat \<Rightarrow> (lock_obj \<Rightarrow> lock_obj) \<Rightarrow> lock_state \<Rightarrow> lock_state" where
  "upd_obj a f st = st\<lparr>objs := (objs st)[a := f (objs st ! a)]\<rparr>"

definition get :: "jstring \<Rightarrow> lock_state \<Rightarrow> nat \<times> lock_state" where
  "get key st =
     (case jmap_get (locks st) key of
        Some a \<Rightarrow> (a, st)
      | None \<Rightarrow> (length (objs st), st\<lparr>objs := objs st @ [new_lock],
                                     locks := jmap_set key (length (objs st)) (locks st)\<rparr>))"

text \<open>Resolving a handle: what the callbacks and the direct branches do.\<close>

definition resolve_reader :: "nat \<Rightarrow> nat \<Rightarrow> lock_state \<Rightarrow> lock_state" where
  "resolve_reader a h st =
     (upd_obj a (\<lambda>l. l\<lparr>readers := readers l + 1\<rparr>) st)\<lparr>granted := granted st @ [h]\<rparr>"

definition resolve_writer :: "nat \<Rightarrow> nat \<Rightarrow> lock_state \<Rightarrow> lock_state" where
  "resolve_writer a h st =
     (upd_obj a (\<lambda>l. l\<lparr>writer := True\<rparr>) st)\<lparr>granted := granted st @ [h]\<rparr>"

definition wake_readers :: "nat \<Rightarrow> nat list \<Rightarrow> lock_state \<Rightarrow> lock_state" where
  "wake_readers a hs st =
     fold (\<lambda>h s. resolve_reader a h (upd_obj a (\<lambda>l. l\<lparr>waitingReaders := tl (waitingReaders l)\<rparr>) s)) hs st"

definition process :: "jstring \<Rightarrow> lock_state \<Rightarrow> lock_state" where
  "process key st =
     (case jmap_get (locks st) key of
        None \<Rightarrow> st
      | Some a \<Rightarrow>
          (let l = objs st ! a
           in if writer l \<or> readers l > 0 then st
              else case waitingWriters l of
                     w # ws \<Rightarrow> resolve_writer a w (upd_obj a (\<lambda>l. l\<lparr>waitingWriters := ws\<rparr>) st)
                   | [] \<Rightarrow>
                       (let st' = wake_readers a (waitingReaders l) st; l' = objs st' ! a
                        in if readers l' = 0 \<and> \<not> writer l' \<and> waitingReaders l' = [] \<and> waitingWriters l' = []
                           then st'\<lparr>locks := jmap_delete key (locks st')\<rparr>
                           else st')))"

definition new_handle :: "jstring \<Rightarrow> nat \<Rightarrow> lock_kind \<Rightarrow> lock_state \<Rightarrow> lock_state" where
  "new_handle key a k st = st\<lparr>handles := handles st @ [\<lparr>h_key = key, h_obj = a, h_kind = k\<rparr>]\<rparr>"

definition read_lock :: "jstring \<Rightarrow> lock_state \<Rightarrow> lock_state" where
  "read_lock key st =
     (let (a, st1) = get key st; h = length (handles st); st2 = new_handle key a Reader st1; l = objs st1 ! a
      in if \<not> writer l \<and> waitingWriters l = [] then resolve_reader a h st2
         else upd_obj a (\<lambda>l. l\<lparr>waitingReaders := waitingReaders l @ [h]\<rparr>) st2)"

definition write_lock :: "jstring \<Rightarrow> lock_state \<Rightarrow> lock_state" where
  "write_lock key st =
     (let (a, st1) = get key st; h = length (handles st); st2 = new_handle key a Writer st1; l = objs st1 ! a
      in if \<not> writer l \<and> readers l = 0 then resolve_writer a h st2
         else upd_obj a (\<lambda>l. l\<lparr>waitingWriters := waitingWriters l @ [h]\<rparr>) st2)"

text \<open>\<open>Symbol.dispose\<close> of the disposable the handle was resolved with.\<close>

definition dispose :: "nat \<Rightarrow> lock_state \<Rightarrow> lock_state" where
  "dispose h st =
     (let hd = handles st ! h
      in process (h_key hd)
           (upd_obj (h_obj hd)
             (\<lambda>l. case h_kind hd of Reader \<Rightarrow> l\<lparr>readers := readers l - 1\<rparr> | Writer \<Rightarrow> l\<lparr>writer := False\<rparr>) st))"

definition init_locks :: lock_state where
  "init_locks = \<lparr>objs = [], locks = [], handles = [], granted = []\<rparr>"

text \<open>
  The clients: any calls of \<open>read\<close> and \<open>write\<close>, and one \<open>dispose\<close> of each resolved handle. The
  second component is the set of disposed handles.
\<close>

inductive dispose_step :: "lock_state \<times> nat set \<Rightarrow> lock_state \<times> nat set \<Rightarrow> bool" where
  do_dispose: "h \<in> set (granted st) \<Longrightarrow> h \<notin> d \<Longrightarrow> dispose_step (st, d) (dispose h st, insert h d)"

inductive lock_step :: "lock_state \<times> nat set \<Rightarrow> lock_state \<times> nat set \<Rightarrow> bool" where
  do_read: "lock_step (st, d) (read_lock key st, d)"
| do_write: "lock_step (st, d) (write_lock key st, d)"
| do_release: "dispose_step s s' \<Longrightarrow> lock_step s s'"

inductive_cases dispose_stepE [elim!]: "dispose_step (st, d) s'"

section \<open>Active and waiting handles\<close>

definition act :: "handle list \<Rightarrow> nat list \<Rightarrow> nat set \<Rightarrow> nat \<Rightarrow> lock_kind \<Rightarrow> nat list" where
  "act hs gr d a k = filter (\<lambda>h. h \<notin> d \<and> h_obj (hs ! h) = a \<and> h_kind (hs ! h) = k) gr"

definition wtg :: "handle list \<Rightarrow> nat list \<Rightarrow> nat \<Rightarrow> lock_kind \<Rightarrow> nat set" where
  "wtg hs gr a k = {h. h < length hs \<and> h \<notin> set gr \<and> h_obj (hs ! h) = a \<and> h_kind (hs ! h) = k}"

text \<open>What a lock object says of its handles, and that it is held by someone.\<close>

definition obj_base :: "lock_obj \<Rightarrow> (lock_kind \<Rightarrow> nat list) \<Rightarrow> (lock_kind \<Rightarrow> nat set) \<Rightarrow> bool" where
  "obj_base l ac wt \<longleftrightarrow>
     readers l = int (length (ac Reader)) \<and> (writer l \<longleftrightarrow> ac Writer \<noteq> []) \<and> length (ac Writer) \<le> 1 \<and>
     (writer l \<longrightarrow> ac Reader = []) \<and>
     distinct (waitingReaders l) \<and> set (waitingReaders l) = wt Reader \<and>
     distinct (waitingWriters l) \<and> set (waitingWriters l) = wt Writer"

definition obj_held :: "lock_obj \<Rightarrow> bool" where
  "obj_held l \<longleftrightarrow> (writer l \<or> readers l > 0) \<and> (waitingReaders l \<noteq> [] \<longrightarrow> writer l \<or> waitingWriters l \<noteq> [])"

definition table_ok :: "lock_state \<Rightarrow> nat set \<Rightarrow> bool" where
  "table_ok st d \<longleftrightarrow>
     distinct (map fst (locks st)) \<and> inj_on (jmap_get (locks st)) (dom (jmap_get (locks st))) \<and>
     (\<forall>k a. jmap_get (locks st) k = Some a \<longrightarrow> a < length (objs st)) \<and>
     distinct (granted st) \<and> set (granted st) \<subseteq> {..<length (handles st)} \<and> d \<subseteq> set (granted st) \<and>
     (\<forall>h<length (handles st). h_obj (handles st ! h) < length (objs st)) \<and>
     (\<forall>h<length (handles st). h \<notin> d \<longrightarrow> jmap_get (locks st) (h_key (handles st ! h)) = Some (h_obj (handles st ! h)))"

definition base_at :: "lock_state \<Rightarrow> nat set \<Rightarrow> nat \<Rightarrow> bool" where
  "base_at st d a = obj_base (objs st ! a) (act (handles st) (granted st) d a) (wtg (handles st) (granted st) a)"

definition lock_inv :: "lock_state \<Rightarrow> nat set \<Rightarrow> bool" where
  "lock_inv st d \<longleftrightarrow> table_ok st d \<and>
     (\<forall>k a. jmap_get (locks st) k = Some a \<longrightarrow> base_at st d a \<and> obj_held (objs st ! a))"

section \<open>Frame rules\<close>

lemma upd_obj_simps [simp]:
  "objs (upd_obj a f st) = (objs st)[a := f (objs st ! a)]"
  "locks (upd_obj a f st) = locks st" "handles (upd_obj a f st) = handles st"
  "granted (upd_obj a f st) = granted st"
  by (simp_all add: upd_obj_def)

lemma resolve_simps [simp]:
  "objs (resolve_reader a h st) = (objs st)[a := (objs st ! a)\<lparr>readers := readers (objs st ! a) + 1\<rparr>]"
  "locks (resolve_reader a h st) = locks st" "handles (resolve_reader a h st) = handles st"
  "granted (resolve_reader a h st) = granted st @ [h]"
  "objs (resolve_writer a h st) = (objs st)[a := (objs st ! a)\<lparr>writer := True\<rparr>]"
  "locks (resolve_writer a h st) = locks st" "handles (resolve_writer a h st) = handles st"
  "granted (resolve_writer a h st) = granted st @ [h]"
  by (simp_all add: resolve_reader_def resolve_writer_def)

lemma new_handle_simps [simp]:
  "objs (new_handle key a k st) = objs st" "locks (new_handle key a k st) = locks st"
  "granted (new_handle key a k st) = granted st"
  "handles (new_handle key a k st) = handles st @ [\<lparr>h_key = key, h_obj = a, h_kind = k\<rparr>]"
  by (simp_all add: new_handle_def)

lemma act_new: "set gr \<subseteq> {..<length hs} \<Longrightarrow> act (hs @ [x]) gr d a k = act hs gr d a k"
  unfolding act_def by (rule filter_cong) (auto simp: nth_append)

lemma wtg_new:
  "set gr \<subseteq> {..<length hs} \<Longrightarrow> wtg (hs @ [x]) gr a k =
     (if h_obj x = a \<and> h_kind x = k then insert (length hs) (wtg hs gr a k) else wtg hs gr a k)"
  unfolding wtg_def by (auto simp: nth_append less_Suc_eq)

lemma act_grant:
  "act hs (gr @ [h]) d a k =
     act hs gr d a k @ (if h \<notin> d \<and> h_obj (hs ! h) = a \<and> h_kind (hs ! h) = k then [h] else [])"
  by (simp add: act_def)

lemma wtg_grant: "wtg hs (gr @ [h]) a k = wtg hs gr a k - {h}"
  by (auto simp: wtg_def)

lemma act_release: "act hs gr (insert h d) a k = filter (\<lambda>x. x \<noteq> h) (act hs gr d a k)"
  by (auto simp: act_def intro: filter_cong)

lemma wtg_ungranted: "set gr \<subseteq> {..<length hs} \<Longrightarrow> h \<in> wtg hs gr a k \<Longrightarrow> h < length hs \<and> h \<notin> set gr"
  by (simp add: wtg_def)

lemmas handle_views = act_new wtg_new act_grant wtg_grant act_release

section \<open>The invariant, object by object\<close>

text \<open>All objects are consistent, and all but one are held as long as they are in the table.\<close>

definition lock_pre :: "lock_state \<Rightarrow> nat set \<Rightarrow> nat \<Rightarrow> bool" where
  "lock_pre st d a \<longleftrightarrow> table_ok st d \<and>
     (\<forall>k b. jmap_get (locks st) k = Some b \<longrightarrow> base_at st d b \<and> (b \<noteq> a \<longrightarrow> obj_held (objs st ! b)))"

lemma lock_inv_pre: "lock_inv st d \<Longrightarrow> lock_pre st d a"
  by (simp add: lock_inv_def lock_pre_def)

lemma lock_pre_inv: "lock_pre st d a \<Longrightarrow> obj_held (objs st ! a) \<Longrightarrow> lock_inv st d"
  by (auto simp: lock_inv_def lock_pre_def)

lemma table_range: "table_ok st d \<Longrightarrow> jmap_get (locks st) k = Some a \<Longrightarrow> a < length (objs st)"
  by (simp add: table_ok_def)

lemma table_granted: "table_ok st d \<Longrightarrow> set (granted st) \<subseteq> {..<length (handles st)}"
  by (simp add: table_ok_def)

text \<open>
  A change of one object: the other objects keep their views when the handles concerned belong
  to this one.
\<close>

lemma pre_change:
  assumes pre: "lock_pre st d a" and tab: "table_ok st' d'" "locks st' = locks st"
    and oth: "\<And>b. b \<noteq> a \<Longrightarrow> objs st' ! b = objs st ! b"
      "\<And>b k. b \<noteq> a \<Longrightarrow> act (handles st') (granted st') d' b k = act (handles st) (granted st) d b k"
      "\<And>b k. b \<noteq> a \<Longrightarrow> wtg (handles st') (granted st') b k = wtg (handles st) (granted st) b k"
    and here: "base_at st d a \<Longrightarrow> base_at st' d' a"
  shows "lock_pre st' d' a"
  unfolding lock_pre_def
proof (intro conjI allI impI)
  fix k b assume k: "jmap_get (locks st') k = Some b"
  then have old: "base_at st d b" "b \<noteq> a \<longrightarrow> obj_held (objs st ! b)"
    using pre tab(2) by (auto simp: lock_pre_def)
  show "base_at st' d' b"
  proof (cases "b = a")
    case True
    then show ?thesis using old(1) here by simp
  next
    case False
    then have "act (handles st') (granted st') d' b = act (handles st) (granted st) d b"
      "wtg (handles st') (granted st') b = wtg (handles st) (granted st) b"
      using oth by (auto simp: fun_eq_iff)
    then show ?thesis using old(1) oth(1)[OF False] by (simp add: base_at_def)
  qed
  show "obj_held (objs st' ! b)" if "b \<noteq> a" using old(2) oth(1)[OF that] that by simp
qed (rule tab)

lemma pre_base: "lock_pre st d a \<Longrightarrow> jmap_get (locks st) k = Some b \<Longrightarrow> base_at st d b"
  by (simp add: lock_pre_def)

lemma pre_table: "lock_pre st d a \<Longrightarrow> table_ok st d"
  by (simp add: lock_pre_def)

lemma table_ok_upd [simp]: "table_ok (upd_obj a f st) d = table_ok st d"
  by (simp add: table_ok_def)

lemma table_ok_resolve:
  assumes "table_ok st d" "h < length (handles st)" "h \<notin> set (granted st)"
  shows "table_ok (resolve_reader a h st) d" "table_ok (resolve_writer a h st) d"
  using assms by (auto simp: table_ok_def)

lemma table_ok_new:
  assumes t: "table_ok st d" and k: "jmap_get (locks st) key = Some a"
  shows "table_ok (new_handle key a kd st) d"
proof -
  have "a < length (objs st)" using table_range[OF t k] .
  moreover have "set (granted st) \<subseteq> {..<length (handles st @ [x])}" for x
    using table_granted[OF t] by (auto simp: less_Suc_eq)
  ultimately show ?thesis
    using t k unfolding table_ok_def new_handle_simps length_append_singleton All_less_Suc nth_append_length
    by (simp add: nth_append)
qed

lemma pre_new_fresh:
  assumes "table_ok st d"
  shows "length (handles st) \<notin> set (granted st)" "length (handles st) \<notin> d"
    "length (handles st) \<notin> wtg (handles st) gr a k"
  using assms by (auto simp: table_ok_def wtg_def)

lemma enqueue_pre:
  assumes "lock_pre st d a" "jmap_get (locks st) key = Some a"
    "f = (\<lambda>l. case k of Reader \<Rightarrow> l\<lparr>waitingReaders := waitingReaders l @ [length (handles st)]\<rparr>
                      | Writer \<Rightarrow> l\<lparr>waitingWriters := waitingWriters l @ [length (handles st)]\<rparr>)"
  shows "lock_pre (upd_obj a f (new_handle key a k st)) d a"
proof (rule pre_change[OF assms(1)])
  note t = pre_table[OF assms(1)]
  note g = table_granted[OF t] and r = table_range[OF t assms(2)] and n = pre_new_fresh[OF t]
  show "table_ok (upd_obj a f (new_handle key a k st)) d"
    using table_ok_new[OF t assms(2)] by simp
  show "base_at (upd_obj a f (new_handle key a k st)) d a" if "base_at st d a"
    using that r n
    by (cases k) (simp_all add: base_at_def obj_base_def act_new[OF g] wtg_new[OF g] assms(3))
  fix b kd assume "b \<noteq> a"
  then show "act (handles (upd_obj a f (new_handle key a k st))) (granted (upd_obj a f (new_handle key a k st))) d b kd
      = act (handles st) (granted st) d b kd"
    and "wtg (handles (upd_obj a f (new_handle key a k st))) (granted (upd_obj a f (new_handle key a k st))) b kd
      = wtg (handles st) (granted st) b kd"
    by (simp_all add: act_new[OF g] wtg_new[OF g])
qed simp_all

lemma acquire_pre:
  assumes pre: "lock_pre st d a" and key: "jmap_get (locks st) key = Some a"
    and free: "\<not> writer (objs st ! a)"
  shows "lock_pre (resolve_reader a (length (handles st)) (new_handle key a Reader st)) d a"
    and "readers (objs st ! a) = 0 \<Longrightarrow>
         lock_pre (resolve_writer a (length (handles st)) (new_handle key a Writer st)) d a"
proof -
  note t = pre_table[OF pre]
  note g = table_granted[OF t] and r = table_range[OF t key] and n = pre_new_fresh[OF t]
  note v = act_grant wtg_grant act_new[OF g] wtg_new[OF g]
  show "lock_pre (resolve_reader a (length (handles st)) (new_handle key a Reader st)) d a"
    by (rule pre_change[OF pre]) (use r n free table_ok_new[OF t key] in
        \<open>auto simp: v base_at_def obj_base_def intro!: table_ok_resolve\<close>)
  show "lock_pre (resolve_writer a (length (handles st)) (new_handle key a Writer st)) d a"
    if "readers (objs st ! a) = 0"
    by (rule pre_change[OF pre]) (use r n free that table_ok_new[OF t key] in
        \<open>auto simp: v base_at_def obj_base_def intro!: table_ok_resolve\<close>)
qed

lemma waiting_handle:
  assumes "base_at st d a" "h \<in> set (waitingReaders (objs st ! a))"
  shows "h < length (handles st) \<and> h \<notin> set (granted st) \<and> h_obj (handles st ! h) = a \<and>
    h_kind (handles st ! h) = Reader"
  using assms by (simp add: base_at_def obj_base_def wtg_def)

lemma waiting_handle_w:
  assumes "base_at st d a" "h \<in> set (waitingWriters (objs st ! a))"
  shows "h < length (handles st) \<and> h \<notin> set (granted st) \<and> h_obj (handles st ! h) = a \<and>
    h_kind (handles st ! h) = Writer"
  using assms by (simp add: base_at_def obj_base_def wtg_def)

lemma wake_reader_pre:
  assumes pre: "lock_pre st d a" and key: "jmap_get (locks st) key = Some a"
    and free: "\<not> writer (objs st ! a)" and q: "waitingReaders (objs st ! a) = h # hs"
  shows "lock_pre (resolve_reader a h (upd_obj a (\<lambda>l. l\<lparr>waitingReaders := tl (waitingReaders l)\<rparr>) st)) d a"
proof -
  note t = pre_table[OF pre]
  note r = table_range[OF t key]
  have w: "h < length (handles st)" "h \<notin> set (granted st)" "h_obj (handles st ! h) = a" "h_kind (handles st ! h) = Reader"
    using waiting_handle[OF pre_base[OF pre key], of h] q by auto
  have d: "h \<notin> d" using t w(2) by (auto simp: table_ok_def)
  show ?thesis
  proof (rule pre_change[OF pre])
    assume "base_at st d a"
    then show "base_at (resolve_reader a h (upd_obj a (\<lambda>l. l\<lparr>waitingReaders := tl (waitingReaders l)\<rparr>) st)) d a"
      using r q w d free
      by (auto simp: base_at_def obj_base_def act_grant wtg_grant) (auto simp: wtg_def)
  qed (use t w in \<open>auto simp: act_grant wtg_grant wtg_def intro!: table_ok_resolve\<close>)
qed

lemma wake_writer_pre:
  assumes pre: "lock_pre st d a" and key: "jmap_get (locks st) key = Some a"
    and free: "\<not> writer (objs st ! a)" "readers (objs st ! a) = 0" and q: "waitingWriters (objs st ! a) = h # hs"
  shows "lock_pre (resolve_writer a h (upd_obj a (\<lambda>l. l\<lparr>waitingWriters := hs\<rparr>) st)) d a"
proof -
  note t = pre_table[OF pre]
  note r = table_range[OF t key]
  have w: "h < length (handles st)" "h \<notin> set (granted st)" "h_obj (handles st ! h) = a" "h_kind (handles st ! h) = Writer"
    using waiting_handle_w[OF pre_base[OF pre key], of h] q by auto
  have d: "h \<notin> d" using t w(2) by (auto simp: table_ok_def)
  show ?thesis
  proof (rule pre_change[OF pre])
    assume "base_at st d a"
    then show "base_at (resolve_writer a h (upd_obj a (\<lambda>l. l\<lparr>waitingWriters := hs\<rparr>) st)) d a"
      using r q w d free
      by (auto simp: base_at_def obj_base_def act_grant wtg_grant) (auto simp: wtg_def)
  qed (use t w in \<open>auto simp: act_grant wtg_grant wtg_def intro!: table_ok_resolve\<close>)
qed

lemma wake_readers_pre:
  assumes "lock_pre st d a" "jmap_get (locks st) key = Some a" "\<not> writer (objs st ! a)"
    "waitingReaders (objs st ! a) = hs"
  shows "lock_pre (wake_readers a hs st) d a \<and> locks (wake_readers a hs st) = locks st \<and>
    objs (wake_readers a hs st) ! a =
      (objs st ! a)\<lparr>readers := readers (objs st ! a) + int (length hs), waitingReaders := []\<rparr> \<and>
    handles (wake_readers a hs st) = handles st \<and> granted (wake_readers a hs st) = granted st @ hs"
  using assms
proof (induction hs arbitrary: st)
  case Nil
  then show ?case by (simp add: wake_readers_def)
next
  case (Cons h hs)
  define st1 where "st1 = resolve_reader a h (upd_obj a (\<lambda>l. l\<lparr>waitingReaders := tl (waitingReaders l)\<rparr>) st)"
  have r: "a < length (objs st)" using table_range[OF pre_table] Cons.prems by blast
  have "lock_pre st1 d a" unfolding st1_def using wake_reader_pre Cons.prems by blast
  moreover have o: "objs st1 ! a = (objs st ! a)\<lparr>readers := readers (objs st ! a) + 1, waitingReaders := hs\<rparr>"
    using r Cons.prems(4) by (simp add: st1_def)
  ultimately have "lock_pre (wake_readers a hs st1) d a \<and> locks (wake_readers a hs st1) = locks st1 \<and>
    objs (wake_readers a hs st1) ! a =
      (objs st1 ! a)\<lparr>readers := readers (objs st1 ! a) + int (length hs), waitingReaders := []\<rparr> \<and>
    handles (wake_readers a hs st1) = handles st1 \<and> granted (wake_readers a hs st1) = granted st1 @ hs"
    using Cons.prems by (intro Cons.IH) (simp_all add: st1_def r)
  moreover have "wake_readers a (h # hs) st = wake_readers a hs st1"
    by (simp add: wake_readers_def st1_def)
  ultimately show ?case using o by (simp add: st1_def)
qed

lemma delete_inv:
  assumes pre: "lock_pre st d a" and key: "jmap_get (locks st) key = Some a"
    and empty: "readers (objs st ! a) = 0" "\<not> writer (objs st ! a)" "waitingReaders (objs st ! a) = []"
      "waitingWriters (objs st ! a) = []"
  shows "lock_inv (st\<lparr>locks := jmap_delete key (locks st)\<rparr>) d"
proof -
  note t = pre_table[OF pre]
  have b: "base_at st d a" using pre_base[OF pre key] .
  have none: "act (handles st) (granted st) d a k = [] \<and> wtg (handles st) (granted st) a k = {}" for k
    using b empty by (cases k) (simp_all add: base_at_def obj_base_def)
  have gone: "h_obj (handles st ! h) \<noteq> a" if "h < length (handles st)" "h \<notin> d" for h
    using none[of "h_kind (handles st ! h)"] that
    by (cases "h \<in> set (granted st)") (auto simp: act_def wtg_def filter_empty_conv)
  have gone': "h_key (handles st ! h) \<noteq> key" if "h < length (handles st)" "h \<notin> d" for h
    using gone[OF that] t key that by (fastforce simp: table_ok_def)
  have inj: "b \<noteq> a" if "jmap_get (locks st) k = Some b" "k \<noteq> key" for k b
    using t key that by (auto simp: table_ok_def inj_on_def dom_def)
  have "table_ok (st\<lparr>locks := jmap_delete key (locks st)\<rparr>) d"
    using t gone'
    by (auto simp: table_ok_def delete_conv' distinct_delete inj_on_def dom_def split: if_splits)
  then show ?thesis
    using pre inj by (auto simp: lock_inv_def lock_pre_def delete_conv' base_at_def split: if_splits)
qed

lemma process_inv:
  assumes pre: "lock_pre st d a" and key: "jmap_get (locks st) key = Some a"
    and held: "writer (objs st ! a) \<or> readers (objs st ! a) > 0 \<Longrightarrow> obj_held (objs st ! a)"
  shows "lock_inv (process key st) d"
proof (cases "writer (objs st ! a) \<or> readers (objs st ! a) > 0")
  case True
  then show ?thesis using lock_pre_inv[OF pre held] key by (simp add: process_def)
next
  case False
  have r: "a < length (objs st)" using table_range[OF pre_table[OF pre] key] .
  have r0: "readers (objs st ! a) = 0"
    using False pre_base[OF pre key] by (simp add: base_at_def obj_base_def)
  show ?thesis
  proof (cases "waitingWriters (objs st ! a)")
    case (Cons w ws)
    have "obj_held ((objs st ! a)\<lparr>waitingWriters := ws, writer := True\<rparr>)" by (simp add: obj_held_def)
    then show ?thesis
      using lock_pre_inv[OF wake_writer_pre[OF pre key _ r0 Cons]] False key Cons r
      by (simp add: process_def)
  next
    case Nil
    define rs where "rs = waitingReaders (objs st ! a)"
    define st' where "st' = wake_readers a rs st"
    have w: "lock_pre st' d a" "locks st' = locks st"
      "objs st' ! a = (objs st ! a)\<lparr>readers := int (length rs), waitingReaders := []\<rparr>"
      using wake_readers_pre[OF pre key, of rs] False r0 by (simp_all add: st'_def rs_def)
    show ?thesis
    proof (cases rs)
      case Nil': Nil
      have "lock_inv (st'\<lparr>locks := jmap_delete key (locks st')\<rparr>) d"
        by (rule delete_inv[OF w(1)]) (use key w Nil Nil' False in auto)
      moreover have "process key st = st'\<lparr>locks := jmap_delete key (locks st')\<rparr>"
        using key False Nil w(3) Nil' by (simp add: process_def Let_def st'_def flip: rs_def)
      ultimately show ?thesis by simp
    next
      case (Cons h hs)
      have "lock_inv st' d" by (rule lock_pre_inv[OF w(1)]) (simp add: w(3) obj_held_def Cons)
      moreover have "process key st = st'"
        using key False Nil w(3) Cons by (simp add: process_def Let_def st'_def flip: rs_def)
      ultimately show ?thesis by simp
    qed
  qed
qed

lemma length_filter_ne:
  "distinct xs \<Longrightarrow> int (length (filter (\<lambda>x. x \<noteq> h) xs)) = int (length xs) - (if h \<in> set xs then 1 else 0)"
proof (induction xs)
  case (Cons x xs)
  then show ?case by (cases "x = h") (auto cong: if_cong)
qed simp

lemma release_pre:
  assumes inv: "lock_inv st d" and h: "h \<in> set (granted st)" "h \<notin> d"
    and f: "f = (\<lambda>l. case h_kind (handles st ! h) of Reader \<Rightarrow> l\<lparr>readers := readers l - 1\<rparr>
                                                  | Writer \<Rightarrow> l\<lparr>writer := False\<rparr>)"
    and a: "a = h_obj (handles st ! h)"
  shows "lock_pre (upd_obj a f st) (insert h d) a"
    and "jmap_get (locks st) (h_key (handles st ! h)) = Some a"
    and "writer (f (objs st ! a)) \<or> readers (f (objs st ! a)) > 0 \<Longrightarrow> obj_held (f (objs st ! a))"
proof -
  have t: "table_ok st d" using inv by (simp add: lock_inv_def)
  have hl: "h < length (handles st)" using h table_granted[OF t] by auto
  show k: "jmap_get (locks st) (h_key (handles st ! h)) = Some a"
    using t hl h(2) a by (simp add: table_ok_def)
  then have b: "base_at st d a" "obj_held (objs st ! a)" and r: "a < length (objs st)"
    using inv table_range[OF t k] by (auto simp: lock_inv_def)
  define ac where "ac = act (handles st) (granted st) d a"
  have dist: "distinct (ac k)" for k using t by (simp add: ac_def act_def table_ok_def)
  have mem: "h \<in> set (ac k) \<longleftrightarrow> h_kind (handles st ! h) = k" for k
    using h a by (auto simp: ac_def act_def)
  have len: "int (length (filter (\<lambda>x. x \<noteq> h) (ac k))) =
    int (length (ac k)) - (if h_kind (handles st ! h) = k then 1 else 0)" for k
    using length_filter_ne[OF dist] mem by simp
  have o: "obj_base (objs st ! a) ac (wtg (handles st) (granted st) a)"
    using b(1) by (simp add: base_at_def ac_def)
  have w1: "h_kind (handles st ! h) = Writer \<Longrightarrow> ac Writer = [h] \<and> ac Reader = [] \<and> writer (objs st ! a)"
    using o mem[of Writer] by (cases "ac Writer") (auto simp: obj_base_def)
  show "lock_pre (upd_obj a f st) (insert h d) a"
  proof (rule pre_change[OF lock_inv_pre[OF inv]])
    show "table_ok (upd_obj a f st) (insert h d)" using t h by (auto simp: table_ok_def)
    show "base_at (upd_obj a f st) (insert h d) a"
    proof (cases "h_kind (handles st ! h)")
      case Reader
      then show ?thesis
        using o r len[of Reader] mem[of Reader] mem[of Writer] unfolding base_at_def obj_base_def
        by (auto simp: f act_release simp flip: ac_def)
    next
      case Writer
      then show ?thesis
        using o r w1 unfolding base_at_def obj_base_def
        by (auto simp: f act_release simp flip: ac_def)
    qed
  qed (use h a in \<open>auto simp: act_release act_def intro: filter_cong\<close>)
  show "obj_held (f (objs st ! a))" if "writer (f (objs st ! a)) \<or> readers (f (objs st ! a)) > 0"
    using that b(2) o w1 mem[of Reader]
    by (cases "h_kind (handles st ! h)") (auto simp: f obj_held_def obj_base_def)
qed

lemma dispose_inv:
  assumes "lock_inv st d" "h \<in> set (granted st)" "h \<notin> d"
  shows "lock_inv (dispose h st) (insert h d)"
proof -
  note p = release_pre[OF assms refl refl]
  have "h_obj (handles st ! h) < length (objs st)"
    using p(2) assms(1) by (auto simp: lock_inv_def dest: table_range)
  then show ?thesis
    unfolding dispose_def Let_def by (intro process_inv[OF p(1)]) (use p(2,3) in simp_all)
qed

section \<open>Acquiring\<close>

lemma get_pre:
  assumes inv: "lock_inv st d" and g: "get key st = (a, st1)"
  shows "lock_pre st1 d a \<and> jmap_get (locks st1) key = Some a \<and> handles st1 = handles st \<and> granted st1 = granted st \<and>
    (objs st1 ! a = new_lock \<or> obj_held (objs st1 ! a))"
proof (cases "jmap_get (locks st) key")
  case (Some b)
  then show ?thesis using inv g by (auto simp: get_def lock_inv_pre) (simp add: lock_inv_def)
next
  case None
  have t: "table_ok st d" using inv by (simp add: lock_inv_def)
  have st1: "st1 = st\<lparr>objs := objs st @ [new_lock], locks := jmap_set key (length (objs st)) (locks st)\<rparr>"
    "a = length (objs st)"
    using None g by (auto simp: get_def)
  have ne: "h_obj (handles st ! h) \<noteq> a" if "h < length (handles st)" for h
    using t st1(2) that by (auto simp: table_ok_def)
  have fresh: "act (handles st) (granted st) d a k = [] \<and> wtg (handles st) (granted st) a k = {}" for k
    using ne table_granted[OF t] by (auto simp: act_def wtg_def filter_empty_conv)
  have new: "base_at st1 d a" using fresh by (simp add: base_at_def st1 obj_base_def new_lock_def)
  have old: "base_at st1 d b = base_at st d b \<and> objs st1 ! b = objs st ! b \<and> b \<noteq> a"
    if "jmap_get (locks st) k = Some b" for k b
    using table_range[OF t that] by (auto simp: base_at_def st1 nth_append)
  have m: "map_of (locks st1) = (map_of (locks st))(key \<mapsto> a)" by (simp add: st1 update_conv')
  have "table_ok st1 d"
    unfolding table_ok_def m
  proof (intro conjI)
    show "inj_on ((map_of (locks st))(key \<mapsto> a)) (dom ((map_of (locks st))(key \<mapsto> a)))"
    proof (rule inj_onI)
      fix x y assume xy: "x \<in> dom ((map_of (locks st))(key \<mapsto> a))" "y \<in> dom ((map_of (locks st))(key \<mapsto> a))"
        "((map_of (locks st))(key \<mapsto> a)) x = ((map_of (locks st))(key \<mapsto> a)) y"
      have n: "map_of (locks st) z \<noteq> Some a" for z using old by blast
      show "x = y"
      proof (cases "x = key \<or> y = key")
        case True
        then show ?thesis using xy(3) n by (auto split: if_splits dest: sym)
      next
        case False
        then have "x \<in> dom (map_of (locks st))" "y \<in> dom (map_of (locks st))" "map_of (locks st) x = map_of (locks st) y"
          using xy by auto
        then show ?thesis using t unfolding table_ok_def by (meson inj_onD)
      qed
    qed
    show "\<forall>h<length (handles st1). h \<notin> d \<longrightarrow>
      ((map_of (locks st))(key \<mapsto> a)) (h_key (handles st1 ! h)) = Some (h_obj (handles st1 ! h))"
      using t None by (auto simp: table_ok_def st1(1))
    show "\<forall>k b. ((map_of (locks st))(key \<mapsto> a)) k = Some b \<longrightarrow> b < length (objs st1)"
      using table_range[OF t] by (auto simp: st1 less_Suc_eq)
    show "\<forall>h<length (handles st1). h_obj (handles st1 ! h) < length (objs st1)"
      using t by (auto simp: table_ok_def st1(1) less_Suc_eq)
  qed (use t in \<open>auto simp: table_ok_def st1(1) distinct_update\<close>)
  then have "lock_pre st1 d a"
    using inv new old by (auto simp: lock_pre_def lock_inv_def m split: if_splits)
  then show ?thesis using m by (simp add: st1)
qed

lemma base_readers: "lock_pre st d a \<Longrightarrow> jmap_get (locks st) k = Some a \<Longrightarrow> readers (objs st ! a) \<ge> 0"
  using pre_base[of st d a k a] by (simp add: base_at_def obj_base_def)

lemma read_inv:
  assumes inv: "lock_inv st d"
  shows "lock_inv (read_lock key st) d"
proof -
  obtain a st1 where g: "get key st = (a, st1)" by fastforce
  define l where "l = objs st1 ! a"
  have p: "lock_pre st1 d a" "jmap_get (locks st1) key = Some a" "handles st1 = handles st" "l = new_lock \<or> obj_held l"
    using get_pre[OF inv g] by (simp_all add: l_def)
  have r: "a < length (objs st1)" using table_range[OF pre_table[OF p(1)] p(2)] .
  show ?thesis
  proof (cases "\<not> writer l \<and> waitingWriters l = []")
    case True
    then have "obj_held (l\<lparr>readers := readers l + 1\<rparr>)"
      using p(4) base_readers[OF p(1,2)] by (auto simp: obj_held_def new_lock_def simp flip: l_def)
    then show ?thesis
      using True lock_pre_inv[OF acquire_pre(1)[OF p(1,2)]] r g
      by (simp add: read_lock_def p(3) flip: l_def)
  next
    case False
    then have "obj_held (l\<lparr>waitingReaders := waitingReaders l @ [length (handles st)]\<rparr>)"
      using p(4) by (auto simp: obj_held_def new_lock_def)
    then show ?thesis
      using False lock_pre_inv[OF enqueue_pre[OF p(1,2) refl, where k = Reader]] r g
      by (auto simp: read_lock_def Let_def p(3) simp flip: l_def)
  qed
qed

lemma write_inv:
  assumes inv: "lock_inv st d"
  shows "lock_inv (write_lock key st) d"
proof -
  obtain a st1 where g: "get key st = (a, st1)" by fastforce
  define l where "l = objs st1 ! a"
  have p: "lock_pre st1 d a" "jmap_get (locks st1) key = Some a" "handles st1 = handles st" "l = new_lock \<or> obj_held l"
    using get_pre[OF inv g] by (simp_all add: l_def)
  have r: "a < length (objs st1)" using table_range[OF pre_table[OF p(1)] p(2)] .
  show ?thesis
  proof (cases "\<not> writer l \<and> readers l = 0")
    case True
    have "obj_held (l\<lparr>writer := True\<rparr>)" by (simp add: obj_held_def)
    then show ?thesis
      using True lock_pre_inv[OF acquire_pre(2)[OF p(1,2)]] r g
      by (simp add: write_lock_def p(3) flip: l_def)
  next
    case False
    then have "obj_held (l\<lparr>waitingWriters := waitingWriters l @ [length (handles st)]\<rparr>)"
      using p(4) by (auto simp: obj_held_def new_lock_def)
    then show ?thesis
      using False lock_pre_inv[OF enqueue_pre[OF p(1,2) refl, where k = Writer]] r g
      by (auto simp: write_lock_def Let_def p(3) simp flip: l_def)
  qed
qed

lemma lock_step_inv: "lock_step s s' \<Longrightarrow> lock_inv (fst s) (snd s) \<Longrightarrow> lock_inv (fst s') (snd s')"
  by (induction rule: lock_step.induct) (auto simp: read_inv write_inv dispose_inv elim: dispose_step.cases)

lemma init_inv: "lock_inv init_locks {}"
  by (simp add: lock_inv_def table_ok_def init_locks_def)

lemma lock_reachable_inv: "lock_step\<^sup>*\<^sup>* (init_locks, {}) (st, d) \<Longrightarrow> lock_inv st d"
proof (induction "(st, d)" arbitrary: st d rule: rtranclp_induct)
  case base
  then show ?case by (simp add: init_inv)
next
  case (step s)
  then show ?case using lock_step_inv[OF step(2)] by (cases s) simp
qed

lemma inv_handle:
  assumes "lock_inv st d" "h < length (handles st)" "h \<notin> d"
  shows "base_at st d (h_obj (handles st ! h))" "obj_held (objs st ! h_obj (handles st ! h))"
    "jmap_get (locks st) (h_key (handles st ! h)) = Some (h_obj (handles st ! h))"
  using assms by (auto simp: lock_inv_def table_ok_def)

text \<open>
  C19. In every reachable state a writer is alone: two different handles of the same key that
  are resolved and not yet disposed are both readers.
\<close>

theorem lock_mutual_exclusion:
  assumes "lock_step\<^sup>*\<^sup>* (init_locks, {}) (st, d)" "h \<in> set (granted st) - d" "h' \<in> set (granted st) - d" "h \<noteq> h'"
    "h_key (handles st ! h) = h_key (handles st ! h')"
  shows "h_kind (handles st ! h) = Reader \<and> h_kind (handles st ! h') = Reader"
proof -
  have inv: "lock_inv st d" by (rule lock_reachable_inv[OF assms(1)])
  have l: "h < length (handles st)" "h' < length (handles st)"
    using inv assms(2,3) by (auto simp: lock_inv_def dest!: table_granted)
  define a where "a = h_obj (handles st ! h)"
  have a': "h_obj (handles st ! h') = a"
    using inv_handle(3)[OF inv l(1)] inv_handle(3)[OF inv l(2)] assms by (simp add: a_def)
  have b: "base_at st d a" using inv_handle(1)[OF inv l(1)] assms(2) by (simp add: a_def)
  have m: "h \<in> set (act (handles st) (granted st) d a k) \<longleftrightarrow> h_kind (handles st ! h) = k"
    "h' \<in> set (act (handles st) (granted st) d a k) \<longleftrightarrow> h_kind (handles st ! h') = k" for k
    using assms(2,3) a' by (auto simp: act_def a_def)
  have one: "x = y" if "length xs \<le> 1" "x \<in> set xs" "y \<in> set xs" for x y :: nat and xs
    using that by (cases xs) auto
  show ?thesis
  proof (rule ccontr)
    assume "\<not> ?thesis"
    then have w: "act (handles st) (granted st) d a Writer \<noteq> []"
      using m[of Writer] lock_kind.exhaust by (metis empty_iff list.set(1))
    then have "act (handles st) (granted st) d a Reader = []"
      using b by (simp add: base_at_def obj_base_def)
    then have "h_kind (handles st ! h) = Writer" "h_kind (handles st ! h') = Writer"
      using m[of Reader] lock_kind.exhaust by (metis empty_iff list.set(1))+
    then show False using one[of "act (handles st) (granted st) d a Writer" h h'] m b assms(4)
      by (simp add: base_at_def obj_base_def)
  qed
qed

lemma lock_reads: "lock_step\<^sup>*\<^sup>* s (read_lock k (read_lock k st), d)" if "s = (st, d)"
  using that by (auto intro: converse_rtranclp_into_rtranclp lock_step.intros)

theorem lock_mutual_exclusion_witness:
  "h_kind (handles (read_lock [1] (read_lock [1] init_locks)) ! 0) = Reader \<and>
   h_kind (handles (read_lock [1] (read_lock [1] init_locks)) ! 1) = Reader"
  by (rule lock_mutual_exclusion[where d = "{}", OF lock_reads[OF refl]])
    (simp_all add: read_lock_def get_def init_locks_def new_lock_def)

lemma wake_readers_handles: "handles (wake_readers a hs st) = handles st"
  unfolding wake_readers_def by (induction hs arbitrary: st) simp_all

lemma dispose_handles: "handles (dispose h st) = handles st"
  by (simp add: dispose_def process_def Let_def wake_readers_handles split: option.split list.split)

lemma dispose_steps:
  assumes "(dispose_step ^^ n) s s'" "lock_inv (fst s) (snd s)"
  shows "lock_inv (fst s') (snd s') \<and> handles (fst s') = handles (fst s) \<and> card (snd s') = card (snd s) + n"
  using assms
proof (induction n arbitrary: s')
  case (Suc n)
  from Suc.prems(1) obtain t where t: "(dispose_step ^^ n) s t" "dispose_step t s'" by (rule relpowp_Suc_E)
  note ih = Suc.IH[OF t(1) Suc.prems(2)]
  have fin: "finite (snd t)" using ih by (auto simp: lock_inv_def table_ok_def intro: finite_subset)
  from t(2) show ?case
    using ih fin by cases (auto simp: dispose_handles dispose_inv)
qed simp

lemma stuck_all_granted:
  assumes inv: "lock_inv st d" and stuck: "\<And>s. \<not> dispose_step (st, d) s"
  shows "set (granted st) = {..<length (handles st)}"
proof -
  have t: "table_ok st d" using inv by (simp add: lock_inv_def)
  have sub: "set (granted st) \<subseteq> d" using stuck do_dispose by blast
  have "h \<in> set (granted st)" if h: "h < length (handles st)" for h
  proof (rule ccontr)
    assume n: "h \<notin> set (granted st)"
    then have "h \<notin> d" using t by (auto simp: table_ok_def)
    note i = inv_handle(1,2)[OF inv h this]
    have "act (handles st) (granted st) d a k = []" for a k
      using sub by (auto simp: act_def filter_empty_conv)
    then show False using i by (simp add: base_at_def obj_base_def obj_held_def)
  qed
  then show ?thesis using table_granted[OF t] by auto
qed

text \<open>
  C20. The lock is free of deadlock and lost wake-ups: from every reachable state the disposals
  come to an end after at most as many steps as there are handles left, whatever their order,
  and when nothing is left to dispose every call of \<open>read\<close> and \<open>write\<close> has been resolved.
\<close>

theorem lock_all_granted:
  assumes "lock_step\<^sup>*\<^sup>* (init_locks, {}) (st, d)" "(dispose_step ^^ n) (st, d) (st', d')"
  shows "n \<le> length (handles st) - card d \<and>
    ((\<forall>s. \<not> dispose_step (st', d') s) \<longrightarrow> set (granted st') = {..<length (handles st)})"
proof -
  have i: "lock_inv st' d'" "handles st' = handles st" "card d' = card d + n"
    using dispose_steps[OF assms(2)] lock_reachable_inv[OF assms(1)] by simp_all
  have "card d' \<le> card {..<length (handles st')}"
    using i(1) by (intro card_mono) (auto simp: lock_inv_def table_ok_def)
  then have "n \<le> length (handles st) - card d" using i by simp
  then show ?thesis using stuck_all_granted[OF i(1)] i(2) by metis
qed

lemma lock_example:
  shows "lock_step\<^sup>*\<^sup>* (init_locks, {}) (read_lock [1] (write_lock [1] init_locks), {})"
    and "granted (read_lock [1] (write_lock [1] init_locks)) = [0]"
    and "granted (dispose 0 (read_lock [1] (write_lock [1] init_locks))) = [0, 1]"
    and "granted (dispose 1 (dispose 0 (read_lock [1] (write_lock [1] init_locks)))) = [0, 1]"
    and "length (handles (read_lock [1] (write_lock [1] init_locks))) = 2"
  by (auto intro: converse_rtranclp_into_rtranclp lock_step.intros)
    (simp_all add: read_lock_def write_lock_def dispose_def process_def wake_readers_def get_def
      init_locks_def new_lock_def)

lemma lock_example_run:
  "(dispose_step ^^ 2) (read_lock [1] (write_lock [1] init_locks), {})
     (dispose 1 (dispose 0 (read_lock [1] (write_lock [1] init_locks))), {1, 0})"
proof -
  let ?st = "read_lock [1] (write_lock [1] init_locks)"
  have "dispose_step (?st, {}) (dispose 0 ?st, {0})"
    by (rule do_dispose) (simp_all only: lock_example(2), simp_all)
  moreover have "dispose_step (dispose 0 ?st, {0}) (dispose 1 (dispose 0 ?st), {1, 0})"
    by (rule do_dispose) (simp_all only: lock_example(3), simp_all)
  ultimately show ?thesis unfolding numeral_2_eq_2 by (meson relpowp_0_I relpowp_Suc_I)
qed

lemma lock_example_stuck:
  "\<not> dispose_step (dispose 1 (dispose 0 (read_lock [1] (write_lock [1] init_locks))), {1, 0}) s"
proof
  assume "dispose_step (dispose 1 (dispose 0 (read_lock [1] (write_lock [1] init_locks))), {1, 0}) s"
  then show False by (rule dispose_stepE) (unfold lock_example(4), simp)
qed

theorem lock_all_granted_witness:
  "set (granted (dispose 1 (dispose 0 (read_lock [1] (write_lock [1] init_locks))))) = {..<2}"
  using lock_all_granted[OF lock_example(1) lock_example_run] lock_example_stuck
  unfolding lock_example(5) by blast

end
