(* ===== verification/Identifier.thy ===== *)
theory Identifier
  imports JS_Prelude "HOL-Library.List_Lexorder"
begin

text \<open>
  Identifiers, \<open>id/id.ts\<close> of the server and \<open>app/src/utils/id.ts\<close> of the client: a prefix, twelve
  hexadecimal digits made of the clock and a counter, and random characters. The clock, the
  random bytes and the state of the generator are arguments; \<open>BigInt\<close> values are \<open>int\<close>.
\<close>

unbundle bit_operations_syntax

section \<open>Generating identifiers\<close>

definition prefixes :: "(jstring \<times> jstring) list" where
  "prefixes = map (\<lambda>(k, p). (js k, js p))
     [(''event'', ''evt''), (''session'', ''ses''), (''message'', ''msg''), (''permission'', ''per''),
      (''question'', ''que''), (''user'', ''usr''), (''part'', ''prt''), (''pty'', ''pty''), (''tool'', ''tool''),
      (''workspace'', ''wrk''), (''entry'', ''ent'')]"

datatype direction = Ascending | Descending

record idgen =
  lastTimestamp :: int
  counter :: int

definition base62 :: jstring where
  "base62 = js ''0123456789ABCDEFGHIJKLMNOPQRSTUVWXYZabcdefghijklmnopqrstuvwxyz''"

definition randomBase62 :: "nat list \<Rightarrow> jstring" where
  "randomBase62 bytes = map (\<lambda>b. base62 ! (b mod 62)) bytes"

text \<open>The module state and the number \<open>now\<close> of a call at the given time.\<close>

definition tick :: "int \<Rightarrow> idgen \<Rightarrow> int \<times> idgen" where
  "tick currentTimestamp st =
     (let st1 = (if currentTimestamp \<noteq> lastTimestamp st
                 then \<lparr>lastTimestamp = currentTimestamp, counter = 0\<rparr> else st);
          st2 = st1\<lparr>counter := counter st1 + 1\<rparr>
      in (currentTimestamp * 4096 + counter st2, st2))"

definition timeBytes :: "int \<Rightarrow> nat list" where
  "timeBytes now = map (\<lambda>i. nat (drop_bit (40 - 8 * i) now AND 255)) [0..<6]"

definition hex_digit :: "nat \<Rightarrow> nat" where
  "hex_digit n = (if n < 10 then 48 + n else 87 + n)"

text \<open>\<open>Buffer.toString("hex")\<close>.\<close>

definition hex_byte :: "nat \<Rightarrow> jstring" where
  "hex_byte b = [hex_digit (b div 16), hex_digit (b mod 16)]"

definition hex :: "nat list \<Rightarrow> jstring" where
  "hex bs = concat (map hex_byte bs)"

text \<open>\<open>random\<close> is the result of \<open>randomBytes(LENGTH - 12)\<close>, fourteen bytes.\<close>

definition create :: "int \<Rightarrow> nat list \<Rightarrow> jstring \<Rightarrow> direction \<Rightarrow> int option \<Rightarrow> idgen \<Rightarrow> jstring \<times> idgen" where
  "create clock random prefix dir time st =
     (let (n, st') = tick (case time of Some t \<Rightarrow> t | None \<Rightarrow> clock) st;
          now = (if dir = Descending then NOT n else n)
      in (prefix @ js ''_'' @ hex (timeBytes now) @ randomBase62 random, st'))"

text \<open>An empty \<open>given\<close> counts as absent; \<open>Inl\<close> is the thrown error.\<close>

definition generateID ::
  "int \<Rightarrow> nat list \<Rightarrow> jstring \<Rightarrow> direction \<Rightarrow> jstring option \<Rightarrow> idgen \<Rightarrow> (jstring + jstring) \<times> idgen" where
  "generateID clock random prefix dir given st =
     (let p = the (map_of prefixes prefix)
      in case given of
           Some g \<Rightarrow> (if g = [] then apfst Inr (create clock random p dir None st)
                     else if \<not> startsWith g p
                     then (Inl (js ''ID '' @ g @ js '' does not start with '' @ p), st)
                     else (Inr g, st))
         | None \<Rightarrow> apfst Inr (create clock random p dir None st))"

definition ascending :: "int \<Rightarrow> nat list \<Rightarrow> jstring \<Rightarrow> jstring option \<Rightarrow> idgen \<Rightarrow> (jstring + jstring) \<times> idgen" where
  "ascending clock random prefix given st = generateID clock random prefix Ascending given st"

definition descending :: "int \<Rightarrow> nat list \<Rightarrow> jstring \<Rightarrow> jstring option \<Rightarrow> idgen \<Rightarrow> (jstring + jstring) \<times> idgen" where
  "descending clock random prefix given st = generateID clock random prefix Descending given st"

section \<open>Reading identifiers\<close>

definition sortKey :: "jstring \<Rightarrow> jstring" where
  "sortKey ident = (let prefix = hd (split_on 95 ident) in take 12 (drop (length prefix + 1) ident))"

definition hex_value :: "nat \<Rightarrow> nat option" where
  "hex_value c = (if 48 \<le> c \<and> c \<le> 57 then Some (c - 48)
                  else if 97 \<le> c \<and> c \<le> 102 then Some (c - 87)
                  else if 65 \<le> c \<and> c \<le> 70 then Some (c - 55) else None)"

fun hex_digits :: "jstring \<Rightarrow> nat \<Rightarrow> nat option" where
  "hex_digits [] acc = Some acc"
| "hex_digits (c # cs) acc = (case hex_value c of None \<Rightarrow> None | Some d \<Rightarrow> hex_digits cs (acc * 16 + d))"

text \<open>\<open>BigInt("0x" + hex)\<close>: white space at the end is skipped, \<open>None\<close> is the thrown error.\<close>

definition parse_hex :: "jstring \<Rightarrow> nat option" where
  "parse_hex s = (let t = trimEnd s in if t = [] then None else hex_digits t 0)"

definition timestamp :: "jstring \<Rightarrow> nat option" where
  "timestamp ident = map_option (\<lambda>encoded. encoded div 4096) (parse_hex (sortKey ident))"

section \<open>The client's generator\<close>

definition app_prefixes :: "(jstring \<times> jstring) list" where
  "app_prefixes = map (\<lambda>(k, p). (js k, js p))
     [(''session'', ''ses''), (''message'', ''msg''), (''permission'', ''per''), (''user'', ''usr''),
      (''part'', ''prt''), (''pty'', ''pty'')]"

text \<open>\<open>n.toString(16)\<close> for a byte, and \<open>padStart\<close>.\<close>

definition toString16 :: "nat \<Rightarrow> jstring" where
  "toString16 n = (if n < 16 then [hex_digit n] else [hex_digit (n div 16), hex_digit (n mod 16)])"

definition padStart :: "nat \<Rightarrow> nat \<Rightarrow> jstring \<Rightarrow> jstring" where
  "padStart n c s = replicate (n - length s) c @ s"

definition bytesToHex :: "nat list \<Rightarrow> jstring" where
  "bytesToHex bytes = fold (\<lambda>b acc. acc @ padStart 2 48 (toString16 b)) bytes []"

definition app_create :: "int \<Rightarrow> nat list \<Rightarrow> jstring \<Rightarrow> bool \<Rightarrow> int option \<Rightarrow> idgen \<Rightarrow> jstring \<times> idgen" where
  "app_create clock random prefix desc time st =
     (let (n, st') = tick (case time of Some t \<Rightarrow> t | None \<Rightarrow> clock) st;
          now = (if desc then NOT n else n)
      in (the (map_of app_prefixes prefix) @ js ''_'' @ bytesToHex (timeBytes now) @ randomBase62 random, st'))"

definition app_generateID ::
  "int \<Rightarrow> nat list \<Rightarrow> jstring \<Rightarrow> bool \<Rightarrow> jstring option \<Rightarrow> idgen \<Rightarrow> (jstring + jstring) \<times> idgen" where
  "app_generateID clock random prefix desc given st =
     (let p = the (map_of app_prefixes prefix)
      in case given of
           Some g \<Rightarrow> (if g = [] then apfst Inr (app_create clock random prefix desc None st)
                     else if \<not> startsWith g p
                     then (Inl (js ''ID '' @ g @ js '' does not start with '' @ p), st)
                     else (Inr g, st))
         | None \<Rightarrow> apfst Inr (app_create clock random prefix desc None st))"

section \<open>The time part\<close>

definition key_of :: "int \<Rightarrow> jstring" where
  "key_of now = hex (timeBytes now)"

text \<open>The sixteen-digit number a string of digits stands for.\<close>

definition hexnum :: "nat list \<Rightarrow> nat" where
  "hexnum ds = foldl (\<lambda>a d. a * 16 + d) 0 ds"

lemma foldl_hexnum: "foldl (\<lambda>a d. a * 16 + d) a ds = a * 16 ^ length ds + hexnum ds"
proof (induction ds arbitrary: a)
  case Nil
  then show ?case by (simp add: hexnum_def)
next
  case (Cons d ds)
  have "foldl (\<lambda>a d. a * 16 + d) a (d # ds) = (a * 16 + d) * 16 ^ length ds + hexnum ds"
    using Cons[of "a * 16 + d"] by simp
  moreover have "hexnum (d # ds) = d * 16 ^ length ds + hexnum ds"
    using Cons[of d] by (simp add: hexnum_def)
  ultimately show ?case by (simp add: algebra_simps)
qed

lemma hexnum_Cons: "hexnum (d # ds) = d * 16 ^ length ds + hexnum ds"
  using foldl_hexnum[of d ds] by (simp add: hexnum_def)

lemma hexnum_bound: "list_all (\<lambda>d. d < 16) ds \<Longrightarrow> hexnum ds < 16 ^ length ds"
proof (induction ds)
  case (Cons d ds)
  then have "hexnum ds < 16 ^ length ds" "d \<le> 15" by auto
  then have "d * 16 ^ length ds + hexnum ds < 15 * 16 ^ length ds + 16 ^ length ds"
    by (meson add_le_less_mono mult_le_mono1)
  then show ?case by (simp add: hexnum_Cons)
qed (simp add: hexnum_def)

lemma hex_digit_less: "a < 16 \<Longrightarrow> b < 16 \<Longrightarrow> hex_digit a < hex_digit b \<longleftrightarrow> a < b"
  by (auto simp: hex_digit_def)

text \<open>Strings of digits of one length are ordered as the numbers are.\<close>

lemma hex_less:
  assumes "length xs = length ys" "list_all (\<lambda>d. d < 16) xs" "list_all (\<lambda>d. d < 16) ys"
  shows "map hex_digit xs < map hex_digit ys \<longleftrightarrow> hexnum xs < hexnum ys"
  using assms
proof (induction xs ys rule: list_induct2)
  case Nil
  then show ?case by simp
next
  case (Cons x xs y ys)
  have b: "hexnum xs < 16 ^ length ys" "hexnum ys < 16 ^ length ys"
    using Cons.prems Cons.hyps hexnum_bound[of xs] hexnum_bound[of ys] by simp_all
  have lt: "hexnum (u # us) < hexnum (v # vs)"
    if "u < v" "length us = length vs" "hexnum us < 16 ^ length vs" for u us v vs
  proof -
    have "Suc u * 16 ^ length vs \<le> v * 16 ^ length vs" using that(1) by (intro mult_le_mono1) simp
    then show ?thesis using that(2,3) by (simp add: hexnum_Cons)
  qed
  consider "x < y" | "x = y" | "y < x" by linarith
  then show ?case
  proof cases
    case 1
    then show ?thesis using lt[of x y xs ys] b Cons.hyps Cons.prems hex_digit_less[of x y] by simp
  next
    case 2
    then show ?thesis using Cons by (simp add: hexnum_Cons)
  next
    case 3
    then show ?thesis using lt[of y x ys xs] b Cons.hyps Cons.prems hex_digit_less[of y x]
      by (auto simp: not_less)
  qed
qed

definition time_digits :: "int \<Rightarrow> nat list" where
  "time_digits now = concat (map (\<lambda>b. [b div 16, b mod 16]) (timeBytes now))"

lemma timeBytes_eq:
  "timeBytes now = map nat [now div 2^40 mod 256, now div 2^32 mod 256, now div 2^24 mod 256, now div 2^16 mod 256,
     now div 2^8 mod 256, now mod 256]"
proof -
  have m: "x AND 255 = x mod 256" for x :: int
    using take_bit_eq_mask[of 8 x] by (simp add: mask_eq_exp_minus_1 take_bit_eq_mod)
  show ?thesis by (simp add: timeBytes_def m drop_bit_eq_div upt_rec)
qed

lemma key_of_digits: "key_of now = map hex_digit (time_digits now)"
  by (simp add: key_of_def hex_def hex_byte_def time_digits_def timeBytes_eq)

lemma time_digits_wf: "length (time_digits now) = 12" "list_all (\<lambda>d. d < 16) (time_digits now)"
  by (auto simp: time_digits_def timeBytes_eq)

lemma time_digits_num: "int (hexnum (time_digits now)) = now mod 2^48"
proof -
  have s: "now mod 2^m = 2^n * (now div 2^n mod 256) + now mod 2^n" if "m = n + 8" for n m
    using zmod_zmult2_eq[of 256 now "2^n"] that by (simp add: power_add mult.commute)
  have b: "hexnum (concat [[b0 div 16, b0 mod 16], [b1 div 16, b1 mod 16], [b2 div 16, b2 mod 16],
      [b3 div 16, b3 mod 16], [b4 div 16, b4 mod 16], [b5 div 16, b5 mod 16]]) =
     ((((b0 * 256 + b1) * 256 + b2) * 256 + b3) * 256 + b4) * 256 + b5" for b0 b1 b2 b3 b4 b5 :: nat
    by (simp add: hexnum_def)
  have c: "int (((((nat x0 * 256 + nat x1) * 256 + nat x2) * 256 + nat x3) * 256 + nat x4) * 256 + nat x5) =
     2^40 * x0 + 2^32 * x1 + 2^24 * x2 + 2^16 * x3 + 2^8 * x4 + x5"
    if "x0 \<ge> 0" "x1 \<ge> 0" "x2 \<ge> 0" "x3 \<ge> 0" "x4 \<ge> 0" "x5 \<ge> 0" for x0 x1 x2 x3 x4 x5 :: int
    using that by simp
  have e: "now mod 2^48 = 2^40 * (now div 2^40 mod 256) + now mod 2^40"
    "now mod 2^40 = 2^32 * (now div 2^32 mod 256) + now mod 2^32"
    "now mod 2^32 = 2^24 * (now div 2^24 mod 256) + now mod 2^24"
    "now mod 2^24 = 2^16 * (now div 2^16 mod 256) + now mod 2^16"
    "now mod 2^16 = 2^8 * (now div 2^8 mod 256) + now mod 2^8"
    by (rule s; simp)+
  have "int (hexnum (time_digits now)) =
      2^40 * (now div 2^40 mod 256) + 2^32 * (now div 2^32 mod 256) + 2^24 * (now div 2^24 mod 256) +
      2^16 * (now div 2^16 mod 256) + 2^8 * (now div 2^8 mod 256) + now mod 256"
    unfolding time_digits_def timeBytes_eq list.map b by (rule c) simp_all
  also have "\<dots> = now mod 2^48" unfolding e by simp
  finally show ?thesis .
qed

lemma key_less: "key_of x < key_of y \<longleftrightarrow> x mod 2^48 < y mod 2^48"
proof -
  have "key_of x < key_of y \<longleftrightarrow> hexnum (time_digits x) < hexnum (time_digits y)"
    unfolding key_of_digits by (rule hex_less) (simp_all add: time_digits_wf)
  also have "\<dots> \<longleftrightarrow> int (hexnum (time_digits x)) < int (hexnum (time_digits y))" by simp
  finally show ?thesis unfolding time_digits_num .
qed

lemma length_key [simp]: "length (key_of x) = 12"
  by (simp add: key_of_digits time_digits_wf)

lemma not_mod: "(NOT n) mod 2^48 = 2^48 - 1 - n mod 2^48" for n :: int
proof -
  have e: "n = 2^48 * (n div 2^48) + n mod 2^48" by simp
  have "NOT n = (- (n div 2^48) - 1) * 2^48 + (2^48 - 1 - n mod 2^48)"
    unfolding not_int_def by (subst (1) e) (simp add: algebra_simps)
  then have "(NOT n) mod 2^48 = (2^48 - 1 - n mod 2^48) mod 2^48" by (metis mod_mult_self3)
  moreover have "0 \<le> 2^48 - 1 - n mod 2^48" "2^48 - 1 - n mod 2^48 < (2^48 :: int)" by simp_all
  ultimately show ?thesis by (metis mod_pos_pos_trivial)
qed

definition dir_num :: "direction \<Rightarrow> int \<Rightarrow> int" where
  "dir_num dir n = (if dir = Descending then NOT n else n)"

definition dir_less :: "direction \<Rightarrow> jstring \<Rightarrow> jstring \<Rightarrow> bool" where
  "dir_less dir a b = (if dir = Descending then b < a else a < b)"

text \<open>Within one window of the 48 bits the keys are ordered as the numbers, or in reverse.\<close>

lemma key_window:
  assumes "m < n" "m div 2^48 = n div 2^48"
  shows "dir_less dir (key_of (dir_num dir m)) (key_of (dir_num dir n))"
proof -
  have "m = 2^48 * (m div 2^48) + m mod 2^48" "n = 2^48 * (n div 2^48) + n mod 2^48" by simp_all
  then have "m mod 2^48 < n mod 2^48" using assms by (metis add_less_cancel_left)
  then have "key_of m < key_of n" "key_of (NOT n) < key_of (NOT m)"
    unfolding key_less not_mod by linarith+
  then show ?thesis by (simp add: dir_less_def dir_num_def)
qed

lemma lex_append_less: "length a = length b \<Longrightarrow> a < b \<Longrightarrow> a @ u < b @ v" for a b u v :: jstring
  by (induction a b rule: list_induct2) auto

lemma lex_prefix_less: "u < v \<Longrightarrow> p @ u < p @ v" for p u v :: jstring
  by (induction p) auto

lemma dir_less_id:
  "dir_less dir (key_of m) (key_of n) \<Longrightarrow>
   dir_less dir (prefix @ js ''_'' @ key_of m @ u) (prefix @ js ''_'' @ key_of n @ v)"
  unfolding dir_less_def by (cases dir) (simp_all add: lex_prefix_less lex_append_less)

section \<open>Sequences of calls\<close>

text \<open>The identifiers of successive calls, each with its time and random bytes.\<close>

fun create_all :: "jstring \<Rightarrow> direction \<Rightarrow> (int \<times> nat list) list \<Rightarrow> idgen \<Rightarrow> jstring list" where
  "create_all prefix dir [] st = []"
| "create_all prefix dir ((clock, random) # calls) st =
     (let (ident, st') = create clock random prefix dir None st in ident # create_all prefix dir calls st')"

fun nows :: "int list \<Rightarrow> idgen \<Rightarrow> int list" where
  "nows [] st = []"
| "nows (t # ts) st = (let (n, st') = tick t st in n # nows ts st')"

lemma create_all_nows:
  "create_all prefix dir calls st =
     map2 (\<lambda>n r. prefix @ js ''_'' @ key_of (dir_num dir n) @ randomBase62 r) (nows (map fst calls) st) (map snd calls)"
proof (induction calls arbitrary: st)
  case (Cons c calls)
  then show ?case
    by (cases c) (simp add: create_def key_of_def dir_num_def Let_def split: prod.split)
qed simp

lemma nows_sorted:
  assumes "sorted ts" "list_all (\<lambda>t. lastTimestamp st \<le> t) ts" "counter st \<ge> 0"
    "\<And>t. (if t = lastTimestamp st then counter st else 0) + int (count_list ts t) < 4096"
  shows "sorted_wrt (<) (nows ts st) \<and> list_all2 (\<lambda>t n. n div 4096 = t) ts (nows ts st) \<and>
    list_all (\<lambda>n. lastTimestamp st * 4096 + counter st < n) (nows ts st)"
  using assms
proof (induction ts arbitrary: st)
  case Nil
  then show ?case by simp
next
  case (Cons t ts)
  define c where "c = (if t = lastTimestamp st then counter st + 1 else 1)"
  define st' where "st' = \<lparr>lastTimestamp = t, counter = c\<rparr>"
  have tk: "tick t st = (t * 4096 + c, st')"
    by (cases st) (auto simp: tick_def Let_def st'_def c_def)
  have c: "0 < c" "c < 4096" using Cons.prems(3) Cons.prems(4)[of t] by (auto simp: c_def split: if_splits)
  have lt: "lastTimestamp st * 4096 + counter st < t * 4096 + c"
  proof (cases "t = lastTimestamp st")
    case False
    then have "lastTimestamp st + 1 \<le> t" using Cons.prems(2) by simp
    moreover have "counter st < 4096" using Cons.prems(4)[of "lastTimestamp st"] by simp
    ultimately show ?thesis using c(1) by linarith
  qed (simp add: c_def)
  have "sorted_wrt (<) (nows ts st') \<and> list_all2 (\<lambda>t n. n div 4096 = t) ts (nows ts st') \<and>
    list_all (\<lambda>n. lastTimestamp st' * 4096 + counter st' < n) (nows ts st')"
  proof (rule Cons.IH)
    show "(if u = lastTimestamp st' then counter st' else 0) + int (count_list ts u) < 4096" for u
      using Cons.prems(4)[of u] Cons.prems(3) by (auto simp: st'_def c_def split: if_splits)
  qed (use Cons.prems(1) c in \<open>auto simp: st'_def list_all_iff\<close>)
  moreover have "(t * 4096 + c) div 4096 = t" using c by simp
  ultimately show ?case using lt tk by (auto simp: st'_def list_all_iff)
qed

lemma sorted_wrt_map2:
  "sorted_wrt R xs \<Longrightarrow> (\<And>m n u v. R m n \<Longrightarrow> m \<in> set xs \<Longrightarrow> n \<in> set xs \<Longrightarrow> Q (f m u) (f n v)) \<Longrightarrow>
   sorted_wrt Q (map2 f xs ys)"
proof (induction xs arbitrary: ys)
  case (Cons x xs)
  show ?case
  proof (cases ys)
    case (Cons y ys')
    have "Q (f x y) z" if "z \<in> set (map2 f xs ys')" for z
      using that Cons.prems by (auto dest: set_zip_leftD)
    then show ?thesis using Cons.IH[of ys'] Cons.prems Cons by simp
  qed simp
qed simp

section \<open>Properties\<close>



lemma create_fst:
  "fst (create clock random prefix dir time st) =
     prefix @ js ''_'' @ key_of (dir_num dir (fst (tick (case time of Some t \<Rightarrow> t | None \<Rightarrow> clock) st))) @ randomBase62 random"
  by (simp add: create_def key_of_def dir_num_def Let_def split: prod.split)

lemma sortKey_id: "95 \<notin> set prefix \<Longrightarrow> sortKey (prefix @ js ''_'' @ key_of n @ r) = key_of n"
  by (simp add: sortKey_def js_def split_on_append_free)

lemma hex_value_digit: "d < 16 \<Longrightarrow> hex_value (hex_digit d) = Some d"
  by (auto simp: hex_value_def hex_digit_def)

lemma hex_digits_map:
  "list_all (\<lambda>d. d < 16) ds \<Longrightarrow> hex_digits (map hex_digit ds) acc = Some (foldl (\<lambda>a d. a * 16 + d) acc ds)"
  by (induction ds arbitrary: acc) (simp_all add: hex_value_digit)

lemma hex_digit_no_space: "d < 16 \<Longrightarrow> \<not> is_space (hex_digit d)"
  by (auto simp: hex_digit_def is_space_def)

lemma parse_key: "parse_hex (key_of n) = Some (nat (n mod 2^48))"
proof -
  let ?ds = "time_digits n"
  have ne: "rev ?ds \<noteq> []" and w: "list_all (\<lambda>d. d < 16) ?ds" using time_digits_wf[of n] by auto
  have "trimEnd (map hex_digit ?ds) = map hex_digit ?ds"
    using ne w hex_digit_no_space unfolding trimEnd_def
    by (cases "rev ?ds") (auto simp: rev_map list_all_iff simp flip: rev_map)
  then have "parse_hex (key_of n) = Some (hexnum ?ds)"
    using ne hex_digits_map[OF w, of 0] by (simp add: parse_hex_def key_of_digits hexnum_def)
  then show ?thesis using time_digits_num[of n] by (metis nat_int)
qed

text \<open>
  The time of an ascending identifier can be read back modulo \<open>2^36\<close> milliseconds, as long as
  the counter of its millisecond stays below 4096; with a longer run the counter spills over into
  the time.
\<close>

theorem timestamp_of_created:
  assumes "95 \<notin> set prefix" "0 < fst (tick t st) - t * 4096" "fst (tick t st) - t * 4096 < 4096"
  shows "timestamp (fst (create t random prefix Ascending None st)) = Some (nat (t mod 2^36))"
proof -
  define c where "c = fst (tick t st) - t * 4096"
  have c: "0 < c" "c < 4096" using assms by (simp_all add: c_def)
  have n: "fst (tick t st) = t * 4096 + c" by (simp add: c_def)
  have "(t * 4096 + c) mod (4096 * 2^36) = 4096 * ((t * 4096 + c) div 4096 mod 2^36) + (t * 4096 + c) mod 4096"
    by (rule zmod_zmult2_eq) simp
  moreover have "(t * 4096 + c) div 4096 = t" "(t * 4096 + c) mod 4096 = c" using c by simp_all
  ultimately have e: "(t * 4096 + c) mod 2^48 = 4096 * (t mod 2^36) + c" by simp
  have "nat (4096 * (t mod 2^36) + c) div 4096 = nat (t mod 2^36)"
    using c by (simp add: nat_div_distrib[symmetric])
  then show ?thesis
    unfolding timestamp_def create_fst option.case dir_num_def
    by (simp only: sortKey_id[OF assms(1)] direction.distinct if_False parse_key n e option.map)
qed

theorem timestamp_of_created_witness:
  "timestamp (fst (create 1700000000000 (replicate 14 0) (js ''msg'') Ascending None \<lparr>lastTimestamp = 0, counter = 0\<rparr>))
     = Some (nat (1700000000000 mod 2^36))"
  by (rule timestamp_of_created) (simp_all add: tick_def js_def)

text \<open>
  The window is \<open>2^36\<close> milliseconds, about 2.2 years, and not the 2177 years the source
  states: at every multiple of it an identifier created one millisecond later is smaller than
  the one before it. The next such moment after 2024 is \<open>26 * 2^36\<close>, on 14 August 2026.
\<close>

theorem id_order_wraps:
  "\<exists>a b. create_all prefix Ascending [(k * 2^36 - 1, r), (k * 2^36, s)] \<lparr>lastTimestamp = 0, counter = 0\<rparr> = [a, b] \<and> b < a"
proof -
  let ?t = "k * 2^36 :: int"
  have ne: "?t - 1 \<noteq> 0"
  proof
    assume "?t - 1 = 0"
    then have "?t mod 2 = 1" by simp
    then show False by simp
  qed
  have ns: "nows [?t - 1, ?t] \<lparr>lastTimestamp = 0, counter = 0\<rparr> = [(?t - 1) * 4096 + 1, ?t * 4096 + 1]"
    using ne by (simp add: tick_def)
  have "(?t * 4096 + 1) mod 2^48 = (1 + k * 2^48) mod 2^48" by (simp add: algebra_simps)
  then have "(?t * 4096 + 1) mod 2^48 = 1" by (simp only: mod_mult_self1) simp
  moreover have "((?t - 1) * 4096 + 1) mod 2^48 = (2^48 - 4095 + (k - 1) * 2^48) mod 2^48" by (simp add: algebra_simps)
  then have "((?t - 1) * 4096 + 1) mod 2^48 = 2^48 - 4095" by (simp only: mod_mult_self1) simp
  ultimately have "key_of (?t * 4096 + 1) < key_of ((?t - 1) * 4096 + 1)" by (simp add: key_less)
  then have "dir_less Descending (key_of ((?t - 1) * 4096 + 1)) (key_of (?t * 4096 + 1))" by (simp add: dir_less_def)
  from dir_less_id[OF this, of prefix "randomBase62 r" "randomBase62 s"]
  show ?thesis unfolding create_all_nows list.map fst_conv snd_conv ns by (simp add: dir_num_def dir_less_def)
qed

text \<open>
  A call with an explicit time, as the clean-up of old tool outputs makes, resets the counter: the
  next identifier of the running millisecond repeats the time part of an earlier one.
\<close>

theorem id_counter_reset:
  "let g0 = \<lparr>lastTimestamp = 0, counter = 0\<rparr>; t = 1700000000000;
       (a, g1) = create t r (js ''tool'') Ascending None g0;
       (_, g2) = create t s (js ''tool'') Ascending (Some (t - 604800000)) g1;
       (b, _) = create t u (js ''tool'') Ascending None g2
   in sortKey a = sortKey b"
proof -
  have p: "95 \<notin> set (js ''tool'')" by (simp add: js_def)
  show ?thesis
    by (simp add: create_def tick_def sortKey_id[OF p] flip: key_of_def)
qed

section \<open>Server and client\<close>

lemma padStart_hex: "b < 256 \<Longrightarrow> padStart 2 48 (toString16 b) = hex_byte b"
  by (auto simp: padStart_def toString16_def hex_byte_def hex_digit_def)

lemma bytesToHex_hex: "list_all (\<lambda>b. b < 256) bs \<Longrightarrow> bytesToHex bs = hex bs"
proof -
  have "fold (\<lambda>b acc. acc @ padStart 2 48 (toString16 b)) bs acc = acc @ hex bs" if "list_all (\<lambda>b. b < 256) bs" for acc
    using that by (induction bs arbitrary: acc) (simp_all add: hex_def padStart_hex)
  then show "list_all (\<lambda>b. b < 256) bs \<Longrightarrow> bytesToHex bs = hex bs" by (simp add: bytesToHex_def)
qed

lemma timeBytes_bytes: "list_all (\<lambda>b. b < 256) (timeBytes n)"
  by (simp add: timeBytes_eq nat_less_iff)

text \<open>
  The client and the server generate identifiers alike: for every kind of identifier the
  client knows, with the same clock, random bytes and generator state, the client's generator
  returns the same identifier, or the same error, and the same state as the server's.
\<close>

theorem app_generateID_agrees:
  assumes "map_of app_prefixes k = Some p"
  shows "app_generateID clock random k desc given st =
    generateID clock random k (if desc then Descending else Ascending) given st"
proof -
  have "k \<in> fst ` set app_prefixes" using assms by (metis domI dom_map_of_conv_image_fst)
  then have "map_of prefixes k = map_of app_prefixes k"
    by (auto simp: app_prefixes_def prefixes_def)
  moreover have "app_create clock random k desc None st =
    create clock random (the (map_of app_prefixes k)) (if desc then Descending else Ascending) None st"
    by (simp add: app_create_def create_def bytesToHex_hex timeBytes_bytes split: prod.split)
  ultimately show ?thesis by (simp only: app_generateID_def generateID_def Let_def)
qed

theorem app_generateID_agrees_witness:
  "app_generateID 1700000000000 (replicate 14 0) (js ''message'') True None \<lparr>lastTimestamp = 0, counter = 0\<rparr> =
   generateID 1700000000000 (replicate 14 0) (js ''message'') Descending None \<lparr>lastTimestamp = 0, counter = 0\<rparr>"
  using app_generateID_agrees[of "js ''message''" "js ''msg''" 1700000000000 "replicate 14 0" True None "\<lparr>lastTimestamp = 0, counter = 0\<rparr>"]
  by (simp add: app_prefixes_def)

end
