(* ===== verification/Truncate.thy ===== *)
theory Truncate
  imports Permission Identifier
begin

text \<open>
  Bounding tool output, \<open>tool/truncate.ts\<close>: the preview of a long text by lines and bytes, the
  saved full text, and the clean-up of old files. The truncation directory is the list of its
  entries with their contents; the clock and random bytes are arguments.
\<close>

section \<open>Sizes\<close>

text \<open>\<open>Buffer.byteLength(s, "utf-8")\<close>: a surrogate without its partner is encoded in three bytes.\<close>

definition high_surrogate :: "nat \<Rightarrow> bool" where "high_surrogate c \<longleftrightarrow> 55296 \<le> c \<and> c \<le> 56319"

definition low_surrogate :: "nat \<Rightarrow> bool" where "low_surrogate c \<longleftrightarrow> 56320 \<le> c \<and> c \<le> 57343"

definition unit_bytes :: "nat \<Rightarrow> nat" where
  "unit_bytes c = (if c < 128 then 1 else if c < 2048 then 2 else 3)"

fun byteLength :: "jstring \<Rightarrow> nat" where
  "byteLength [] = 0"
| "byteLength [c] = unit_bytes c"
| "byteLength (c # d # s) =
     (if high_surrogate c \<and> low_surrogate d then 4 + byteLength s else unit_bytes c + byteLength (d # s))"

section \<open>The preview\<close>

definition MAX_LINES :: int where "MAX_LINES = 2000"

definition MAX_BYTES :: int where "MAX_BYTES = 50 * 1024"

datatype cut_direction = Head | Tail

record cut_options =
  o_maxLines :: "int option"
  o_maxBytes :: "int option"
  o_direction :: "cut_direction option"

record result =
  content :: jstring
  truncated :: bool
  outputPath :: "jstring option"

definition line_size :: "nat \<Rightarrow> jstring \<Rightarrow> int" where
  "line_size k line = int (byteLength line) + (if k > 0 then 1 else 0)"

text \<open>
  The loops: the lines taken, their bytes, and whether the byte limit ended the loop. \<open>k\<close> is the
  number of lines taken so far; the second loop runs over the lines from the last one.
\<close>

fun head_loop :: "int \<Rightarrow> int \<Rightarrow> nat \<Rightarrow> int \<Rightarrow> jstring list \<Rightarrow> jstring list \<times> int \<times> bool" where
  "head_loop maxLines maxBytes k bytes [] = ([], bytes, False)"
| "head_loop maxLines maxBytes k bytes (l # ls) =
     (if int k < maxLines then
        if bytes + line_size k l > maxBytes then ([], bytes, True)
        else (let (out, b, hit) = head_loop maxLines maxBytes (Suc k) (bytes + line_size k l) ls in (l # out, b, hit))
      else ([], bytes, False))"

fun tail_loop :: "int \<Rightarrow> int \<Rightarrow> jstring list \<Rightarrow> int \<Rightarrow> jstring list \<Rightarrow> jstring list \<times> int \<times> bool" where
  "tail_loop maxLines maxBytes out bytes [] = (out, bytes, False)"
| "tail_loop maxLines maxBytes out bytes (l # ls) =
     (if int (length out) < maxLines then
        if bytes + line_size (length out) l > maxBytes then (out, bytes, True)
        else tail_loop maxLines maxBytes (l # out) (bytes + line_size (length out) l) ls
      else (out, bytes, False))"

definition preview_lines :: "cut_direction \<Rightarrow> int \<Rightarrow> int \<Rightarrow> jstring list \<Rightarrow> jstring list \<times> int \<times> bool" where
  "preview_lines dir maxLines maxBytes lines =
     (case dir of Head \<Rightarrow> head_loop maxLines maxBytes 0 0 lines
                | Tail \<Rightarrow> tail_loop maxLines maxBytes [] 0 (rev lines))"

section \<open>The service\<close>

record truncation_dir =
  files :: "(jstring \<times> jstring) list"
  gen :: idgen

text \<open>\<open>agent?.permission\<close>: no agent and an agent without permissions are both \<open>None\<close>.\<close>

definition hasTaskTool :: "(nat \<Rightarrow> nat) \<Rightarrow> ruleset option \<Rightarrow> bool" where
  "hasTaskTool ci perms =
     (case perms of None \<Rightarrow> False
      | Some rs \<Rightarrow> rule_action (evaluate ci (js ''task'') (js ''*'') [rs]) \<noteq> Deny)"

text \<open>\<open>writable\<close> tells whether the file system accepts the file; a refusal ends the fiber.\<close>

definition write_file ::
  "bool \<Rightarrow> jstring \<Rightarrow> int \<Rightarrow> nat list \<Rightarrow> jstring \<Rightarrow> truncation_dir \<Rightarrow> jstring option \<times> truncation_dir" where
  "write_file writable dir clock random body st =
     (let (ident, g) = create clock random (js ''tool'') Ascending None (gen st); st1 = st\<lparr>gen := g\<rparr>
      in if writable then (Some (dir @ js ''/'' @ ident), st1\<lparr>files := jmap_set ident body (files st1)\<rparr>)
         else (None, st1))"

definition hint :: "bool \<Rightarrow> jstring \<Rightarrow> jstring" where
  "hint task file =
     js ''The tool call succeeded but the output was truncated. Full output saved to: '' @ file @ [newline] @
     (if task
      then js ''Use the Task tool to have explore agent process this file with Grep and Read (with offset/limit). Do NOT read the full file yourself - delegate to save context.''
      else js ''Use Grep to search the full content or Read with offset/limit to view specific sections.'')"

definition maxLines_of :: "cut_options \<Rightarrow> int" where
  "maxLines_of options = (case o_maxLines options of Some n \<Rightarrow> n | None \<Rightarrow> MAX_LINES)"

definition maxBytes_of :: "cut_options \<Rightarrow> int" where
  "maxBytes_of options = (case o_maxBytes options of Some n \<Rightarrow> n | None \<Rightarrow> MAX_BYTES)"

definition direction_of :: "cut_options \<Rightarrow> cut_direction" where
  "direction_of options = (case o_direction options of Some d \<Rightarrow> d | None \<Rightarrow> Head)"

definition truncate_output ::
  "(nat \<Rightarrow> nat) \<Rightarrow> bool \<Rightarrow> jstring \<Rightarrow> int \<Rightarrow> nat list \<Rightarrow> jstring \<Rightarrow> cut_options \<Rightarrow> ruleset option \<Rightarrow>
   truncation_dir \<Rightarrow> result option \<times> truncation_dir" where
  "truncate_output ci writable dir clock random body options agent st =
     (let maxLines = maxLines_of options; maxBytes = maxBytes_of options; direction = direction_of options;
          lines = split_on newline body; totalBytes = int (byteLength body)
      in if int (length lines) \<le> maxLines \<and> totalBytes \<le> maxBytes
         then (Some \<lparr>content = body, truncated = False, outputPath = None\<rparr>, st)
         else
           (let (out, bytes, hitBytes) = preview_lines direction maxLines maxBytes lines;
                removed = (if hitBytes then totalBytes - bytes else int (length lines) - int (length out));
                unt = (if hitBytes then js ''bytes'' else js ''lines'');
                preview = join [newline] out
            in case write_file writable dir clock random body st of
                 (None, st') \<Rightarrow> (None, st')
               | (Some file, st') \<Rightarrow>
                   (let note = js ''...'' @ num_str removed @ js '' '' @ unt @ js '' truncated...'' @ [newline, newline] @
                               hint (hasTaskTool ci agent) file
                    in (Some \<lparr>content = (case direction of Head \<Rightarrow> preview @ [newline, newline] @ note
                                                           | Tail \<Rightarrow> note @ [newline, newline] @ preview),
                              truncated = True, outputPath = Some file\<rparr>, st'))))"

definition RETENTION :: int where "RETENTION = 7 * 24 * 60 * 60 * 1000"

text \<open>
  \<open>readable\<close> tells whether the directory can be read, \<open>removable\<close> which files can be removed;
  both errors are ignored by the code.
\<close>

definition cleanup ::
  "bool \<Rightarrow> (jstring \<Rightarrow> bool) \<Rightarrow> int \<Rightarrow> nat list \<Rightarrow> truncation_dir \<Rightarrow> truncation_dir" where
  "cleanup readable removable clock random st =
     (let (cut, g) = create clock random (js ''tool'') Ascending (Some (clock - RETENTION)) (gen st);
          cutoffKey = sortKey cut;
          entries = (if readable then filter (\<lambda>nm. startsWith nm (js ''tool_'')) (map fst (files st)) else [])
      in fold (\<lambda>entry s. if sortKey entry \<ge> cutoffKey then s
                         else if removable entry then s\<lparr>files := jmap_delete entry (files s)\<rparr> else s)
           entries (st\<lparr>gen := g\<rparr>))"

section \<open>Sizes of joined lines\<close>

lemma byteLength_nl: "byteLength (a @ newline # b) = byteLength a + 1 + byteLength b"
proof (induction a rule: byteLength.induct)
  case 1
  then show ?case by (cases b) (simp_all add: unit_bytes_def high_surrogate_def)
next
  case (2 c)
  then show ?case by (cases b) (simp_all add: unit_bytes_def high_surrogate_def low_surrogate_def)
qed simp_all

lemma byteLength_join:
  "ls \<noteq> [] \<Longrightarrow> int (byteLength (join [newline] ls)) = int (sum_list (map byteLength ls)) + int (length ls) - 1"
proof (induction ls rule: induct_list012)
  case (3 l m ls)
  then show ?case by (simp add: byteLength_nl)
qed simp_all

fun lines_size :: "nat \<Rightarrow> jstring list \<Rightarrow> int" where
  "lines_size k [] = 0"
| "lines_size k (l # ls) = line_size k l + lines_size (Suc k) ls"

lemma lines_size_Suc: "lines_size (Suc k) ls = int (sum_list (map byteLength ls)) + int (length ls)"
  by (induction ls arbitrary: k) (simp_all add: line_size_def)

lemma lines_size_join: "lines_size 0 ls = int (byteLength (join [newline] ls))"
  using byteLength_join[of ls] by (cases ls) (simp_all add: lines_size_Suc line_size_def)

lemma lines_size_rev: "lines_size 0 (rev ls) = lines_size 0 ls"
proof (cases "ls = []")
  case False
  then show ?thesis using byteLength_join[of ls] byteLength_join[of "rev ls"]
    by (simp add: lines_size_join flip: rev_map)
qed simp

section \<open>The loops\<close>

lemma tail_loop_head:
  "tail_loop M B out bytes ls =
     (case head_loop M B (length out) bytes ls of (taken, b, hit) \<Rightarrow> (rev taken @ out, b, hit))"
  by (induction ls arbitrary: out bytes) (simp_all split: prod.split)

lemma head_loop_spec:
  assumes "head_loop M B k bytes ls = (out, b, hit)"
  shows "\<exists>n\<le>length ls. out = take n ls \<and> b = bytes + lines_size k out \<and>
    (n > 0 \<longrightarrow> int (k + n) \<le> M \<and> b \<le> B) \<and>
    (n = length ls \<or> M \<le> int (k + n) \<or> B < bytes + lines_size k (take (Suc n) ls))"
  using assms
proof (induction ls arbitrary: k bytes out b hit)
  case Nil
  then show ?case by simp
next
  case (Cons l ls)
  let ?b = "bytes + line_size k l"
  show ?case
  proof (cases "int k < M \<and> ?b \<le> B")
    case False
    then show ?thesis using Cons.prems by (intro exI[of _ 0]) (auto split: if_splits)
  next
    case True
    obtain out' b' hit' where h: "head_loop M B (Suc k) ?b ls = (out', b', hit')" by (metis prod_cases3)
    from Cons.IH[OF h] obtain n where n: "n \<le> length ls" "out' = take n ls" "b' = ?b + lines_size (Suc k) out'"
      "n > 0 \<longrightarrow> int (Suc k + n) \<le> M \<and> b' \<le> B"
      "n = length ls \<or> M \<le> int (Suc k + n) \<or> B < ?b + lines_size (Suc k) (take (Suc n) ls)" by blast
    have "out = l # out'" "b = b'" using Cons.prems True h by (auto split: if_splits)
    then show ?thesis using n True
      by (intro exI[of _ "Suc n"]) (cases "n = 0", auto)
  qed
qed

definition cut_lines :: "cut_direction \<Rightarrow> nat \<Rightarrow> jstring list \<Rightarrow> jstring list" where
  "cut_lines dir n ls = (case dir of Head \<Rightarrow> take n ls | Tail \<Rightarrow> drop (length ls - n) ls)"

lemma preview_spec:
  assumes "preview_lines dir M B ls = (out, b, hit)"
  shows "\<exists>n\<le>length ls. out = cut_lines dir n ls \<and> (n > 0 \<longrightarrow> int n \<le> M \<and> b \<le> B) \<and>
    b = int (byteLength (join [newline] out)) \<and>
    (n = length ls \<or> M \<le> int n \<or> B < int (byteLength (join [newline] (cut_lines dir (Suc n) ls))))"
proof (cases dir)
  case Head
  then have "head_loop M B 0 0 ls = (out, b, hit)" using assms by (simp add: preview_lines_def)
  from head_loop_spec[OF this] show ?thesis using Head by (auto simp: cut_lines_def lines_size_join)
next
  case Tail
  obtain out' b' hit' where h: "head_loop M B 0 0 (rev ls) = (out', b', hit')" by (metis prod_cases3)
  have o: "out = rev out'" "b = b'"
    using assms h by (auto simp: preview_lines_def Tail tail_loop_head)
  have t: "take m (rev ls) = rev (drop (length ls - m) ls)" for m by (simp add: take_rev)
  from head_loop_spec[OF h] show ?thesis
    by (simp add: cut_lines_def Tail o t lines_size_rev flip: lines_size_join)
      (auto simp: t lines_size_rev)
qed

lemma write_file_spec:
  assumes "write_file writable dir clock random body st = (Some file, st')"
  shows "\<exists>ident. file = dir @ js ''/'' @ ident \<and> files st' = jmap_set ident body (files st)"
  using assms by (auto simp: write_file_def Let_def split: prod.splits if_splits)

section \<open>Properties\<close>

text \<open>
  C22. The output of a tool is returned unchanged when it fits; otherwise the full text is saved
  under the returned path and the answer begins (or ends) with a preview that consists of fewer
  lines than the text, stays within both limits, and is the longest such run of first (or last)
  lines.
\<close>

theorem truncate_output_sound:
  assumes "truncate_output ci writable dir clock random body opts agent st = (Some r, st')"
  shows "if truncated r
    then \<exists>n ident preview. n < length (split_on newline body) \<and>
      preview = join [newline] (cut_lines (direction_of opts) n (split_on newline body)) \<and>
      int n \<le> max 0 (maxLines_of opts) \<and> int (byteLength preview) \<le> max 0 (maxBytes_of opts) \<and>
      (maxLines_of opts \<le> int n \<or>
       maxBytes_of opts < int (byteLength (join [newline] (cut_lines (direction_of opts) (Suc n) (split_on newline body))))) \<and>
      (case direction_of opts of Head \<Rightarrow> startsWith (content r) preview | Tail \<Rightarrow> endsWith (content r) preview) \<and>
      outputPath r = Some (dir @ js ''/'' @ ident) \<and> map_of (files st') ident = Some body
    else content r = body \<and> st' = st \<and> int (length (split_on newline body)) \<le> maxLines_of opts \<and>
      int (byteLength body) \<le> maxBytes_of opts"
proof (cases "int (length (split_on newline body)) \<le> maxLines_of opts \<and> int (byteLength body) \<le> maxBytes_of opts")
  case True
  then show ?thesis using assms by (auto simp: truncate_output_def)
next
  case False
  let ?ls = "split_on newline body"
  obtain out b hit where p: "preview_lines (direction_of opts) (maxLines_of opts) (maxBytes_of opts) ?ls = (out, b, hit)"
    by (metis prod_cases3)
  obtain fl st1 where w: "write_file writable dir clock random body st = (Some fl, st1)"
    and st': "st' = st1" and r: "truncated r" "outputPath r = Some fl"
      "case direction_of opts of Head \<Rightarrow> startsWith (content r) (join [newline] out)
                               | Tail \<Rightarrow> endsWith (content r) (join [newline] out)"
    using assms False p
    by (auto simp: truncate_output_def Let_def startsWith_prefix endsWith_suffix
        split: prod.splits option.splits cut_direction.splits)
  obtain ident where i: "fl = dir @ js ''/'' @ ident" "files st' = jmap_set ident body (files st)"
    using write_file_spec[OF w] st' by auto
  obtain n where n: "n \<le> length ?ls" "out = cut_lines (direction_of opts) n ?ls"
    "n > 0 \<longrightarrow> int n \<le> maxLines_of opts \<and> b \<le> maxBytes_of opts" "b = int (byteLength (join [newline] out))"
    "n = length ?ls \<or> maxLines_of opts \<le> int n \<or>
     maxBytes_of opts < int (byteLength (join [newline] (cut_lines (direction_of opts) (Suc n) ?ls)))"
    using preview_spec[OF p] by blast
  have "cut_lines d (length ?ls) ?ls = ?ls" for d by (cases d) (simp_all add: cut_lines_def)
  then have less: "n < length ?ls" using n False by (cases "n = length ?ls") auto
  have z: "n = 0 \<Longrightarrow> byteLength (join [newline] out) = 0"
    using n(2) by (cases "direction_of opts") (simp_all add: cut_lines_def)
  have "int n \<le> max 0 (maxLines_of opts)" "int (byteLength (join [newline] out)) \<le> max 0 (maxBytes_of opts)"
    using n(3,4) z by (cases "n = 0"; simp)+
  then show ?thesis using less n(2,5) r i
    by (simp add: update_conv') blast
qed

definition example_output :: "result option \<times> truncation_dir" where
  "example_output = truncate_output (\<lambda>c. c) True (js ''/d'') 5 (replicate 14 0) [97, 10, 98]
     \<lparr>o_maxLines = Some 1, o_maxBytes = None, o_direction = None\<rparr> None
     \<lparr>files = [], gen = \<lparr>lastTimestamp = 0, counter = 0\<rparr>\<rparr>"

lemma example_truncated: "\<exists>r st'. example_output = (Some r, st') \<and> truncated r"
  by (simp add: example_output_def truncate_output_def maxLines_of_def maxBytes_of_def direction_of_def
      write_file_def Let_def split: prod.split)

theorem truncate_output_sound_witness:
  "\<exists>ident. map_of (files (snd example_output)) ident = Some [97, 10, 98]"
proof -
  obtain r st' where e: "example_output = (Some r, st')" "truncated r" using example_truncated by blast
  from truncate_output_sound[OF e(1)[unfolded example_output_def]] e(2)
  show ?thesis unfolding e(1) snd_conv by (simp only: if_True) blast
qed

section \<open>Cleaning up\<close>

lemma cleanup_fold:
  "map_of (files (fold (\<lambda>entry s. if K entry then s
       else if removable entry then s\<lparr>files := jmap_delete entry (files s)\<rparr> else s) es s)) x =
   (if x \<in> set es \<and> \<not> K x \<and> removable x then None else map_of (files s) x)"
  by (induction es arbitrary: s) (auto simp: delete_conv')

lemma sortKey_tool: "sortKey (js ''tool'' @ js ''_'' @ key_of n @ r) = key_of n"
  by (rule sortKey_id) (simp add: js_def)

lemma cleanup_lookup:
  "map_of (files (cleanup True removable clock random st)) x =
   (if startsWith x (js ''tool_'') \<and> removable x \<and>
       sortKey x < key_of (fst (tick (clock - RETENTION) (gen st)))
    then None else map_of (files st) x)"
proof -
  have k: "sortKey (fst (create clock random (js ''tool'') Ascending (Some (clock - RETENTION)) (gen st))) =
      key_of (fst (tick (clock - RETENTION) (gen st)))"
    unfolding create_fst by (simp add: sortKey_tool dir_num_def)
  have m: "x \<in> set (map fst (files st)) \<longleftrightarrow> map_of (files st) x \<noteq> None"
    by (simp add: map_of_eq_None_iff)
  obtain cut g where c: "create clock random (js ''tool'') Ascending (Some (clock - RETENTION)) (gen st) = (cut, g)"
    by fastforce
  then have "sortKey cut = key_of (fst (tick (clock - RETENTION) (gen st)))" using k by simp
  then show ?thesis
    using m by (auto simp: cleanup_def c cleanup_fold not_le)
qed

lemma tick_counter: "lastTimestamp g \<noteq> t \<Longrightarrow> fst (tick t g) = t * 4096 + 1"
  by (simp add: tick_def)

lemma created_tool: "startsWith (fst (create t random (js ''tool'') dir None g)) (js ''tool_'')"
  "sortKey (fst (create t random (js ''tool'') Ascending None g)) = key_of (fst (tick t g))"
proof -
  show "startsWith (fst (create t random (js ''tool'') dir None g)) (js ''tool_'')"
    by (simp add: create_fst js_def startsWith_def)
  show "sortKey (fst (create t random (js ''tool'') Ascending None g)) = key_of (fst (tick t g))"
    by (simp add: create_fst sortKey_tool dir_num_def)
qed

lemma num_before: "t * 4096 < n \<Longrightarrow> n < t * 4096 + 4096 \<Longrightarrow> n < c * 4096 + 1 \<longleftrightarrow> t < c" for t n c :: int
  by (intro iffI) linarith+

text \<open>
  The clean-up removes exactly the outputs that are older than seven days: a file written at
  time \<open>t\<close> is gone afterwards if \<open>t\<close> is before the limit (and the file can be removed) and is kept
  with its content otherwise, provided both times lie in one window of the identifiers; files that
  are not tool outputs are never touched.
\<close>

theorem cleanup_by_age:
  assumes "entry = fst (create t r (js ''tool'') Ascending None g)"
    "t * 4096 < fst (tick t g)" "fst (tick t g) < t * 4096 + 4096"
    "t div 2^36 = (clock - RETENTION) div 2^36" "lastTimestamp (gen st) \<noteq> clock - RETENTION"
  shows "map_of (files (cleanup True removable clock random st)) entry =
      (if t < clock - RETENTION \<and> removable entry then None else map_of (files st) entry) \<and>
    (\<not> startsWith other (js ''tool_'') \<longrightarrow>
      map_of (files (cleanup True removable clock random st)) other = map_of (files st) other)"
proof -
  let ?c = "clock - RETENTION" and ?n = "fst (tick t g)"
  have d: "?n div 4096 = t" using int_div_pos_eq[of ?n 4096 t "?n - t * 4096"] assms(2,3) by simp
  have c: "(?c * 4096 + 1) div 4096 = ?c" by (rule int_div_pos_eq[of _ _ _ 1]) simp_all
  have w: "?n div 2^48 = (?c * 4096 + 1) div 2^48"
    using zdiv_zmult2_eq[of "2^36" ?n 4096] zdiv_zmult2_eq[of "2^36" "?c * 4096 + 1" 4096] assms(4)
    unfolding d c by simp
  have "key_of ?n < key_of (?c * 4096 + 1) \<longleftrightarrow> ?n < ?c * 4096 + 1"
    using key_window[OF _ w, of Ascending] key_window[OF _ w[symmetric], of Ascending]
    by (cases "?n = ?c * 4096 + 1"; cases "?n < ?c * 4096 + 1") (auto simp: dir_less_def dir_num_def)
  also have "\<dots> \<longleftrightarrow> t < ?c" using assms(2,3) by (rule num_before)
  finally show ?thesis
    using created_tool(1)[of t r Ascending g] created_tool(2)[of t r g]
    by (simp add: cleanup_lookup tick_counter[OF assms(5)] assms(1))
qed

theorem cleanup_by_age_witness:
  "map_of (files (cleanup True (\<lambda>_. True) 1700000000000 []
     \<lparr>files = [(fst (create 1699000000000 [] (js ''tool'') Ascending None \<lparr>lastTimestamp = 0, counter = 0\<rparr>), [97])],
      gen = \<lparr>lastTimestamp = 0, counter = 0\<rparr>\<rparr>))
     (fst (create 1699000000000 [] (js ''tool'') Ascending None \<lparr>lastTimestamp = 0, counter = 0\<rparr>)) = None"
  using cleanup_by_age[OF refl, where t = 1699000000000 and g = "\<lparr>lastTimestamp = 0, counter = 0\<rparr>" and clock = 1700000000000
      and r = "[]" and random = "[]" and removable = "\<lambda>_. True" and other = "[]"
      and st = "\<lparr>files = [(fst (create 1699000000000 [] (js ''tool'') Ascending None \<lparr>lastTimestamp = 0, counter = 0\<rparr>), [97])],
      gen = \<lparr>lastTimestamp = 0, counter = 0\<rparr>\<rparr>"]
  by (simp add: RETENTION_def tick_def)

text \<open>
  In the week after the identifiers have wrapped the limit still lies in the old window: outputs
  that were written after the wrap are removed by the next clean-up, here one written at
  \<open>26 * 2^36 + 1\<close> (14 August 2026) an hour later.
\<close>

theorem cleanup_removes_fresh_after_wrap:
  "map_of (files (cleanup True (\<lambda>_. True) (26 * 2^36 + 3600000) random \<lparr>files = fs, gen = \<lparr>lastTimestamp = 26 * 2^36 + 1, counter = 1\<rparr>\<rparr>))
     (fst (create (26 * 2^36 + 1) r (js ''tool'') Ascending None \<lparr>lastTimestamp = 0, counter = 0\<rparr>)) = None"
  using created_tool(1)[of "26 * 2^36 + 1" r Ascending "\<lparr>lastTimestamp = 0, counter = 0\<rparr>"]
    created_tool(2)[of "26 * 2^36 + 1" r "\<lparr>lastTimestamp = 0, counter = 0\<rparr>"]
  by (simp add: cleanup_lookup tick_def RETENTION_def key_less)

end
