(* ===== verification/Runner.thy ===== *)
theory Runner
  imports JS_Prelude
begin

text \<open>
  The runner of a session, \<open>effect/runner.ts\<close>: one model run or shell command at a time. Every
  change of the state happens in one \<open>modify\<close> of the reference and is one function here. Fibers
  are listed while they run, with the finalizer the code attaches to them (\<open>finishRun\<close>,
  \<open>finishShell\<close>) as the function that ends them; deferred values are numbers, and
  \<open>completed\<close> records the completions in order. Causes of failures are values of a type
  variable, the test \<open>Cause.hasInterruptsOnly\<close> is an argument.
\<close>

section \<open>States\<close>

datatype ('a, 'c) exit = Success 'a | Failure 'c

datatype ('a, 'c) completion = Exit "('a, 'c) exit" | CancelledError

record run_handle =
  run_id :: nat
  run_done :: nat

record shell_handle =
  shell_id :: nat

record 'w pending_handle =
  pend_id :: nat
  pend_done :: nat
  pend_work :: 'w

datatype 'w runner_state =
    Idle
  | Running run_handle
  | Shell shell_handle
  | ShellThenRun shell_handle "'w pending_handle"

text \<open>A live fiber: its number, the deferred value its exit completes (none for a shell), its work.\<close>

record 'w fiber =
  fb_id :: nat
  fb_done :: "nat option"
  fb_work :: 'w

record ('a, 'c, 'w) runner =
  ref :: "'w runner_state"
  ids :: nat
  next_done :: nat
  fibers :: "'w fiber list"
  interrupted :: "nat list"
  completed :: "(nat \<times> ('a, 'c) completion) list"
  idle_calls :: nat
  busy_calls :: nat

definition make :: "('a, 'c, 'w) runner" where
  "make = \<lparr>ref = Idle, ids = 0, next_done = 0, fibers = [], interrupted = [], completed = [], idle_calls = 0, busy_calls = 0\<rparr>"

section \<open>Operations\<close>

definition onIdle :: "('a, 'c, 'w) runner \<Rightarrow> ('a, 'c, 'w) runner" where
  "onIdle r = r\<lparr>idle_calls := Suc (idle_calls r)\<rparr>"

text \<open>Completing a deferred value has an effect the first time only.\<close>

definition deferred_done :: "nat \<Rightarrow> ('a, 'c) completion \<Rightarrow> ('a, 'c, 'w) runner \<Rightarrow> ('a, 'c, 'w) runner" where
  "deferred_done d c r = (if d \<in> fst ` set (completed r) then r else r\<lparr>completed := completed r @ [(d, c)]\<rparr>)"

definition complete ::
  "('c \<Rightarrow> bool) \<Rightarrow> nat \<Rightarrow> ('a, 'c) exit \<Rightarrow> ('a, 'c, 'w) runner \<Rightarrow> ('a, 'c, 'w) runner" where
  "complete interruptsOnly d ex r =
     (case ex of Failure c \<Rightarrow> if interruptsOnly c then deferred_done d CancelledError r else deferred_done d (Exit ex) r
               | Success _ \<Rightarrow> deferred_done d (Exit ex) r)"

definition idleIfCurrent :: "('a, 'c, 'w) runner \<Rightarrow> ('a, 'c, 'w) runner" where
  "idleIfCurrent r = (if ref r = Idle then onIdle r else r)"

definition startRun :: "'w \<Rightarrow> nat \<Rightarrow> ('a, 'c, 'w) runner \<Rightarrow> run_handle \<times> ('a, 'c, 'w) runner" where
  "startRun work d r =
     (let i = Suc (ids r)
      in (\<lparr>run_id = i, run_done = d\<rparr>,
          r\<lparr>ids := i, fibers := fibers r @ [\<lparr>fb_id = i, fb_done = Some d, fb_work = work\<rparr>]\<rparr>))"

definition end_fiber :: "nat \<Rightarrow> ('a, 'c, 'w) runner \<Rightarrow> ('a, 'c, 'w) runner" where
  "end_fiber i r = r\<lparr>fibers := filter (\<lambda>f. fb_id f \<noteq> i) (fibers r)\<rparr>"

text \<open>The exit of a run's fiber: its finalizer, after which the fiber is gone.\<close>

definition finishRun ::
  "('c \<Rightarrow> bool) \<Rightarrow> nat \<Rightarrow> nat \<Rightarrow> ('a, 'c) exit \<Rightarrow> ('a, 'c, 'w) runner \<Rightarrow> ('a, 'c, 'w) runner" where
  "finishRun interruptsOnly i d ex r =
     (let current = (case ref r of Running run \<Rightarrow> run_id run = i | _ \<Rightarrow> False);
          r1 = (if current then r\<lparr>ref := Idle\<rparr> else r);
          r2 = (if current then onIdle r1 else r1)
      in end_fiber i (complete interruptsOnly d ex r2))"

definition finishShell :: "nat \<Rightarrow> ('a, 'c, 'w) runner \<Rightarrow> ('a, 'c, 'w) runner" where
  "finishShell i r =
     end_fiber i
       (case ref r of
          Shell sh \<Rightarrow> if shell_id sh = i then onIdle (r\<lparr>ref := Idle\<rparr>) else r
        | ShellThenRun sh p \<Rightarrow>
            if shell_id sh = i
            then (let (run, r1) = startRun (pend_work p) (pend_done p) r in r1\<lparr>ref := Running run\<rparr>)
            else r
        | _ \<Rightarrow> r)"

text \<open>The result is the deferred value the caller waits for.\<close>

definition ensureRunning :: "'w \<Rightarrow> ('a, 'c, 'w) runner \<Rightarrow> nat \<times> ('a, 'c, 'w) runner" where
  "ensureRunning work r =
     (case ref r of
        Running run \<Rightarrow> (run_done run, r)
      | ShellThenRun sh p \<Rightarrow> (pend_done p, r)
      | Shell sh \<Rightarrow>
          (let i = Suc (ids r); d = next_done r
           in (d, r\<lparr>ids := i, next_done := Suc d,
                    ref := ShellThenRun sh \<lparr>pend_id = i, pend_done = d, pend_work = work\<rparr>\<rparr>))
      | Idle \<Rightarrow>
          (let d = next_done r; (run, r1) = startRun work d (r\<lparr>next_done := Suc d\<rparr>)
           in (d, r1\<lparr>ref := Running run\<rparr>)))"

text \<open>
  What a caller of \<open>ensureRunning\<close> gets for a completion: \<open>Some\<close> result, where a cancellation
  runs \<open>onInterrupt\<close> if there is one and is a defect otherwise.
\<close>

datatype ('a, 'c) outcome = Result "('a, 'c) exit" | RunOnInterrupt | DieCancelled

definition awaited :: "('c \<Rightarrow> bool) \<Rightarrow> bool \<Rightarrow> ('a, 'c) completion \<Rightarrow> ('a, 'c) outcome" where
  "awaited interruptsOnly has_onInterrupt c =
     (case c of
        CancelledError \<Rightarrow> if has_onInterrupt then RunOnInterrupt else DieCancelled
      | Exit (Success a) \<Rightarrow> Result (Success a)
      | Exit (Failure e) \<Rightarrow> if interruptsOnly e \<and> has_onInterrupt then RunOnInterrupt else Result (Failure e))"

text \<open>\<open>Inl\<close>: the runner is busy; \<open>Inr\<close>: the number of the shell's fiber.\<close>

definition startShell :: "'w \<Rightarrow> ('a, 'c, 'w) runner \<Rightarrow> (unit + nat) \<times> ('a, 'c, 'w) runner" where
  "startShell work r =
     (if ref r \<noteq> Idle then (Inl (), r)
      else let i = Suc (ids r)
           in (Inr i, r\<lparr>busy_calls := Suc (busy_calls r), ids := i,
                       fibers := fibers r @ [\<lparr>fb_id = i, fb_done = None, fb_work = work\<rparr>],
                       ref := Shell \<lparr>shell_id = i\<rparr>\<rparr>))"

definition interrupt_fiber :: "nat \<Rightarrow> ('a, 'c, 'w) runner \<Rightarrow> ('a, 'c, 'w) runner" where
  "interrupt_fiber i r = r\<lparr>interrupted := interrupted r @ [i]\<rparr>"

text \<open>
  \<open>onInterrupt\<close> is the exit of that effect, if one is configured. The final \<open>idleIfCurrent\<close> runs
  after the interrupted fiber has ended and is a step of its own.
\<close>

definition cancel :: "('a, 'c) exit option \<Rightarrow> ('a, 'c, 'w) runner \<Rightarrow> ('a, 'c, 'w) runner" where
  "cancel onInterrupt r =
     (case ref r of
        Idle \<Rightarrow> r
      | Running run \<Rightarrow> interrupt_fiber (run_id run) (r\<lparr>ref := Idle\<rparr>)
      | Shell sh \<Rightarrow> interrupt_fiber (shell_id sh) (r\<lparr>ref := Idle\<rparr>)
      | ShellThenRun sh p \<Rightarrow>
          interrupt_fiber (shell_id sh)
            (deferred_done (pend_done p)
              (case onInterrupt of Some ex \<Rightarrow> Exit ex | None \<Rightarrow> CancelledError) (r\<lparr>ref := Idle\<rparr>)))"

section \<open>Runs of the system\<close>

text \<open>A fiber ends with any exit, at any time, through the finalizer it was started with.\<close>

inductive runner_step :: "('c \<Rightarrow> bool) \<Rightarrow> ('a, 'c, 'w) runner \<Rightarrow> ('a, 'c, 'w) runner \<Rightarrow> bool" for interruptsOnly where
  do_ensure: "runner_step interruptsOnly r (snd (ensureRunning work r))"
| do_shell: "runner_step interruptsOnly r (snd (startShell work r))"
| do_cancel: "runner_step interruptsOnly r (cancel oi r)"
| do_idle: "runner_step interruptsOnly r (idleIfCurrent r)"
| run_ends: "f \<in> set (fibers r) \<Longrightarrow> fb_done f = Some d \<Longrightarrow>
    runner_step interruptsOnly r (finishRun interruptsOnly (fb_id f) d ex r)"
| shell_ends: "f \<in> set (fibers r) \<Longrightarrow> fb_done f = None \<Longrightarrow>
    runner_step interruptsOnly r (finishShell (fb_id f) r)"

section \<open>The invariant\<close>

definition current :: "('a, 'c, 'w) runner \<Rightarrow> nat option" where
  "current r = (case ref r of Idle \<Rightarrow> None | Running run \<Rightarrow> Some (run_id run)
                | Shell sh \<Rightarrow> Some (shell_id sh) | ShellThenRun sh p \<Rightarrow> Some (shell_id sh))"

text \<open>The deferred value the current fiber has to complete, and the one of a queued run.\<close>

definition current_done :: "('a, 'c, 'w) runner \<Rightarrow> nat option" where
  "current_done r = (case ref r of Running run \<Rightarrow> Some (run_done run) | _ \<Rightarrow> None)"

definition queued :: "('a, 'c, 'w) runner \<Rightarrow> nat list" where
  "queued r = (case ref r of ShellThenRun sh p \<Rightarrow> [pend_done p] | _ \<Rightarrow> [])"

definition waiting_for :: "'w fiber list \<Rightarrow> nat list" where
  "waiting_for fs = concat (map (\<lambda>f. case fb_done f of Some d \<Rightarrow> [d] | None \<Rightarrow> []) fs)"

definition runner_inv :: "('a, 'c, 'w) runner \<Rightarrow> bool" where
  "runner_inv r \<longleftrightarrow>
     distinct (map fb_id (fibers r)) \<and> list_all (\<lambda>f. fb_id f \<le> ids r) (fibers r) \<and>
     list_all (\<lambda>i. i \<le> ids r) (interrupted r) \<and>
     (\<forall>i. current r = Some i \<longrightarrow> i \<notin> set (interrupted r) \<and> (\<exists>f\<in>set (fibers r). fb_id f = i \<and> fb_done f = current_done r)) \<and>
     list_all (\<lambda>f. fb_id f \<in> set (interrupted r) \<or> current r = Some (fb_id f)) (fibers r) \<and>
     mset (waiting_for (fibers r)) + mset (queued r) + mset (map fst (completed r)) = mset [0..<next_done r]"

lemma waiting_for_append [simp]: "waiting_for (xs @ ys) = waiting_for xs @ waiting_for ys"
  by (simp add: waiting_for_def)

lemma waiting_for_simps [simp]:
  "waiting_for [] = []"
  "waiting_for (f # fs) = (case fb_done f of Some d \<Rightarrow> [d] | None \<Rightarrow> []) @ waiting_for fs"
  by (simp_all add: waiting_for_def)

lemma remove_fiber:
  assumes "distinct (map fb_id fs)" "f \<in> set fs"
  shows "mset (waiting_for fs) =
    mset (waiting_for (filter (\<lambda>g. fb_id g \<noteq> fb_id f) fs)) + (case fb_done f of Some d \<Rightarrow> {#d#} | None \<Rightarrow> {#})"
proof -
  obtain xs ys where fs: "fs = xs @ f # ys" using assms(2) by (meson split_list)
  have x: "filter (\<lambda>g. fb_id g \<noteq> fb_id f) zs = zs" if "fb_id f \<notin> set (map fb_id zs)" for zs :: "'a fiber list"
    using that by (induction zs) auto
  have "fb_id f \<notin> set (map fb_id xs)" "fb_id f \<notin> set (map fb_id ys)" using assms(1) fs by auto
  then have "filter (\<lambda>g. fb_id g \<noteq> fb_id f) fs = xs @ ys" using fs x by simp
  then show ?thesis unfolding fs by (simp split: option.split)
qed

lemma make_inv: "runner_inv make"
  by (simp add: runner_inv_def make_def current_def queued_def waiting_for_def)

lemmas runner_views = current_def current_done_def queued_def

lemma ensure_inv: "runner_inv r \<Longrightarrow> runner_inv (snd (ensureRunning work r))"
  unfolding runner_inv_def
  by (cases "ref r")
    (auto simp: ensureRunning_def startRun_def runner_views Let_def list_all_iff le_Suc_eq)

lemma shell_inv: "runner_inv r \<Longrightarrow> runner_inv (snd (startShell work r))"
  unfolding runner_inv_def
  by (cases "ref r") (auto simp: startShell_def runner_views Let_def list_all_iff le_Suc_eq)

lemma onIdle_inv [simp]: "runner_inv (onIdle r) = runner_inv r"
  by (simp add: runner_inv_def onIdle_def runner_views)

lemma idle_inv: "runner_inv r \<Longrightarrow> runner_inv (idleIfCurrent r)"
  by (simp add: idleIfCurrent_def)

text \<open>Deferred values are never completed twice, so the test of \<open>deferred_done\<close> never applies.\<close>

lemma fresh_completion:
  assumes "mset ws + mset qs + mset (map fst (completed r)) = mset [0..<n]" "d \<in> set ws \<or> d \<in> set qs"
  shows "d \<notin> fst ` set (completed r)"
proof
  assume a: "d \<in> fst ` set (completed r)"
  have "distinct (ws @ qs @ map fst (completed r))"
    using assms(1) by (metis add.assoc distinct_upt mset_append mset_eq_imp_distinct_iff)
  then show False using a assms(2) by auto
qed

text \<open>Leaving the current fiber to its interruption.\<close>

lemma interrupt_inv:
  assumes inv: "runner_inv r" and cur: "current r = Some i"
    and c: "mset (map fst cs) = mset (queued r) + mset (map fst (completed r))"
  shows "runner_inv (interrupt_fiber i (r\<lparr>ref := Idle, completed := cs\<rparr>))"
proof -
  have "i \<le> ids r" using inv cur by (auto simp: runner_inv_def list_all_iff)
  then show ?thesis
    using inv cur c by (auto simp: runner_inv_def interrupt_fiber_def runner_views[where r = "_\<lparr>ref := Idle, completed := cs\<rparr>"]
        runner_views[where r = "_\<lparr>interrupted := _\<rparr>"] list_all_iff add.assoc)
qed

lemma cancel_inv:
  assumes inv: "runner_inv r"
  shows "runner_inv (cancel oi r)"
proof (cases "ref r")
  case (Running run)
  then show ?thesis using interrupt_inv[OF inv, of "run_id run" "completed r"]
    by (simp add: cancel_def runner_views)
next
  case (Shell sh)
  then show ?thesis using interrupt_inv[OF inv, of "shell_id sh" "completed r"]
    by (simp add: cancel_def runner_views)
next
  case (ShellThenRun sh p)
  have "pend_done p \<notin> fst ` set (completed r)"
    using inv fresh_completion[of "waiting_for (fibers r)" "queued r" r "next_done r" "pend_done p"]
    by (simp add: runner_inv_def queued_def ShellThenRun)
  then show ?thesis
    using interrupt_inv[OF inv, of "shell_id sh" "completed r @ [(pend_done p, case oi of Some ex \<Rightarrow> Exit ex | None \<Rightarrow> CancelledError)]"]
    by (simp add: cancel_def runner_views ShellThenRun deferred_done_def)
qed (use inv in \<open>simp add: cancel_def\<close>)

text \<open>The end of a fiber that is not the current one, or no longer.\<close>

lemma end_fiber_inv:
  assumes inv: "runner_inv r" and f: "f \<in> set (fibers r)" and cur: "current r \<noteq> Some (fb_id f)"
    and c: "mset (map fst cs) = mset (map fst (completed r)) + (case fb_done f of Some d \<Rightarrow> {#d#} | None \<Rightarrow> {#})"
  shows "runner_inv (end_fiber (fb_id f) (r\<lparr>completed := cs\<rparr>))"
proof -
  have m: "mset (waiting_for (fibers r)) = mset (waiting_for (filter (\<lambda>g. fb_id g \<noteq> fb_id f) (fibers r))) +
      (case fb_done f of Some d \<Rightarrow> {#d#} | None \<Rightarrow> {#})"
    using inv f by (intro remove_fiber) (simp_all add: runner_inv_def)
  have "mset (waiting_for (filter (\<lambda>g. fb_id g \<noteq> fb_id f) (fibers r))) + mset (queued r) + mset (map fst cs) = mset [0..<next_done r]"
    using inv m c by (simp add: runner_inv_def ac_simps)
  moreover have "distinct (map fb_id (filter (\<lambda>g. fb_id g \<noteq> fb_id f) (fibers r)))"
    using inv by (simp add: runner_inv_def distinct_map_filter)
  moreover have "current (end_fiber (fb_id f) (r\<lparr>completed := cs\<rparr>)) = current r"
    "current_done (end_fiber (fb_id f) (r\<lparr>completed := cs\<rparr>)) = current_done r"
    "queued (end_fiber (fb_id f) (r\<lparr>completed := cs\<rparr>)) = queued r"
    by (simp_all add: end_fiber_def runner_views)
  ultimately show ?thesis
    using inv cur unfolding runner_inv_def by (auto simp: end_fiber_def list_all_iff)
qed

lemma complete_eq:
  "d \<notin> fst ` set (completed r) \<Longrightarrow> \<exists>c. complete interruptsOnly d ex r = r\<lparr>completed := completed r @ [(d, c)]\<rparr>"
  by (cases ex) (auto simp: complete_def deferred_done_def)

lemma runner_invD:
  assumes "runner_inv r"
  shows "g \<in> set (fibers r) \<Longrightarrow> fb_id g \<in> set (interrupted r) \<or> current r = Some (fb_id g)"
    "g \<in> set (fibers r) \<Longrightarrow> fb_id g \<le> ids r" "i \<in> set (interrupted r) \<Longrightarrow> i \<le> ids r"
    "distinct (map fb_id (fibers r))"
  using assms by (simp_all add: runner_inv_def list_all_iff)

lemma end_current_inv:
  assumes inv: "runner_inv r" and f: "f \<in> set (fibers r)" and cur: "current r = Some (fb_id f)" and q: "queued r = []"
    and c: "mset (map fst cs) = mset (map fst (completed r)) + (case fb_done f of Some d \<Rightarrow> {#d#} | None \<Rightarrow> {#})"
  shows "runner_inv (end_fiber (fb_id f) (r\<lparr>ref := Idle, completed := cs\<rparr>))"
proof -
  let ?fs = "filter (\<lambda>g. fb_id g \<noteq> fb_id f) (fibers r)"
  have m: "mset (waiting_for (fibers r)) = mset (waiting_for ?fs) + (case fb_done f of Some d \<Rightarrow> {#d#} | None \<Rightarrow> {#})"
    using inv f by (intro remove_fiber) (simp_all add: runner_inv_def)
  have 1: "mset (waiting_for ?fs) + mset (map fst cs) = mset [0..<next_done r]"
    using inv m c q by (simp add: runner_inv_def ac_simps)
  have 2: "distinct (map fb_id ?fs)" using inv by (simp add: runner_inv_def distinct_map_filter)
  have 3: "list_all (\<lambda>g. fb_id g \<in> set (interrupted r)) ?fs"
    using cur by (auto simp: list_all_iff dest: runner_invD(1)[OF inv])
  have 4: "list_all (\<lambda>g. fb_id g \<le> ids r) ?fs" "list_all (\<lambda>i. i \<le> ids r) (interrupted r)"
    using runner_invD(2,3)[OF inv] by (simp_all add: list_all_iff)
  show ?thesis
    using 1 2 3 4 by (simp add: runner_inv_def end_fiber_def runner_views list_all_iff)
qed

lemma onIdle_commute:
  "end_fiber i (onIdle r) = onIdle (end_fiber i r)" "(onIdle r)\<lparr>completed := cs\<rparr> = onIdle (r\<lparr>completed := cs\<rparr>)"
  by (cases r; simp add: end_fiber_def onIdle_def)+

lemma finishRun_inv:
  assumes inv: "runner_inv r" and f: "f \<in> set (fibers r)" "fb_done f = Some d"
  shows "runner_inv (finishRun interruptsOnly (fb_id f) d ex r)"
proof -
  have "d \<in> set (waiting_for (fibers r))" using f by (force simp: waiting_for_def)
  then have d: "d \<notin> fst ` set (completed r)"
    using fresh_completion[of "waiting_for (fibers r)" "queued r" r "next_done r" d] inv by (simp add: runner_inv_def)
  show ?thesis
  proof (cases "current r = Some (fb_id f)")
    case True
    then obtain g where g: "g \<in> set (fibers r)" "fb_id g = fb_id f" "fb_done g = current_done r"
      using inv by (auto simp: runner_inv_def)
    then have "g = f" using inv f(1) by (auto simp: runner_inv_def distinct_map inj_on_def)
    then obtain run where run: "ref r = Running run" "run_id run = fb_id f"
      using g f(2) True by (auto simp: runner_views split: runner_state.splits)
    obtain c where c: "complete interruptsOnly d ex (onIdle (r\<lparr>ref := Idle\<rparr>)) =
        (onIdle (r\<lparr>ref := Idle\<rparr>))\<lparr>completed := completed r @ [(d, c)]\<rparr>"
      using complete_eq[of d "onIdle (r\<lparr>ref := Idle\<rparr>)" interruptsOnly ex] d by (auto simp: onIdle_def)
    have "runner_inv (end_fiber (fb_id f) (r\<lparr>ref := Idle, completed := completed r @ [(d, c)]\<rparr>))"
      by (rule end_current_inv[OF inv f(1) True]) (simp_all add: queued_def run f(2))
    then have "runner_inv (onIdle (end_fiber (fb_id f) (r\<lparr>ref := Idle, completed := completed r @ [(d, c)]\<rparr>)))" by simp
    then show ?thesis using run c by (simp add: finishRun_def onIdle_commute)
  next
    case False
    then have nr: "(case ref r of Running run \<Rightarrow> run_id run = fb_id f | _ \<Rightarrow> False) = False"
      by (auto simp: current_def split: runner_state.splits)
    obtain c where c: "complete interruptsOnly d ex r = r\<lparr>completed := completed r @ [(d, c)]\<rparr>"
      using complete_eq[OF d] by blast
    show ?thesis unfolding finishRun_def Let_def nr if_False c
      by (rule end_fiber_inv[OF inv f(1) False]) (simp add: f(2))
  qed
qed

lemma queued_start_inv:
  assumes inv: "runner_inv r" and st: "ref r = ShellThenRun sh p" and f: "f \<in> set (fibers r)" "fb_id f = shell_id sh" "fb_done f = None"
  shows "runner_inv (finishShell (fb_id f) r)"
proof -
  let ?n = "\<lparr>fb_id = Suc (ids r), fb_done = Some (pend_done p), fb_work = pend_work p\<rparr>"
  let ?fs = "filter (\<lambda>g. fb_id g \<noteq> fb_id f) (fibers r)"
  have lt: "fb_id f \<le> ids r" using inv f(1) by (auto simp: runner_inv_def list_all_iff)
  have r': "finishShell (fb_id f) r =
      r\<lparr>ids := Suc (ids r), fibers := ?fs @ [?n], ref := Running \<lparr>run_id = Suc (ids r), run_done = pend_done p\<rparr>\<rparr>"
    using lt by (simp add: finishShell_def st f(2) startRun_def end_fiber_def Let_def)
  have m: "mset (waiting_for (fibers r)) = mset (waiting_for ?fs)"
    using remove_fiber[OF _ f(1)] inv f(3) by (simp add: runner_inv_def)
  have 1: "mset (waiting_for (?fs @ [?n])) + mset (map fst (completed r)) = mset [0..<next_done r]"
    using inv m by (simp add: runner_inv_def queued_def st ac_simps)
  have 2: "distinct (map fb_id (?fs @ [?n]))"
    using inv by (auto simp: runner_inv_def distinct_map_filter list_all_iff)
  have "current r = Some (fb_id f)" by (simp add: current_def st f(2))
  then have 3: "list_all (\<lambda>g. fb_id g \<in> set (interrupted r)) ?fs"
    by (auto simp: list_all_iff dest: runner_invD(1)[OF inv])
  have 4: "list_all (\<lambda>g. fb_id g \<le> ids r) ?fs" "list_all (\<lambda>i. i \<le> ids r) (interrupted r)"
    using runner_invD(2,3)[OF inv] by (simp_all add: list_all_iff)
  then have 5: "Suc (ids r) \<notin> set (interrupted r)" by (auto simp: list_all_iff)
  show ?thesis
    unfolding r' using 1 2 3 4 5
    by (simp add: runner_inv_def runner_views list_all_iff) (auto simp: le_Suc_eq)
qed

lemma finishShell_inv:
  assumes inv: "runner_inv r" and f: "f \<in> set (fibers r)" "fb_done f = None"
  shows "runner_inv (finishShell (fb_id f) r)"
proof (cases "current r = Some (fb_id f)")
  case True
  then obtain g where g: "g \<in> set (fibers r)" "fb_id g = fb_id f" "fb_done g = current_done r"
    using inv by (auto simp: runner_inv_def)
  then have "g = f" using inv f(1) by (auto simp: runner_inv_def distinct_map inj_on_def)
  then consider sh where "ref r = Shell sh" "shell_id sh = fb_id f" | sh p where "ref r = ShellThenRun sh p" "shell_id sh = fb_id f"
    using g f(2) True by (auto simp: runner_views split: runner_state.splits)
  then show ?thesis
  proof cases
    case 1
    have "runner_inv (end_fiber (fb_id f) (r\<lparr>ref := Idle, completed := completed r\<rparr>))"
      by (rule end_current_inv[OF inv f(1) True]) (simp_all add: queued_def 1 f(2))
    then have "runner_inv (onIdle (end_fiber (fb_id f) (r\<lparr>ref := Idle\<rparr>)))" by simp
    then show ?thesis using 1 by (simp add: finishShell_def onIdle_commute)
  next
    case 2
    then show ?thesis using queued_start_inv[OF inv 2(1) f(1) _ f(2)] by simp
  qed
next
  case False
  then have "finishShell (fb_id f) r = end_fiber (fb_id f) (r\<lparr>completed := completed r\<rparr>)"
    by (auto simp: finishShell_def current_def split: runner_state.splits)
  then show ?thesis using end_fiber_inv[OF inv f(1) False, of "completed r"] f(2) by simp
qed

section \<open>Properties\<close>

lemma runner_step_inv: "runner_step interruptsOnly r r' \<Longrightarrow> runner_inv r \<Longrightarrow> runner_inv r'"
  by (induction rule: runner_step.induct) (simp_all add: ensure_inv shell_inv cancel_inv idle_inv finishRun_inv finishShell_inv)

lemma runner_reachable: "(runner_step interruptsOnly)\<^sup>*\<^sup>* make r \<Longrightarrow> runner_inv r"
  by (induction rule: rtranclp_induct) (simp_all add: make_inv runner_step_inv)


definition example_started :: "(nat, nat, nat) runner" where
  "example_started = snd (ensureRunning 0 make)"

definition example_ended :: "(nat, nat, nat) runner" where
  "example_ended = finishRun (\<lambda>_. True) 1 0 (Success 7) example_started"

lemma example_runs:
  "(runner_step (\<lambda>_. True))\<^sup>*\<^sup>* make example_started" "(runner_step (\<lambda>_. True))\<^sup>*\<^sup>* make example_ended"
  "current example_started = Some 1" "fibers example_ended = []" "next_done example_ended = 1"
proof -
  show s: "(runner_step (\<lambda>_. True))\<^sup>*\<^sup>* make example_started"
    unfolding example_started_def by (rule r_into_rtranclp) (rule do_ensure)
  have "runner_step (\<lambda>_. True) example_started example_ended"
    using run_ends[of "\<lparr>fb_id = 1, fb_done = Some 0, fb_work = 0\<rparr>" example_started 0 "\<lambda>_. True" "Success 7"]
    by (simp add: example_ended_def) (simp add: example_started_def ensureRunning_def make_def startRun_def)
  with s show "(runner_step (\<lambda>_. True))\<^sup>*\<^sup>* make example_ended" by (rule rtranclp.rtrancl_into_rtrancl)
qed (simp_all add: example_ended_def example_started_def ensureRunning_def make_def startRun_def current_def
    finishRun_def end_fiber_def complete_def deferred_done_def onIdle_def)




end
