(* ===== verification/Content_Cache.thy ===== *)
theory Content_Cache
  imports JS_Prelude
begin

text \<open>
  The client's accounting of loaded file contents, \<open>app/src/context/file/content-cache.ts\<close>: one
  least-recently-used cache of sizes per project directory, with limits on the number of entries
  and on their bytes. The \<open>Map\<close> keeps the entries in the order of use.
\<close>

section \<open>One project\<close>

definition MAX_FILE_CONTENT_ENTRIES :: nat where "MAX_FILE_CONTENT_ENTRIES = 40"

definition MAX_FILE_CONTENT_BYTES :: int where "MAX_FILE_CONTENT_BYTES = 20 * 1024 * 1024"

record content_cache =
  lru :: "(jstring \<times> int) list"
  total :: int

definition new_cache :: content_cache where
  "new_cache = \<lparr>lru = [], total = 0\<rparr>"

definition setBytes :: "jstring \<Rightarrow> int \<Rightarrow> content_cache \<Rightarrow> content_cache" where
  "setBytes path nextBytes c =
     (let c1 = (case map_of (lru c) path of Some prev \<Rightarrow> c\<lparr>total := total c - prev\<rparr> | None \<Rightarrow> c)
      in c1\<lparr>lru := jmap_set path nextBytes (jmap_delete path (lru c1)), total := total c1 + nextBytes\<rparr>)"

definition touch :: "jstring \<Rightarrow> int option \<Rightarrow> content_cache \<Rightarrow> content_cache" where
  "touch path bytes c =
     (case (map_of (lru c) path, bytes) of
        (None, None) \<Rightarrow> c
      | (prev, Some b) \<Rightarrow> setBytes path b c
      | (Some p, None) \<Rightarrow> setBytes path p c)"

definition remove :: "jstring \<Rightarrow> content_cache \<Rightarrow> content_cache" where
  "remove path c =
     (case map_of (lru c) path of
        None \<Rightarrow> c
      | Some prev \<Rightarrow> c\<lparr>lru := jmap_delete path (lru c), total := total c - prev\<rparr>)"

text \<open>Whether the loop of \<open>evict\<close> goes on.\<close>

definition over_limit :: "content_cache \<Rightarrow> bool" where
  "over_limit c \<longleftrightarrow> length (lru c) > MAX_FILE_CONTENT_ENTRIES \<or> total c > MAX_FILE_CONTENT_BYTES"

text \<open>
  The loop, with the paths handed to the callback. An empty path ends it, as \<open>undefined\<close> does.
  \<open>None\<close> would be a loop that does not end. The set of paths to keep is a list without order or
  duplicates in mind.
\<close>

partial_function (option) content_evict_loop ::
  "jstring list \<Rightarrow> content_cache \<Rightarrow> (content_cache \<times> jstring list) option" where
  "content_evict_loop keep c =
     (if \<not> over_limit c then Some (c, [])
      else case lru c of
             [] \<Rightarrow> Some (c, [])
           | e # _ \<Rightarrow>
               if fst e = [] then Some (c, [])
               else if fst e \<in> set keep then
                 (let c' = touch (fst e) None c
                  in if length (lru c') \<le> card (set keep) then Some (c', []) else content_evict_loop keep c')
               else
                 Option.bind (content_evict_loop keep (remove (fst e) c)) (\<lambda>r. Some (fst r, fst e # snd r)))"

definition evict :: "jstring list option \<Rightarrow> content_cache \<Rightarrow> (content_cache \<times> jstring list) option" where
  "evict keep c = content_evict_loop (case keep of Some ks \<Rightarrow> ks | None \<Rightarrow> []) c"

section \<open>All projects\<close>

type_synonym project_caches = "(jstring \<times> content_cache) list"

definition getOrCreateCache :: "jstring \<Rightarrow> project_caches \<Rightarrow> content_cache \<times> project_caches" where
  "getOrCreateCache directory ps =
     (case map_of ps directory of
        Some c \<Rightarrow> (c, ps)
      | None \<Rightarrow> (new_cache, jmap_set directory new_cache ps))"

text \<open>The lengths of the content, the diff and the patch lines, by hunk.\<close>

definition approxBytes :: "jstring \<Rightarrow> jstring option \<Rightarrow> jstring list list option \<Rightarrow> nat" where
  "approxBytes content diff patch =
     (let patchBytes = (case patch of None \<Rightarrow> 0
                        | Some hunks \<Rightarrow> fold (\<lambda>hunk sm. sm + fold (\<lambda>line s. s + length line) hunk 0) hunks 0)
      in (length content + (case diff of None \<Rightarrow> 0 | Some d \<Rightarrow> length d) + patchBytes) * 2)"

definition evictContentLru ::
  "jstring \<Rightarrow> jstring list option \<Rightarrow> project_caches \<Rightarrow> (project_caches \<times> jstring list) option" where
  "evictContentLru directory keep ps =
     (case map_of ps directory of
        None \<Rightarrow> Some (ps, [])
      | Some c \<Rightarrow> Option.bind (evict keep c) (\<lambda>r. Some (jmap_set directory (fst r) ps, snd r)))"

text \<open>Without a directory (absent or empty) all caches are dropped.\<close>

definition resetFileContentLru :: "jstring option \<Rightarrow> project_caches \<Rightarrow> project_caches" where
  "resetFileContentLru directory ps =
     (case directory of Some d \<Rightarrow> if d \<noteq> [] then jmap_delete d ps else [] | None \<Rightarrow> [])"

definition setFileContentBytes :: "jstring \<Rightarrow> jstring \<Rightarrow> int \<Rightarrow> project_caches \<Rightarrow> project_caches" where
  "setFileContentBytes directory path bytes ps =
     (let (c, ps1) = getOrCreateCache directory ps in jmap_set directory (setBytes path bytes c) ps1)"

definition removeFileContentBytes :: "jstring \<Rightarrow> jstring \<Rightarrow> project_caches \<Rightarrow> project_caches" where
  "removeFileContentBytes directory path ps =
     (case map_of ps directory of None \<Rightarrow> ps | Some c \<Rightarrow> jmap_set directory (remove path c) ps)"

definition touchFileContent :: "jstring \<Rightarrow> jstring \<Rightarrow> int option \<Rightarrow> project_caches \<Rightarrow> project_caches" where
  "touchFileContent directory path bytes ps =
     (let (c, ps1) = getOrCreateCache directory ps in jmap_set directory (touch path bytes c) ps1)"

definition getFileContentBytesTotal :: "jstring \<Rightarrow> project_caches \<Rightarrow> int" where
  "getFileContentBytesTotal directory ps = (case map_of ps directory of None \<Rightarrow> 0 | Some c \<Rightarrow> total c)"

definition getFileContentEntryCount :: "jstring \<Rightarrow> project_caches \<Rightarrow> nat" where
  "getFileContentEntryCount directory ps = (case map_of ps directory of None \<Rightarrow> 0 | Some c \<Rightarrow> length (lru c))"

definition hasFileContent :: "jstring \<Rightarrow> jstring \<Rightarrow> project_caches \<Rightarrow> bool" where
  "hasFileContent directory path ps =
     (case map_of ps directory of None \<Rightarrow> False | Some c \<Rightarrow> map_of (lru c) path \<noteq> None)"

section \<open>Accounting\<close>

definition cache_ok :: "content_cache \<Rightarrow> bool" where
  "cache_ok c \<longleftrightarrow> distinct (map fst (lru c)) \<and> total c = sum_list (map snd (lru c))"

lemma delete_absent: "map_of m k = None \<Longrightarrow> jmap_delete k m = m"
  by (induction m) (auto split: if_splits)

lemma delete_fresh: "k \<notin> set (map fst (jmap_delete k m))"
  by (induction m) auto

lemma set_after_delete: "jmap_set k v (jmap_delete k m) = jmap_delete k m @ [(k, v)]"
  using delete_fresh by (rule jmap_set_fresh)

lemma sum_delete:
  "distinct (map fst m) \<Longrightarrow> map_of m k = Some (v :: int) \<Longrightarrow>
   sum_list (map snd m) = sum_list (map snd (jmap_delete k m)) + v"
proof (induction m)
  case (Cons e m)
  show ?case
  proof (cases "fst e = k")
    case True
    then have "map_of m k = None" using Cons.prems(1) by (auto simp: map_of_eq_None_iff)
    then show ?thesis using True Cons.prems(2) by (cases e) (simp add: delete_absent)
  next
    case False
    then show ?thesis using Cons by (cases e) auto
  qed
qed simp

lemma new_cache_ok: "cache_ok new_cache"
  by (simp add: cache_ok_def new_cache_def)

lemma setBytes_ok: "cache_ok c \<Longrightarrow> cache_ok (setBytes path n c)"
  using delete_fresh[of path "lru c"] sum_delete[of "lru c" path]
  by (cases "map_of (lru c) path")
    (auto simp: cache_ok_def setBytes_def set_after_delete distinct_delete delete_absent)

lemma touch_ok: "cache_ok c \<Longrightarrow> cache_ok (touch path b c)"
  by (auto simp: touch_def setBytes_ok split: option.split)

lemma remove_ok: "cache_ok c \<Longrightarrow> cache_ok (remove path c)"
  using sum_delete[of "lru c" path]
  by (auto simp: cache_ok_def remove_def distinct_delete split: option.split)

section \<open>Eviction\<close>

abbreviation kept :: "jstring list \<Rightarrow> jstring \<times> int \<Rightarrow> bool" where
  "kept keep e \<equiv> fst e \<in> set keep"

lemma touch_first:
  assumes "cache_ok c" "lru c = e # es"
  shows "touch (fst e) None c = c\<lparr>lru := es @ [e]\<rparr>"
proof -
  have "map_of es (fst e) = None" using assms by (auto simp: cache_ok_def map_of_eq_None_iff)
  then have "jmap_delete (fst e) es = es" by (rule delete_absent)
  then show ?thesis using assms(2)
    by (cases e) (simp add: touch_def setBytes_def set_after_delete)
qed

lemma remove_first:
  assumes "cache_ok c" "lru c = e # es"
  shows "remove (fst e) c = c\<lparr>lru := es, total := total c - snd e\<rparr>"
proof -
  have "map_of es (fst e) = None" using assms by (auto simp: cache_ok_def map_of_eq_None_iff)
  then have "jmap_delete (fst e) es = es" by (rule delete_absent)
  then show ?thesis using assms(2) by (cases e) (simp add: remove_def)
qed

lemma some_not_kept:
  assumes "distinct (map fst es)" "card (set keep) < length es"
  shows "\<exists>e\<in>set es. \<not> kept keep e"
proof (rule ccontr)
  assume "\<not> ?thesis"
  then have "fst ` set es \<subseteq> set keep" by auto
  then have "card (fst ` set es) \<le> card (set keep)" by (simp add: card_mono)
  moreover have "card (fst ` set es) = length es"
    using assms(1) distinct_card[of "map fst es"] by simp
  ultimately show False using assms(2) by simp
qed

definition evicts :: "jstring list \<Rightarrow> content_cache \<Rightarrow> content_cache \<Rightarrow> jstring list \<Rightarrow> bool" where
  "evicts keep c c' ev \<longleftrightarrow> cache_ok c' \<and>
     (\<exists>k. ev = take k (filter (\<lambda>p. p \<notin> set keep) (map fst (lru c)))) \<and>
     mset (lru c') = mset (filter (\<lambda>e. fst e \<notin> set ev) (lru c)) \<and>
     (over_limit c' \<longrightarrow> length (lru c') \<le> card (set keep) \<or> [] \<in> set (map fst (lru c')))"

lemma evicts_nothing:
  assumes "cache_ok c'" "mset (lru c') = mset (lru c)"
    "over_limit c' \<Longrightarrow> length (lru c') \<le> card (set keep) \<or> [] \<in> set (map fst (lru c'))"
  shows "evicts keep c c' []"
  using assms unfolding evicts_def by (auto intro: exI[of _ 0])

lemma content_evict_loop_spec: "cache_ok c \<Longrightarrow> \<exists>c' ev. content_evict_loop keep c = Some (c', ev) \<and> evicts keep c c' ev"
proof (induction c rule: wf_induct_rule[OF wf_measures[of "[\<lambda>c. length (lru c), \<lambda>c. length (takeWhile (kept keep) (lru c))]"]])
  case (1 c)
  note ok = 1(2)
  show ?case
  proof (cases "over_limit c")
    case False
    then have "content_evict_loop keep c = Some (c, [])" by (subst content_evict_loop.simps) simp
    then show ?thesis using evicts_nothing[OF ok] False by blast
  next
    case over: True
    then obtain e es where l: "lru c = e # es"
      using ok by (cases "lru c") (auto simp: over_limit_def cache_ok_def MAX_FILE_CONTENT_BYTES_def)
    have dist: "distinct (map fst (es @ [e]))" using ok l by (auto simp: cache_ok_def)
    consider (empty) "fst e = []" | (keep) "fst e \<noteq> []" "kept keep e" | (drop) "fst e \<noteq> []" "\<not> kept keep e" by blast
    then show ?thesis
    proof cases
      case empty
      then have "content_evict_loop keep c = Some (c, [])" using over l by (subst content_evict_loop.simps) simp
      then show ?thesis using evicts_nothing[OF ok, of c] empty l by (metis list.set_intros(1) list.simps(9))
    next
      case keep
      define c' where "c' = c\<lparr>lru := es @ [e]\<rparr>"
      have ok': "cache_ok c'" using ok l by (auto simp: cache_ok_def c'_def)
      have t: "touch (fst e) None c = c'" using touch_first[OF ok l] by (simp add: c'_def)
      show ?thesis
      proof (cases "length (lru c') \<le> card (set keep)")
        case True
        then have "content_evict_loop keep c = Some (c', [])" using over l keep t by (subst content_evict_loop.simps) (simp add: Let_def)
        then show ?thesis using evicts_nothing[OF ok', of c keep] True l by (auto simp: c'_def)
      next
        case False
        then obtain x where x: "x \<in> set es" "\<not> kept keep x"
          using some_not_kept[OF dist, of keep] keep(2) by (auto simp: c'_def)
        then have "takeWhile (kept keep) (es @ [e]) = takeWhile (kept keep) es" by (intro takeWhile_append1) auto
        then have "(c', c) \<in> measures [\<lambda>c. length (lru c), \<lambda>c. length (takeWhile (kept keep) (lru c))]"
          using keep(2) l by (simp add: c'_def)
        from 1(1)[OF this ok'] obtain c2 ev where r: "content_evict_loop keep c' = Some (c2, ev)" "evicts keep c' c2 ev" by blast
        have "content_evict_loop keep c = Some (c2, ev)"
          using over l keep t False r(1) by (subst content_evict_loop.simps) (simp add: Let_def)
        moreover have "evicts keep c c2 ev"
          using r(2) keep(2) l unfolding evicts_def by (auto simp: c'_def)
        ultimately show ?thesis by blast
      qed
    next
      case drop
      define c' where "c' = c\<lparr>lru := es, total := total c - snd e\<rparr>"
      have ok': "cache_ok c'" using ok l by (auto simp: cache_ok_def c'_def)
      have t: "remove (fst e) c = c'" using remove_first[OF ok l] by (simp add: c'_def)
      have "(c', c) \<in> measures [\<lambda>c. length (lru c), \<lambda>c. length (takeWhile (kept keep) (lru c))]"
        using l by (simp add: c'_def)
      from 1(1)[OF this ok'] obtain c2 ev where r: "content_evict_loop keep c' = Some (c2, ev)" "evicts keep c' c2 ev" by blast
      have "content_evict_loop keep c = Some (c2, fst e # ev)"
        using over l drop t r(1) by (subst content_evict_loop.simps) simp
      moreover have "evicts keep c c2 (fst e # ev)"
      proof -
        obtain k where "ev = take k (filter (\<lambda>p. p \<notin> set keep) (map fst es))"
          using r(2) by (auto simp: evicts_def c'_def)
        then have "fst e # ev = take (Suc k) (filter (\<lambda>p. p \<notin> set keep) (map fst (lru c)))" using l drop(2) by simp
        moreover have "fst e \<notin> fst ` set es" using dist by simp
        then have "fst x \<noteq> fst e" if "x \<in> set es" for x using that by (metis imageI)
        then have "filter (\<lambda>x. fst x \<notin> set (fst e # ev)) (lru c) = filter (\<lambda>x. fst x \<notin> set ev) es"
          using l by (auto intro: filter_cong)
        ultimately show ?thesis using r(2) unfolding evicts_def by (auto simp: c'_def intro: exI[of _ "Suc k"])
      qed
      ultimately show ?thesis by blast
    qed
  qed
qed

section \<open>Properties\<close>



text \<open>
  The limits are not enforced when there are as many paths to keep as entries: the loop stops at
  the first entry to keep, although the other entry could be evicted.
\<close>

theorem evict_stops_early:
  "\<exists>c'. evict (Some [js ''a'', js ''c''])
          \<lparr>lru = [(js ''a'', 15728640), (js ''b'', 15728640)], total = 31457280\<rparr> = Some (c', []) \<and>
        over_limit c' \<and> map_of (lru c') (js ''b'') \<noteq> None"
proof -
  let ?c = "\<lparr>lru = [(js ''a'', 15728640), (js ''b'', 15728640)], total = 31457280\<rparr>"
  have t: "touch (js ''a'') None ?c = \<lparr>lru = [(js ''b'', 15728640), (js ''a'', 15728640)], total = 31457280\<rparr>"
    by (simp add: touch_def setBytes_def)
  have "card (set [js ''a'', js ''c'']) = 2" by simp
  then have "content_evict_loop [js ''a'', js ''c''] ?c = Some (touch (js ''a'') None ?c, [])"
    unfolding t by (subst content_evict_loop.simps) (simp add: over_limit_def MAX_FILE_CONTENT_BYTES_def t)
  then show ?thesis by (simp add: evict_def t over_limit_def MAX_FILE_CONTENT_BYTES_def)
qed

section \<open>Sequences of operations\<close>

inductive cache_step :: "project_caches \<Rightarrow> project_caches \<Rightarrow> bool" where
  "cache_step ps (setFileContentBytes directory path bytes ps)"
| "cache_step ps (touchFileContent directory path b ps)"
| "cache_step ps (removeFileContentBytes directory path ps)"
| "cache_step ps (resetFileContentLru d ps)"
| "evictContentLru directory keep ps = Some (ps', ev) \<Longrightarrow> cache_step ps ps'"

definition projects_ok :: "project_caches \<Rightarrow> bool" where
  "projects_ok ps \<longleftrightarrow> (\<forall>d c. map_of ps d = Some c \<longrightarrow> cache_ok c)"

lemma projects_set: "projects_ok ps \<Longrightarrow> cache_ok c \<Longrightarrow> projects_ok (jmap_set d c ps)"
  by (simp add: projects_ok_def update_conv')

lemma projects_get: "projects_ok ps \<Longrightarrow> getOrCreateCache d ps = (c, ps1) \<Longrightarrow> cache_ok c \<and> projects_ok ps1"
  by (auto simp: getOrCreateCache_def new_cache_ok projects_set projects_ok_def update_conv' split: option.splits if_splits)

lemma cache_step_ok: "cache_step ps ps' \<Longrightarrow> projects_ok ps \<Longrightarrow> projects_ok ps'"
proof (induction rule: cache_step.induct)
  case (1 ps directory path bytes)
  then show ?case
    by (auto simp: setFileContentBytes_def Let_def split: prod.split dest: projects_get intro!: projects_set setBytes_ok)
next
  case (2 ps directory path b)
  then show ?case
    by (auto simp: touchFileContent_def Let_def split: prod.split dest: projects_get intro!: projects_set touch_ok)
next
  case (3 ps directory path)
  then show ?case
    by (auto simp: removeFileContentBytes_def split: option.split intro!: projects_set remove_ok)
      (auto simp: projects_ok_def)
next
  case (4 ps d)
  then show ?case
    by (auto simp: resetFileContentLru_def projects_ok_def delete_conv' split: option.split if_splits)
next
  case (5 directory keep ps ps' ev)
  show ?case
  proof (cases "map_of ps directory")
    case None
    then show ?thesis using 5 by (simp add: evictContentLru_def)
  next
    case (Some c)
    then have ok: "cache_ok c" using 5 by (simp add: projects_ok_def)
    obtain c' ev' where "evict keep c = Some (c', ev')" "cache_ok c'"
      using content_evict_loop_spec[OF ok, of "case keep of Some ks \<Rightarrow> ks | None \<Rightarrow> []"] by (auto simp: evict_def evicts_def)
    then show ?thesis using 5 Some by (auto simp: evictContentLru_def projects_set)
  qed
qed

text \<open>
  The byte count of every project is exact after any sequence of operations: it is the sum of
  the sizes of the project's entries.
\<close>

theorem content_bytes_exact:
  assumes "cache_step\<^sup>*\<^sup>* [] ps" "map_of ps directory = Some c"
  shows "getFileContentBytesTotal directory ps = sum_list (map snd (lru c)) \<and> distinct (map fst (lru c))"
proof -
  have "projects_ok ps" using assms(1)
    by (induction rule: rtranclp_induct) (simp_all add: projects_ok_def[of "[]"] cache_step_ok)
  then have "cache_ok c" using assms(2) by (simp add: projects_ok_def)
  then show ?thesis using assms(2) by (simp add: getFileContentBytesTotal_def cache_ok_def)
qed

theorem content_bytes_exact_witness:
  "getFileContentBytesTotal [1] (setFileContentBytes [1] [2] 7 []) = sum_list (map snd [([2], 7)])"
proof -
  have s: "cache_step\<^sup>*\<^sup>* [] (setFileContentBytes [1] [2] 7 [])" by (rule r_into_rtranclp) (rule cache_step.intros)
  have m: "map_of (setFileContentBytes [1] [2] 7 []) [1] = Some \<lparr>lru = [([2], 7)], total = 7\<rparr>"
    by (simp add: setFileContentBytes_def getOrCreateCache_def new_cache_def setBytes_def)
  show ?thesis using content_bytes_exact[OF s m] by simp
qed

end
