(* ===== verification/Encode.thy ===== *)
theory Encode
  imports JS_Prelude "HOL-Library.Word"
begin

text \<open>
  Text encodings, \<open>shared/src/util/encode.ts\<close>: the URL-safe base64 form of strings that names
  directories in the client, its decoding, and the 32-bit checksums. \<open>TextEncoder\<close>,
  \<open>TextDecoder\<close>, \<open>btoa\<close> and \<open>atob\<close> are modelled as their standards define them; \<open>None\<close> is
  the error \<open>atob\<close> throws.
\<close>

unbundle bit_operations_syntax

section \<open>UTF-16 and UTF-8\<close>

definition is_high :: "nat \<Rightarrow> bool" where "is_high c \<longleftrightarrow> 55296 \<le> c \<and> c \<le> 56319"

definition is_low :: "nat \<Rightarrow> bool" where "is_low c \<longleftrightarrow> 56320 \<le> c \<and> c \<le> 57343"

text \<open>Code points of a string; a surrogate without its partner becomes the replacement character.\<close>

fun code_points :: "jstring \<Rightarrow> nat list" where
  "code_points [] = []"
| "code_points [c] = [if is_high c \<or> is_low c then 65533 else c]"
| "code_points (c # d # s) =
     (if is_high c \<and> is_low d then (65536 + (c - 55296) * 1024 + (d - 56320)) # code_points s
      else (if is_high c \<or> is_low c then 65533 else c) # code_points (d # s))"

definition utf16 :: "nat \<Rightarrow> jstring" where
  "utf16 p = (if p < 65536 then [p] else [55296 + (p - 65536) div 1024, 56320 + (p - 65536) mod 1024])"

definition utf8 :: "nat \<Rightarrow> nat list" where
  "utf8 p = (if p < 128 then [p]
     else if p < 2048 then [192 + p div 64, 128 + p mod 64]
     else if p < 65536 then [224 + p div 4096, 128 + p div 64 mod 64, 128 + p mod 64]
     else [240 + p div 262144, 128 + p div 4096 mod 64, 128 + p div 64 mod 64, 128 + p mod 64])"

definition text_encode :: "jstring \<Rightarrow> nat list" where
  "text_encode s = concat (map utf8 (code_points s))"

text \<open>
  The decoder: the number of bytes still needed, the code point so far and the bounds for the next
  byte. A byte out of bounds ends the character with a replacement and is read again.
\<close>

function utf8_decode :: "nat \<Rightarrow> nat \<Rightarrow> nat \<Rightarrow> nat \<Rightarrow> nat list \<Rightarrow> nat list" where
  "utf8_decode need cp lo hi [] = (if need = 0 then [] else [65533])"
| "utf8_decode need cp lo hi (b # bs) =
     (if need = 0 then
        if b \<le> 127 then b # utf8_decode 0 0 128 191 bs
        else if 194 \<le> b \<and> b \<le> 223 then utf8_decode 1 (b - 192) 128 191 bs
        else if 224 \<le> b \<and> b \<le> 239
          then utf8_decode 2 (b - 224) (if b = 224 then 160 else 128) (if b = 237 then 159 else 191) bs
        else if 240 \<le> b \<and> b \<le> 244
          then utf8_decode 3 (b - 240) (if b = 240 then 144 else 128) (if b = 244 then 143 else 191) bs
        else 65533 # utf8_decode 0 0 128 191 bs
      else if lo \<le> b \<and> b \<le> hi then
        (let cp' = cp * 64 + (b - 128)
         in if need = 1 then cp' # utf8_decode 0 0 128 191 bs else utf8_decode (need - 1) cp' 128 191 bs)
      else 65533 # utf8_decode 0 0 128 191 (b # bs))"
  by pat_completeness auto
termination
  by (relation "measures [\<lambda>(need, cp, lo, hi, bs). length bs, \<lambda>(need, cp, lo, hi, bs). need]") auto

text \<open>\<open>new TextDecoder().decode(bytes)\<close>: a byte order mark at the start is dropped.\<close>

definition text_decode :: "nat list \<Rightarrow> jstring" where
  "text_decode bs =
     (let ps = utf8_decode 0 0 128 191 bs
      in concat (map utf16 (if ps \<noteq> [] \<and> hd ps = 65279 then tl ps else ps)))"

section \<open>Base64\<close>

definition b64_alphabet :: jstring where
  "b64_alphabet = js ''ABCDEFGHIJKLMNOPQRSTUVWXYZabcdefghijklmnopqrstuvwxyz0123456789+/''"

definition b64_char :: "nat \<Rightarrow> nat" where
  "b64_char n = b64_alphabet ! n"

fun btoa :: "nat list \<Rightarrow> jstring" where
  "btoa [] = []"
| "btoa [a] = [b64_char (a div 4), b64_char (a mod 4 * 16), 61, 61]"
| "btoa [a, b] = [b64_char (a div 4), b64_char (a mod 4 * 16 + b div 16), b64_char (b mod 16 * 4), 61]"
| "btoa (a # b # c # r) =
     [b64_char (a div 4), b64_char (a mod 4 * 16 + b div 16), b64_char (b mod 16 * 4 + c div 64), b64_char (c mod 64)] @ btoa r"

definition b64_value :: "nat \<Rightarrow> nat option" where
  "b64_value c =
     (if 65 \<le> c \<and> c \<le> 90 then Some (c - 65)
      else if 97 \<le> c \<and> c \<le> 122 then Some (c - 71)
      else if 48 \<le> c \<and> c \<le> 57 then Some (c + 4)
      else if c = 43 then Some 62 else if c = 47 then Some 63 else None)"

fun b64_groups :: "nat list \<Rightarrow> nat list" where
  "b64_groups (p # q # r # s # rest) =
     [p * 4 + q div 16, q mod 16 * 16 + r div 4, r mod 4 * 64 + s] @ b64_groups rest"
| "b64_groups [p, q, r] = [p * 4 + q div 16, q mod 16 * 16 + r div 4]"
| "b64_groups [p, q] = [p * 4 + q div 16]"
| "b64_groups vs = []"

fun b64_values :: "jstring \<Rightarrow> nat list option" where
  "b64_values [] = Some []"
| "b64_values (c # cs) =
     (case (b64_value c, b64_values cs) of (Some v, Some vs) \<Rightarrow> Some (v # vs) | _ \<Rightarrow> None)"

text \<open>The padding \<open>atob\<close> accepts: one or two signs when the length is a multiple of four.\<close>

definition drop_padding :: "jstring \<Rightarrow> jstring" where
  "drop_padding s =
     (if length s mod 4 = 0 then if endsWith s [61, 61] then dropEnd 2 s
                                 else if endsWith s [61] then dropEnd 1 s else s
      else s)"

definition atob :: "jstring \<Rightarrow> nat list option" where
  "atob s =
     (let t = drop_padding (filter (\<lambda>c. c \<notin> {9, 10, 12, 13, 32}) s)
      in if length t mod 4 = 1 then None else map_option b64_groups (b64_values t))"

section \<open>The functions of the module\<close>

definition base64Encode :: "jstring \<Rightarrow> jstring" where
  "base64Encode s = filter (\<lambda>c. c \<noteq> 61) (replace_unit 47 95 (replace_unit 43 45 (btoa (text_encode s))))"

definition base64ToBytes :: "jstring \<Rightarrow> nat list option" where
  "base64ToBytes s = atob (replace_unit 95 47 (replace_unit 45 43 s))"

definition base64Decode :: "jstring \<Rightarrow> jstring option" where
  "base64Decode s = map_option text_decode (atob (replace_unit 95 47 (replace_unit 45 43 s)))"

text \<open>\<open>n.toString(36)\<close>.\<close>

definition digit36 :: "nat \<Rightarrow> nat" where
  "digit36 n = (if n < 10 then 48 + n else 87 + n)"

fun toString36 :: "nat \<Rightarrow> jstring" where
  "toString36 n = (if n < 36 then [digit36 n] else toString36 (n div 36) @ [digit36 (n mod 36)])"

declare toString36.simps [simp del]

definition fnv_step :: "nat \<Rightarrow> 32 word \<Rightarrow> 32 word" where
  "fnv_step c h = (h XOR word_of_nat c) * 0x01000193"

definition fnv :: "jstring \<Rightarrow> 32 word" where
  "fnv s = fold fnv_step s 0x811c9dc5"

definition checksum :: "jstring \<Rightarrow> jstring option" where
  "checksum s = (if s = [] then None else Some (toString36 (unat (fnv s))))"

definition sampledChecksum :: "jstring \<Rightarrow> nat \<Rightarrow> jstring option" where
  "sampledChecksum s limit =
     (if s = [] then None
      else if length s \<le> limit then checksum s
      else
        (let size = (4096 :: int); n = int (length s);
             points = [0, n div 4, n div 2, 3 * n div 4, n - size];
             part = (\<lambda>point. let start = nat (max 0 (min (n - size) (point - size div 2)))
                             in case checksum (take 4096 (drop start s)) of Some c \<Rightarrow> c | None \<Rightarrow> [])
         in Some (decimal (length s) @ js '':'' @ join (js '':'') (map part points))))"

section \<open>UTF-8 round trip\<close>

definition scalar :: "nat \<Rightarrow> bool" where
  "scalar p \<longleftrightarrow> p < 1114112 \<and> \<not> is_high p \<and> \<not> is_low p"

text \<open>Strings in which every surrogate has its partner.\<close>

fun well_formed16 :: "jstring \<Rightarrow> bool" where
  "well_formed16 [] = True"
| "well_formed16 [c] = (c < 65536 \<and> \<not> is_high c \<and> \<not> is_low c)"
| "well_formed16 (c # d # s) =
     (if is_high c \<and> is_low d then well_formed16 s
      else c < 65536 \<and> \<not> is_high c \<and> \<not> is_low c \<and> well_formed16 (d # s))"

lemma sixty_four: "x mod 64 \<le> 63 \<and> (x div 64 = 0 \<longrightarrow> x \<le> 63)" for x :: nat
  using mod_less_divisor[of 64 x] by (auto simp: div_eq_0_iff)

lemma utf8_decode_char:
  assumes "scalar p"
  shows "utf8_decode 0 0 128 191 (utf8 p @ bs) = p # utf8_decode 0 0 128 191 bs"
proof -
  consider "p < 128" | "128 \<le> p" "p < 2048" | "2048 \<le> p" "p < 65536" | "65536 \<le> p" "p < 1114112"
    using assms unfolding scalar_def by linarith
  then show ?thesis
  proof cases
    case 1
    then show ?thesis by (simp add: utf8_def)
  next
    case 2
    have "2 \<le> p div 64" "p div 64 < 32" using 2 by (simp_all add: less_mult_imp_div_less div_le_mono[of 128 p 64, simplified])
    then show ?thesis using 2 by (simp add: utf8_def)
  next
    case 3
    define a where "a = p div 64"
    have a: "p = a * 64 + p mod 64" "p mod 64 < 64" "p div 4096 = a div 64"
      by (simp_all add: a_def div_mult2_eq[of p 64 64, simplified])
    have "32 \<le> a" "a < 1024" using 3 a(1,2) by linarith+
    then have "a div 64 = 0 \<longrightarrow> 32 \<le> a mod 64" "a div 64 < 16"
      by (auto simp: div_eq_0_iff less_mult_imp_div_less)
    moreover have "a < 864 \<or> 896 \<le> a" using assms a(1,2) unfolding scalar_def is_high_def is_low_def by linarith
    then have "a div 64 = 13 \<longrightarrow> a mod 64 < 32" using div_mult_mod_eq[of a 64] mod_less_divisor[of 64 a] by linarith
    moreover have "(a div 64 * 64 + a mod 64) * 64 + p mod 64 = p" using a(1) by simp
    moreover have "a mod 64 \<le> 63" "p mod 64 \<le> 63" "a div 64 = 0 \<longrightarrow> a \<le> 63" using sixty_four[of a] sixty_four[of p] by auto
    ultimately show ?thesis using 3 by (auto simp: utf8_def Let_def a(3) simp flip: a_def)
  next
    case 4
    define a where "a = p div 4096"
    have a: "p div 262144 = a div 64" "p div 64 div 64 = a"
      by (simp_all add: a_def div_mult2_eq[of p 4096 64, simplified] div_mult2_eq[of p 64 64, simplified])
    have "16 \<le> a" "a < 272" using 4 by (simp_all add: a_def less_mult_imp_div_less div_le_mono[of 65536 p 4096, simplified])
    then have "a div 64 = 0 \<longrightarrow> 16 \<le> a mod 64" "a div 64 < 5" by (auto simp: div_eq_0_iff less_mult_imp_div_less)
    moreover have "a div 64 = 4 \<longrightarrow> a mod 64 < 16" using div_mult_mod_eq[of a 64] \<open>a < 272\<close> by linarith
    moreover have "((a div 64 * 64 + a mod 64) * 64 + p div 64 mod 64) * 64 + p mod 64 = p"
      using div_mult_mod_eq[of p 64] div_mult_mod_eq[of "p div 64" 64] div_mult_mod_eq[of a 64] unfolding a(2) by simp
    moreover have "a mod 64 \<le> 63" "p mod 64 \<le> 63" "p div 64 mod 64 \<le> 63" "a div 64 = 0 \<longrightarrow> a \<le> 63"
      using sixty_four[of a] sixty_four[of p] sixty_four[of "p div 64"] by auto
    ultimately show ?thesis using 4 by (auto simp: utf8_def Let_def a(1) simp flip: a_def)
  qed
qed

lemma utf8_decode_all: "list_all scalar ps \<Longrightarrow> utf8_decode 0 0 128 191 (concat (map utf8 ps)) = ps"
  by (induction ps) (simp_all add: utf8_decode_char)

lemma code_points_scalar: "well_formed16 s \<Longrightarrow> list_all scalar (code_points s)"
  by (induction s rule: well_formed16.induct) (auto simp: scalar_def is_high_def is_low_def)

lemma utf16_pair: "is_high c \<Longrightarrow> is_low d \<Longrightarrow> utf16 (65536 + (c - 55296) * 1024 + (d - 56320)) = [c, d]"
proof -
  assume "is_high c" "is_low d"
  then have "c = 55296 + (c - 55296)" "d = 56320 + (d - 56320)" "d - 56320 < 1024" by (auto simp: is_high_def is_low_def)
  then obtain x y where "c = 55296 + x" "d = 56320 + y" "y < 1024" by metis
  then show ?thesis by (simp add: utf16_def)
qed

lemma utf16_code_points: "well_formed16 s \<Longrightarrow> concat (map utf16 (code_points s)) = s"
proof (induction s rule: well_formed16.induct)
  case (3 c d s)
  then show ?case
    by (cases "is_high c \<and> is_low d") (simp_all only: code_points.simps well_formed16.simps if_True if_False simp_thms
        list.map concat.simps utf16_pair append.simps, simp_all add: utf16_def)
qed (auto simp: utf16_def)

lemma text_round_trip:
  assumes "well_formed16 s" "s = [] \<or> hd s \<noteq> 65279"
  shows "text_decode (text_encode s) = s"
proof -
  have h: "code_points s \<noteq> [] \<Longrightarrow> hd (code_points s) = 65279 \<Longrightarrow> s \<noteq> [] \<and> hd s = 65279"
    using assms(1) by (cases s rule: well_formed16.cases) (auto simp: is_high_def is_low_def split: if_splits)
  show ?thesis
    using h assms utf8_decode_all[OF code_points_scalar[OF assms(1)]] utf16_code_points[OF assms(1)]
    by (auto simp: text_decode_def text_encode_def Let_def)
qed

lemma text_encode_bytes: "list_all (\<lambda>p. p < 1114112) ps \<Longrightarrow> list_all (\<lambda>b. b < 256) (concat (map utf8 ps))"
proof (induction ps)
  case (Cons p ps)
  have "list_all (\<lambda>b. b < 256) (utf8 p)" if "p < 1114112"
    using that by (auto simp: utf8_def less_mult_imp_div_less trans_less_add1)
  then show ?case using Cons by simp
qed simp

section \<open>Base64 round trip\<close>

text \<open>The values of the characters, without padding.\<close>

fun enc64 :: "nat list \<Rightarrow> nat list" where
  "enc64 [] = []"
| "enc64 [a] = [a div 4, a mod 4 * 16]"
| "enc64 [a, b] = [a div 4, a mod 4 * 16 + b div 16, b mod 16 * 4]"
| "enc64 (a # b # c # r) = [a div 4, a mod 4 * 16 + b div 16, b mod 16 * 4 + c div 64, c mod 64] @ enc64 r"

lemma b64_table: "n < 64 \<Longrightarrow> b64_value (b64_char n) = Some n \<and> b64_char n \<notin> {9, 10, 12, 13, 32, 45, 61, 95}"
proof -
  have "list_all (\<lambda>n. b64_value (b64_char n) = Some n \<and> b64_char n \<notin> {9, 10, 12, 13, 32, 45, 61, 95}) [0..<64]"
    by code_simp
  then show "n < 64 \<Longrightarrow> b64_value (b64_char n) = Some n \<and> b64_char n \<notin> {9, 10, 12, 13, 32, 45, 61, 95}"
    by (simp add: list_all_iff)
qed

lemma enc64_small: "list_all (\<lambda>b. b < 256) bs \<Longrightarrow> list_all (\<lambda>v. v < 64) (enc64 bs)"
proof (induction bs rule: enc64.induct)
  case (2 a)
  then show ?case by (simp add: less_mult_imp_div_less)
next
  case (3 a b)
  have "a mod 4 * 16 + b div 16 < 64" using 3 less_mult_imp_div_less[of b 16 16] mod_less_divisor[of 4 a] by simp
  moreover have "b mod 16 * 4 < 64" using mod_less_divisor[of 16 b] by simp
  ultimately show ?case using 3 by (simp add: less_mult_imp_div_less)
next
  case (4 a b c r)
  have "a mod 4 * 16 + b div 16 < 64" using 4 less_mult_imp_div_less[of b 16 16] mod_less_divisor[of 4 a] by simp
  moreover have "b mod 16 * 4 + c div 64 < 64" using 4 less_mult_imp_div_less[of c 4 64] mod_less_divisor[of 16 b] by simp
  ultimately show ?case using 4 by (simp add: less_mult_imp_div_less)
qed simp

lemma b64_groups_enc: "list_all (\<lambda>b. b < 256) bs \<Longrightarrow> b64_groups (enc64 bs) = bs"
proof (induction bs rule: enc64.induct)
  case (3 a b)
  then show ?case by (simp add: less_mult_imp_div_less)
next
  case (4 a b c r)
  then show ?case by (simp add: less_mult_imp_div_less)
qed simp_all

lemma enc64_length: "length (enc64 bs) mod 4 \<noteq> 1"
  by (induction bs rule: enc64.induct) simp_all

lemma btoa_padding: "\<exists>n. btoa bs = map b64_char (enc64 bs) @ replicate n 61"
proof (induction bs rule: enc64.induct)
  case 1
  then show ?case by simp
next
  case (2 a)
  then show ?case by (intro exI[of _ 2]) (simp add: numeral_2_eq_2)
next
  case (3 a b)
  then show ?case by (intro exI[of _ 1]) simp
next
  case (4 a b c r)
  then show ?case by auto
qed

lemma filter_b64: "list_all (\<lambda>v. v < 64) vs \<Longrightarrow> filter (\<lambda>c. c \<noteq> 61) (map b64_char vs) = map b64_char vs"
  by (induction vs) (auto dest: b64_table)

lemma btoa_enc:
  assumes "list_all (\<lambda>b. b < 256) bs"
  shows "filter (\<lambda>c. c \<noteq> 61) (btoa bs) = map b64_char (enc64 bs)"
proof -
  obtain n where "btoa bs = map b64_char (enc64 bs) @ replicate n 61" using btoa_padding by blast
  moreover have "filter (\<lambda>c. c \<noteq> 61) (replicate n (61 :: nat)) = []" by simp
  ultimately show ?thesis using filter_b64[OF enc64_small[OF assms]] by simp
qed

lemma b64_values_map: "list_all (\<lambda>v. v < 64) vs \<Longrightarrow> b64_values (map b64_char vs) = Some vs"
  by (induction vs) (simp_all add: b64_table)

lemma filter_replace: "b \<noteq> 61 \<Longrightarrow> a \<noteq> 61 \<Longrightarrow> filter (\<lambda>c. c \<noteq> 61) (replace_unit a b s) = replace_unit a b (filter (\<lambda>c. c \<noteq> 61) s)"
  by (induction s) (auto simp: replace_unit_def)

lemma replace_back: "b \<notin> set s \<Longrightarrow> replace_unit b a (replace_unit a b s) = s"
  by (induction s) (auto simp: replace_unit_def)

lemma set_b64: "list_all (\<lambda>v. v < 64) vs \<Longrightarrow> c \<in> set (map b64_char vs) \<Longrightarrow> c \<notin> {9, 10, 12, 13, 32, 45, 61, 95}"
  using b64_table by (fastforce simp: list_all_iff)

lemma base64_encode_eq:
  assumes "list_all (\<lambda>b. b < 256) (text_encode s)"
  shows "base64Encode s = replace_unit 47 95 (replace_unit 43 45 (map b64_char (enc64 (text_encode s))))"
  by (simp add: base64Encode_def filter_replace btoa_enc[OF assms])

lemma atob_b64:
  assumes "list_all (\<lambda>b. b < 256) bs"
  shows "atob (map b64_char (enc64 bs)) = Some bs"
proof -
  let ?t = "map b64_char (enc64 bs)"
  note c = set_b64[OF enc64_small[OF assms]]
  have f: "filter (\<lambda>c. c \<notin> {9, 10, 12, 13, 32}) ?t = ?t" using c by (intro filter_True) blast
  have "last ?t \<noteq> 61" if "?t \<noteq> []" using c[of "last ?t"] last_in_set[OF that] by blast
  then have "drop_padding ?t = ?t"
    by (cases "?t = []") (auto simp: drop_padding_def endsWith_suffix)
  then show ?thesis
    using enc64_length[of bs] b64_values_map[OF enc64_small[OF assms]] b64_groups_enc[OF assms]
    by (simp only: atob_def Let_def f) simp
qed

section \<open>Properties\<close>

lemma well_formed_bytes: "well_formed16 s \<Longrightarrow> list_all (\<lambda>b. b < 256) (text_encode s)"
  unfolding text_encode_def
  by (rule text_encode_bytes) (use code_points_scalar in \<open>fastforce simp: list_all_iff scalar_def\<close>)

lemma base64_decode_encode:
  assumes "well_formed16 s" "s = [] \<or> hd s \<noteq> 65279"
  shows "base64Decode (base64Encode s) = Some s"
proof -
  let ?t = "map b64_char (enc64 (text_encode s))"
  note b = well_formed_bytes[OF assms(1)]
  have c: "45 \<notin> set ?t" "95 \<notin> set ?t" using set_b64[OF enc64_small[OF b]] by blast+
  have "replace_unit 95 47 (replace_unit 45 43 (base64Encode s)) =
      replace_unit 95 47 (replace_unit 45 43 (replace_unit 47 95 (replace_unit 43 45 ?t)))"
    by (simp add: base64_encode_eq[OF b])
  also have "\<dots> = replace_unit 45 43 (replace_unit 95 47 (replace_unit 47 95 (replace_unit 43 45 ?t)))"
    by (simp add: replace_unit_def)
  also have "\<dots> = replace_unit 45 43 (replace_unit 43 45 ?t)"
    using c by (subst replace_back) (auto simp: replace_unit_def split: if_splits)
  also have "\<dots> = ?t" by (rule replace_back[OF c(1)])
  finally show ?thesis
    using atob_b64[OF b] text_round_trip[OF assms] by (simp add: base64Decode_def)
qed

text \<open>
  Decoding is the inverse of encoding: every string in which surrogates come in pairs and
  that does not start with a byte order mark is read back from its URL-safe base64 form.
\<close>

theorem base64_round_trip:
  assumes "well_formed16 s" "s = [] \<or> hd s \<noteq> 65279"
  shows "base64Decode (base64Encode s) = Some s"
  by (rule base64_decode_encode[OF assms])

theorem base64_round_trip_witness:
  "base64Decode (base64Encode [97, 228, 55357, 56832]) = Some [97, 228, 55357, 56832]"
  by (rule base64_round_trip) (simp_all add: is_high_def is_low_def)

text \<open>A byte order mark at the start is lost.\<close>

theorem base64_drops_bom: "base64Decode (base64Encode [65279, 97]) = Some [97]"
  by code_simp

definition url_safe :: "nat \<Rightarrow> bool" where
  "url_safe c \<longleftrightarrow> (65 \<le> c \<and> c \<le> 90) \<or> (97 \<le> c \<and> c \<le> 122) \<or> (48 \<le> c \<and> c \<le> 57) \<or> c = 45 \<or> c = 95"

lemma code_points_bound: "list_all (\<lambda>c. c < 65536) s \<Longrightarrow> list_all (\<lambda>p. p < 1114112) (code_points s)"
  by (induction s rule: code_points.induct) (auto simp: is_high_def is_low_def)

lemma url_safe_char: "n < 64 \<Longrightarrow> url_safe (if (if b64_char n = 43 then 45 else b64_char n) = 47 then 95 else if b64_char n = 43 then 45 else b64_char n)"
  using b64_table[of n] by (auto simp: b64_value_def url_safe_def split: if_splits)

lemma base64_safe_chars:
  assumes "list_all (\<lambda>c. c < 65536) s"
  shows "list_all url_safe (base64Encode s) \<and> length (base64Encode s) mod 4 \<noteq> 1"
proof -
  have b: "list_all (\<lambda>b. b < 256) (text_encode s)"
    unfolding text_encode_def by (rule text_encode_bytes[OF code_points_bound[OF assms]])
  have "list_all url_safe (replace_unit 47 95 (replace_unit 43 45 (map b64_char vs)))" if "list_all (\<lambda>v. v < 64) vs" for vs
    using that by (induction vs) (simp_all add: replace_unit_def url_safe_char)
  then show ?thesis
    using enc64_small[OF b] enc64_length[of "text_encode s"]
    unfolding base64_encode_eq[OF b] by (simp add: replace_unit_def)
qed

text \<open>
  C26. The encoded form of every string consists of letters, digits, minus and underscore only, so
  it can stand in a path segment or a key without escaping, and its length is one that
  \<open>atob\<close> accepts.
\<close>

theorem base64_url_safe:
  assumes "list_all (\<lambda>c. c < 65536) s"
  shows "list_all url_safe (base64Encode s) \<and> length (base64Encode s) mod 4 \<noteq> 1"
  by (rule base64_safe_chars[OF assms])

theorem base64_url_safe_witness: "list_all url_safe (base64Encode [47, 228, 57005])"
  using base64_url_safe[of "[47, 228, 57005]"] by simp

lemma toString36_length: "n < 36 ^ Suc k \<Longrightarrow> length (toString36 n) \<le> Suc k"
proof (induction k arbitrary: n)
  case 0
  then show ?case by (simp add: toString36.simps)
next
  case (Suc k)
  then have "n div 36 < 36 ^ Suc k" by (simp add: less_mult_imp_div_less mult.commute)
  then show ?case using Suc.IH[of "n div 36"] by (subst toString36.simps) auto
qed

text \<open>A checksum has at most seven characters.\<close>

lemma checksum_length: "checksum s = Some c \<Longrightarrow> length c \<le> 7"
proof -
  have "unat (fnv s) < 2 ^ LENGTH(32)" by (rule unsigned_less)
  then have "unat (fnv s) < 36 ^ Suc 6" by simp
  then show "checksum s = Some c \<Longrightarrow> length c \<le> 7"
    using toString36_length[of "unat (fnv s)" 6] by (auto simp: checksum_def split: if_splits)
qed

text \<open>The checksum is computed incrementally: equal sums stay equal under equal continuations.\<close>

lemma fnv_append: "fnv s = fnv t \<Longrightarrow> fnv (s @ u) = fnv (t @ u)"
  by (simp add: fnv_def)

end
