(* ===== verification/Auto_Respond.thy ===== *)
theory Auto_Respond
  imports Encode
begin

text \<open>
  Which permission requests the client answers by itself,
  \<open>app/src/context/permission-auto-respond.ts\<close>: settings per session and per directory, inherited
  from the parent sessions. The settings object is an association list; its keys are session
  identifiers and encoded directories, never names of inherited properties. An absent and an
  empty directory are both \<open>[]\<close>.
\<close>

section \<open>Definitions\<close>

definition acceptKey :: "jstring \<Rightarrow> jstring \<Rightarrow> jstring" where
  "acceptKey sessionID directory =
     (if directory = [] then sessionID else base64Encode directory @ js ''/'' @ sessionID)"

definition directoryAcceptKey :: "jstring \<Rightarrow> jstring" where
  "directoryAcceptKey directory = base64Encode directory @ js ''/*''"

definition or_else :: "'a option \<Rightarrow> 'a option \<Rightarrow> 'a option" where
  "or_else x y = (case x of Some a \<Rightarrow> Some a | None \<Rightarrow> y)"

definition accepted :: "(jstring \<times> bool) list \<Rightarrow> jstring \<Rightarrow> jstring \<Rightarrow> bool option" where
  "accepted autoAccept sessionID directory =
     or_else (map_of autoAccept (acceptKey sessionID directory))
       (or_else (map_of autoAccept sessionID)
         (if directory = [] then None else map_of autoAccept (directoryAcceptKey directory)))"

definition isDirectoryAutoAccepting :: "(jstring \<times> bool) list \<Rightarrow> jstring \<Rightarrow> bool" where
  "isDirectoryAutoAccepting autoAccept directory =
     (case map_of autoAccept (directoryAcceptKey directory) of Some b \<Rightarrow> b | None \<Rightarrow> False)"

record session_item =
  si_id :: jstring
  si_parentID :: "jstring option"

definition parent_map :: "session_item list \<Rightarrow> (jstring \<times> jstring) list" where
  "parent_map session =
     fold (\<lambda>item acc. case si_parentID item of
                        Some p \<Rightarrow> if p \<noteq> [] then jmap_set (si_id item) p acc else acc
                      | None \<Rightarrow> acc) session []"

text \<open>
  The loop over a growing list: \<open>pending\<close> are the identifiers not visited yet. Every identifier is
  added once, so the loop ends also when the parents form a cycle.
\<close>

function lineage_loop :: "(jstring \<times> jstring) list \<Rightarrow> jstring list \<Rightarrow> jstring list \<Rightarrow> jstring list" where
  "lineage_loop parent seen [] = []"
| "lineage_loop parent seen (i # pending) =
     (case map_of parent i of
        Some p \<Rightarrow> if p = [] \<or> p \<in> set seen then i # lineage_loop parent seen pending
                  else i # lineage_loop parent (p # seen) (pending @ [p])
      | None \<Rightarrow> i # lineage_loop parent seen pending)"
  by pat_completeness auto
termination
proof (relation "measures [\<lambda>(parent, seen, pending). card (snd ` set parent - set seen), \<lambda>(parent, seen, pending). length pending]", goal_cases)
  case (4 parent seen i pending p)
  then have "p \<in> snd ` set parent - set seen" by (force dest: map_of_SomeD)
  then have "card (snd ` set parent - set (p # seen)) < card (snd ` set parent - set seen)"
    by (intro psubset_card_mono) auto
  then show ?case by simp
qed auto

definition sessionLineage :: "session_item list \<Rightarrow> jstring \<Rightarrow> jstring list" where
  "sessionLineage session sessionID = lineage_loop (parent_map session) [sessionID] [sessionID]"

definition autoRespondsPermission ::
  "(jstring \<times> bool) list \<Rightarrow> session_item list \<Rightarrow> jstring \<Rightarrow> jstring \<Rightarrow> bool" where
  "autoRespondsPermission autoAccept session sessionID directory =
     (case find (\<lambda>x. x \<noteq> None) (map (\<lambda>i. accepted autoAccept i directory) (sessionLineage session sessionID)) of
        Some (Some b) \<Rightarrow> b
      | _ \<Rightarrow> False)"

section \<open>The lineage\<close>

text \<open>
  At most one identifier is pending: the lineage is the chain of parents, cut before it repeats.
\<close>

lemma lineage_single:
  "lineage_loop parent seen [i] =
     i # (case map_of parent i of
            Some p \<Rightarrow> if p = [] \<or> p \<in> set seen then [] else lineage_loop parent (p # seen) [p]
          | None \<Rightarrow> [])"
  by (simp split: option.split)

lemma lineage_chain:
  assumes "i \<in> set seen"
  shows "\<exists>rest. lineage_loop parent seen [i] = i # rest \<and> distinct rest \<and> set rest \<inter> set seen = {} \<and>
    successively (\<lambda>a b. map_of parent a = Some b) (i # rest) \<and>
    (case map_of parent (last (i # rest)) of None \<Rightarrow> True | Some p \<Rightarrow> p = [] \<or> p \<in> set seen \<union> set rest)"
  using assms
proof (induction "card (snd ` set parent - set seen)" arbitrary: seen i rule: less_induct)
  case less
  show ?case
  proof (cases "map_of parent i")
    case None
    then show ?thesis by (subst lineage_single) simp
  next
    case (Some p)
    show ?thesis
    proof (cases "p = [] \<or> p \<in> set seen")
      case True
      then show ?thesis using Some by (subst lineage_single) auto
    next
      case False
      then have "p \<in> snd ` set parent - set seen" using Some by (force dest: map_of_SomeD)
      then have "card (snd ` set parent - set (p # seen)) < card (snd ` set parent - set seen)"
        by (intro psubset_card_mono) auto
      from less.hyps[OF this, of p] obtain rest where r: "lineage_loop parent (p # seen) [p] = p # rest"
        "distinct rest" "set rest \<inter> set (p # seen) = {}" "successively (\<lambda>a b. map_of parent a = Some b) (p # rest)"
        "case map_of parent (last (p # rest)) of None \<Rightarrow> True | Some q \<Rightarrow> q = [] \<or> q \<in> set (p # seen) \<union> set rest"
        by auto
      have "lineage_loop parent seen [i] = i # p # rest" using Some False r(1) by (subst lineage_single) simp
      moreover have "set (p # rest) \<inter> set seen = {}" "distinct (p # rest)" using r(2,3) False by auto
      moreover have "case map_of parent (last (i # p # rest)) of None \<Rightarrow> True | Some q \<Rightarrow> q = [] \<or> q \<in> set seen \<union> set (p # rest)"
        using r(5) by (auto split: option.splits)
      ultimately show ?thesis using r(4) Some by (intro exI[of _ "p # rest"]) simp
    qed
  qed
qed

section \<open>Keys\<close>

text \<open>Directory names that the encoding keeps apart.\<close>

definition plain_dir :: "jstring \<Rightarrow> bool" where
  "plain_dir d \<longleftrightarrow> d \<noteq> [] \<and> well_formed16 d \<and> hd d \<noteq> 65279"

lemma well_formed_units: "well_formed16 s \<Longrightarrow> list_all (\<lambda>c. c < 65536) s"
  by (induction s rule: well_formed16.induct) (auto simp: is_high_def is_low_def split: if_splits)

lemma base64_no_slash: "well_formed16 d \<Longrightarrow> 47 \<notin> set (base64Encode d)"
  using base64_safe_chars[OF well_formed_units] by (force simp: list_all_iff url_safe_def)

lemma base64_inj: "plain_dir d \<Longrightarrow> plain_dir d' \<Longrightarrow> base64Encode d = base64Encode d' \<Longrightarrow> d = d'"
  unfolding plain_dir_def by (metis base64_decode_encode option.inject)

lemma slash_split:
  "c \<notin> set a \<Longrightarrow> c \<notin> set b \<Longrightarrow> a @ c # x = b @ c # y \<longleftrightarrow> a = b \<and> x = y"
proof (induction a arbitrary: b)
  case Nil
  then show ?case by (cases b) auto
next
  case (Cons u a)
  then show ?case by (cases b) auto
qed

lemma acceptKey_eq:
  assumes "plain_dir d" "plain_dir d'"
  shows "acceptKey s d = acceptKey s' d' \<longleftrightarrow> s = s' \<and> d = d'"
proof -
  have k: "acceptKey t e = base64Encode e @ 47 # t" if "plain_dir e" for t e
    using that by (simp add: acceptKey_def plain_dir_def js_def)
  have n: "47 \<notin> set (base64Encode d)" "47 \<notin> set (base64Encode d')" using assms base64_no_slash by (auto simp: plain_dir_def)
  show ?thesis unfolding k[OF assms(1)] k[OF assms(2)] slash_split[OF n] using base64_inj[OF assms] by auto
qed

lemma directoryAcceptKey_star: "plain_dir d \<Longrightarrow> directoryAcceptKey d = acceptKey (js ''*'') d"
  by (simp add: directoryAcceptKey_def acceptKey_def plain_dir_def js_def)

section \<open>Properties\<close>

text \<open>
  A setting made for one session of one directory answers for exactly this session in this
  directory: for every other session or directory it gives no answer. (Session identifiers contain
  no slash and are not a single star.)
\<close>

theorem accept_setting_scoped:
  assumes "plain_dir d" "plain_dir d'" "47 \<notin> set s'" "s \<noteq> js ''*''"
  shows "accepted [(acceptKey s d, b)] s' d' = (if s = s' \<and> d = d' then Some b else None)"
proof -
  have "47 \<in> set (acceptKey s d)" using assms(1) by (simp add: acceptKey_def plain_dir_def js_def)
  then have "s' \<noteq> acceptKey s d" using assms(3) by auto
  moreover have "directoryAcceptKey d' \<noteq> acceptKey s d"
    using acceptKey_eq[OF assms(2,1)] assms(4) by (simp add: directoryAcceptKey_star[OF assms(2)])
  moreover have "acceptKey s' d' = acceptKey s d \<longleftrightarrow> s = s' \<and> d = d'" using acceptKey_eq[OF assms(2,1)] by auto
  ultimately show ?thesis by (auto simp: accepted_def or_else_def)
qed

theorem accept_setting_scoped_witness:
  "accepted [(acceptKey (js ''ses_1'') (js ''/a''), True)] (js ''ses_1'') (js ''/b'') = None"
  using accept_setting_scoped[of "js ''/a''" "js ''/b''" "js ''ses_1''" "js ''ses_1''" True]
  by (simp add: plain_dir_def js_def is_high_def is_low_def)

text \<open>
  The lineage of a session starts with it and follows the parents, each identifier once: it
  ends at a session without parent or where a parent has been visited before, also for cyclic
  parents.
\<close>

theorem lineage_ends:
  "\<exists>rest. sessionLineage session sessionID = sessionID # rest \<and> distinct (sessionID # rest) \<and>
    successively (\<lambda>a b. map_of (parent_map session) a = Some b) (sessionID # rest) \<and>
    (case map_of (parent_map session) (last (sessionID # rest)) of
       None \<Rightarrow> True | Some p \<Rightarrow> p = [] \<or> p \<in> set (sessionID # rest))"
proof -
  obtain rest where r: "sessionLineage session sessionID = sessionID # rest" "distinct rest" "set rest \<inter> set [sessionID] = {}"
    "successively (\<lambda>a b. map_of (parent_map session) a = Some b) (sessionID # rest)"
    "case map_of (parent_map session) (last (sessionID # rest)) of None \<Rightarrow> True
     | Some p \<Rightarrow> p = [] \<or> p \<in> set [sessionID] \<union> set rest"
    using lineage_chain[of sessionID "[sessionID]" "parent_map session"] unfolding sessionLineage_def by auto
  have "distinct (sessionID # rest)" using r(2,3) by simp
  moreover have "set [sessionID] \<union> set rest = set (sessionID # rest)" by simp
  ultimately show ?thesis using r(1,4,5) by metis
qed

text \<open>
  A request is answered automatically exactly if the nearest session of the lineage that has a
  setting (its own, for the session alone, or for the directory) accepts.
\<close>

theorem auto_responds_nearest:
  "autoRespondsPermission autoAccept session sessionID directory \<longleftrightarrow>
     (\<exists>before i after. sessionLineage session sessionID = before @ i # after \<and>
        list_all (\<lambda>j. accepted autoAccept j directory = None) before \<and>
        accepted autoAccept i directory = Some True)"
proof -
  have f: "find (\<lambda>x. x \<noteq> None) (map (\<lambda>i. accepted autoAccept i directory) ids) = Some (Some True) \<longleftrightarrow>
     (\<exists>before i after. ids = before @ i # after \<and> list_all (\<lambda>j. accepted autoAccept j directory = None) before \<and>
        accepted autoAccept i directory = Some True)" for ids
  proof (induction ids)
    case Nil
    then show ?case by simp
  next
    case (Cons j ids)
    show ?case
    proof (cases "accepted autoAccept j directory")
      case None
      have "(\<exists>before i after. j # ids = before @ i # after \<and> list_all (\<lambda>j. accepted autoAccept j directory = None) before \<and>
          accepted autoAccept i directory = Some True) \<longleftrightarrow>
        (\<exists>before i after. ids = before @ i # after \<and> list_all (\<lambda>j. accepted autoAccept j directory = None) before \<and>
          accepted autoAccept i directory = Some True)" (is "?L \<longleftrightarrow> ?R")
      proof
        assume ?L
        then obtain before i after where l: "j # ids = before @ i # after"
          "list_all (\<lambda>j. accepted autoAccept j directory = None) before" "accepted autoAccept i directory = Some True" by blast
        then obtain rest where "before = j # rest" using None by (cases before) auto
        then show ?R using l by auto
      next
        assume ?R
        then obtain before i after where l: "ids = before @ i # after"
          "list_all (\<lambda>j. accepted autoAccept j directory = None) before" "accepted autoAccept i directory = Some True" by blast
        then have "j # ids = (j # before) @ i # after" "list_all (\<lambda>j. accepted autoAccept j directory = None) (j # before)"
          using None by simp_all
        then show ?L using l(3) by blast
      qed
      then show ?thesis using Cons None by simp
    next
      case (Some b)
      have "\<exists>before i after. j # ids = before @ i # after \<and> list_all (\<lambda>j. accepted autoAccept j directory = None) before \<and>
          accepted autoAccept i directory = Some True" if b
        using that Some by (intro exI[of _ "[]"] exI[of _ j] exI[of _ ids]) simp
      then show ?thesis using Some by (cases b) (auto simp: Cons_eq_append_conv)
    qed
  qed
  show ?thesis
    unfolding autoRespondsPermission_def f[symmetric] by (auto split: option.splits)
qed

end
