(* ===== verification/Overflow.thy ===== *)
theory Overflow
  imports Encode
begin

text \<open>
  Context windows and the decision to compact a session: \<open>session/overflow.ts\<close>, the token
  estimate of \<open>util/token.ts\<close> and \<open>maxOutputTokens\<close> of \<open>provider/transform.ts\<close>. Token counts
  are integers. The factors 0.65, 0.05 and 0.9 are exact fractions: for the counts that occur
  (below \<open>10^14\<close>) rounding and comparing the product of doubles gives the same result, since the
  doubles lie above the fractions by less than the distance to the next rounding boundary.
  \<open>toLowerCase\<close> and the case folding of regular expressions are arguments.
\<close>

section \<open>Models and settings\<close>

record model =
  providerID :: jstring
  model_id :: jstring
  model_name :: jstring
  limit_context :: int
  limit_input :: "int option"
  limit_output :: int

text \<open>The settings under \<open>compaction\<close>, absent when that is absent.\<close>

record compaction_cfg =
  cfg_auto :: "bool option"
  cfg_reserved :: "int option"

record tokens =
  t_total :: "int option"
  t_input :: int
  t_output :: int
  t_cache_read :: int
  t_cache_write :: int

record discovered =
  contextWindows :: "(jstring \<times> int) list"
  outputLimits :: "(jstring \<times> int) list"

definition COMPACTION_BUFFER :: int where "COMPACTION_BUFFER = 20000"

text \<open>The environment variable, when it is a positive integer, or the default.\<close>

definition OUTPUT_TOKEN_MAX :: "int option \<Rightarrow> int" where
  "OUTPUT_TOKEN_MAX flag = (case flag of Some n \<Rightarrow> if n > 0 then n else 32000 | None \<Rightarrow> 32000)"

definition maxOutputTokens :: "int option \<Rightarrow> model \<Rightarrow> int" where
  "maxOutputTokens flag m =
     (if limit_output m > 0 then min (limit_output m) (OUTPUT_TOKEN_MAX flag) else OUTPUT_TOKEN_MAX flag)"

section \<open>Discovered limits\<close>

definition discoveredKey :: "model \<Rightarrow> jstring" where
  "discoveredKey m = providerID m @ js ''/'' @ model_id m"

definition persistDiscoveredContextWindow :: "model \<Rightarrow> int \<Rightarrow> discovered \<Rightarrow> bool \<times> discovered" where
  "persistDiscoveredContextWindow m contextWindow st =
     (if map_of (contextWindows st) (discoveredKey m) \<noteq> None then (False, st)
      else if contextWindow \<le> 0 then (False, st)
      else (True, st\<lparr>contextWindows := jmap_set (discoveredKey m) contextWindow (contextWindows st)\<rparr>))"

definition getDiscoveredContextWindow :: "model \<Rightarrow> discovered \<Rightarrow> int option" where
  "getDiscoveredContextWindow m st = map_of (contextWindows st) (discoveredKey m)"

definition persistDiscoveredOutputLimit :: "model \<Rightarrow> int \<Rightarrow> discovered \<Rightarrow> bool \<times> discovered" where
  "persistDiscoveredOutputLimit m outputLimit st =
     (if map_of (outputLimits st) (discoveredKey m) \<noteq> None then (False, st)
      else if outputLimit \<le> 0 then (False, st)
      else (True, st\<lparr>outputLimits := jmap_set (discoveredKey m) outputLimit (outputLimits st)\<rparr>))"

definition getDiscoveredOutputLimit :: "model \<Rightarrow> discovered \<Rightarrow> int option" where
  "getDiscoveredOutputLimit m st = map_of (outputLimits st) (discoveredKey m)"

section \<open>Numbers in texts\<close>

definition is_digit :: "nat \<Rightarrow> bool" where "is_digit c \<longleftrightarrow> 48 \<le> c \<and> c \<le> 57"

definition word_char :: "nat \<Rightarrow> bool" where
  "word_char c \<longleftrightarrow> is_digit c \<or> (65 \<le> c \<and> c \<le> 90) \<or> (97 \<le> c \<and> c \<le> 122) \<or> c = 95"

definition parse_digits :: "jstring \<Rightarrow> int" where
  "parse_digits ds = foldl (\<lambda>a d. a * 10 + int (d - 48)) 0 ds"

text \<open>The leftmost match of a pattern that is tried at a position.\<close>

fun leftmost :: "(jstring \<Rightarrow> 'a option) \<Rightarrow> jstring \<Rightarrow> 'a option" where
  "leftmost f [] = f []"
| "leftmost f (c # s) = (case f (c # s) of Some r \<Rightarrow> Some r | None \<Rightarrow> leftmost f s)"

text \<open>\<open>(\d+)\<close> followed by a letter and a word boundary, on a text in lower case.\<close>

definition digits_unit :: "nat \<Rightarrow> jstring \<Rightarrow> jstring option" where
  "digits_unit u s =
     (let ds = takeWhile is_digit s; r = dropWhile is_digit s
      in if ds = [] then None
         else case r of
                [] \<Rightarrow> None
              | c # r' \<Rightarrow> if c = u \<and> (r' = [] \<or> \<not> word_char (hd r')) then Some ds else None)"

definition unit_size :: "nat \<Rightarrow> int \<Rightarrow> jstring \<Rightarrow> int option" where
  "unit_size u factor txt =
     (case leftmost (digits_unit u) txt of
        Some ds \<Rightarrow> let n = parse_digits ds in if n > 0 then Some (n * factor) else None
      | None \<Rightarrow> None)"

definition inferContextFromModel :: "(jstring \<Rightarrow> jstring) \<Rightarrow> model \<Rightarrow> int" where
  "inferContextFromModel lower m =
     (let txt = lower (model_name m @ js '' '' @ model_id m)
      in case unit_size 107 1000 txt of Some n \<Rightarrow> n
         | None \<Rightarrow> (case unit_size 109 1000000 txt of Some n \<Rightarrow> n
                    | None \<Rightarrow> (case unit_size 103 1000000000 txt of Some n \<Rightarrow> n | None \<Rightarrow> 0)))"

definition resolveContextWindow :: "(jstring \<Rightarrow> jstring) \<Rightarrow> discovered \<Rightarrow> model \<Rightarrow> int" where
  "resolveContextWindow lower st m =
     (if limit_context m > 0 then limit_context m
      else case map_of (contextWindows st) (discoveredKey m) of
             Some d \<Rightarrow> if d \<noteq> 0 then d
                       else if inferContextFromModel lower m > 0 then inferContextFromModel lower m else 128000
           | None \<Rightarrow> if inferContextFromModel lower m > 0 then inferContextFromModel lower m else 128000)"

text \<open>
  The patterns for error messages: literal text up to case, \<open>\s*\<close>, \<open>[:\s]+\<close> and the number. What
  follows a repetition never starts with one of its characters, so the greedy match is the match.
\<close>

datatype rx = Lit jstring | Blanks | ColonBlanks | Num

fun rx_at :: "(nat \<Rightarrow> nat) \<Rightarrow> rx list \<Rightarrow> jstring \<Rightarrow> jstring \<Rightarrow> jstring option" where
  "rx_at ci [] s cap = Some cap"
| "rx_at ci (Lit w # rs) s cap =
     (if map ci (take (length w) s) = map ci w then rx_at ci rs (drop (length w) s) cap else None)"
| "rx_at ci (Blanks # rs) s cap = rx_at ci rs (dropWhile is_space s) cap"
| "rx_at ci (ColonBlanks # rs) s cap =
     (if takeWhile (\<lambda>c. is_space c \<or> c = 58) s = [] then None
      else rx_at ci rs (dropWhile (\<lambda>c. is_space c \<or> c = 58) s) cap)"
| "rx_at ci (Num # rs) s cap =
     (if takeWhile is_digit s = [] then None else rx_at ci rs (dropWhile is_digit s) (takeWhile is_digit s))"

text \<open>One pattern, as a list of alternatives tried in order at every position.\<close>

definition rx_number :: "(nat \<Rightarrow> nat) \<Rightarrow> rx list list \<Rightarrow> jstring \<Rightarrow> int option" where
  "rx_number ci alts s =
     (case leftmost (\<lambda>t. case find (\<lambda>x. x \<noteq> None) (map (\<lambda>p. rx_at ci p t []) alts) of Some r \<Rightarrow> r | None \<Rightarrow> None) s of
        Some ds \<Rightarrow> let n = parse_digits ds in if n > 0 then Some n else None
      | None \<Rightarrow> None)"

definition window_patterns :: "rx list list list" where
  "window_patterns =
     [[[Lit (js ''Range of input length should be [1,''), Blanks, Num, Lit (js '']'')]],
      [[Lit (js ''input token limit is ''), Num]],
      [[Lit (js ''maximum context length is ''), Num]],
      [[Lit (js ''model'' @ [39] @ js ''s maximum context length is ''), Num]],
      [[Lit (js ''maximum ''), Lit (js ''context length''), ColonBlanks, Num],
       [Lit (js ''context length''), ColonBlanks, Num]]]"

definition extractContextWindowFromError :: "(nat \<Rightarrow> nat) \<Rightarrow> jstring \<Rightarrow> int option" where
  "extractContextWindowFromError ci errorText =
     (case find (\<lambda>x. x \<noteq> None) (map (\<lambda>alts. rx_number ci alts errorText) window_patterns) of
        Some r \<Rightarrow> r | None \<Rightarrow> None)"

section \<open>Token estimates\<close>

definition isCJK :: "nat \<Rightarrow> bool" where
  "isCJK cp \<longleftrightarrow>
     (19968 \<le> cp \<and> cp \<le> 40959) \<or> (13312 \<le> cp \<and> cp \<le> 19903) \<or> (12352 \<le> cp \<and> cp \<le> 12543) \<or>
     (44032 \<le> cp \<and> cp \<le> 55215) \<or> (63744 \<le> cp \<and> cp \<le> 64255) \<or> (65280 \<le> cp \<and> cp \<le> 65519) \<or>
     (12288 \<le> cp \<and> cp \<le> 12351) \<or> (11904 \<le> cp \<and> cp \<le> 12031) \<or> (12736 \<le> cp \<and> cp \<le> 12783)"

text \<open>
  The loop runs over the code points of the text; \<open>Math.round\<close> of a number of quarters is exact. A
  single surrogate and the replacement character that stands for it are both not CJK.
\<close>

definition estimate :: "jstring \<Rightarrow> int" where
  "estimate inp =
     (let ps = code_points inp; cjk = int (length (filter isCJK ps)); ascii = int (length (filter (\<lambda>p. \<not> isCJK p) ps))
      in cjk + (ascii + 2) div 4)"

text \<open>The threshold is a fraction.\<close>

definition isApproachingLimit :: "int \<Rightarrow> int \<Rightarrow> int \<times> int \<Rightarrow> bool" where
  "isApproachingLimit estimatedTokens modelContextLimit threshold =
     (if modelContextLimit = 0 then False
      else estimatedTokens * snd threshold \<ge> modelContextLimit * fst threshold)"

section \<open>Budgets\<close>

record env =
  e_flag :: "int option"
  e_lower :: "jstring \<Rightarrow> jstring"
  e_found :: discovered

definition usable :: "env \<Rightarrow> compaction_cfg \<Rightarrow> model \<Rightarrow> int" where
  "usable e cfg m =
     (let context = resolveContextWindow (e_lower e) (e_found e) m
      in if context = 0 then 0
         else
           (let reserved = (case cfg_reserved cfg of Some r \<Rightarrow> r | None \<Rightarrow> min COMPACTION_BUFFER (maxOutputTokens (e_flag e) m))
            in case limit_input m of
                 Some i \<Rightarrow>
                   if i \<noteq> 0 then max 0 (i - reserved)
                   else max 0 (context - min (maxOutputTokens (e_flag e) m) (context div 2))
               | None \<Rightarrow> max 0 (context - min (maxOutputTokens (e_flag e) m) (context div 2))))"

definition effectiveUsable :: "env \<Rightarrow> compaction_cfg \<Rightarrow> model \<Rightarrow> int" where
  "effectiveUsable e cfg m =
     (let hardLimit = usable e cfg m in if hardLimit = 0 then 0 else (65 * hardLimit + 50) div 100)"

definition dynamicMemoryBudget :: "env \<Rightarrow> compaction_cfg \<Rightarrow> model \<Rightarrow> int" where
  "dynamicMemoryBudget e cfg m =
     (let budget = effectiveUsable e cfg m
      in if budget = 0 then 2000 else max 2000 (min ((5 * budget + 50) div 100) 12000))"

definition isOverflow :: "env \<Rightarrow> compaction_cfg \<Rightarrow> tokens \<Rightarrow> model \<Rightarrow> bool" where
  "isOverflow e cfg t m =
     (if cfg_auto cfg = Some False then False
      else if resolveContextWindow (e_lower e) (e_found e) m = 0 then False
      else
        (let count = (case t_total t of
                        Some n \<Rightarrow> if n \<noteq> 0 then n else t_input t + t_output t + t_cache_read t + t_cache_write t
                      | None \<Rightarrow> t_input t + t_output t + t_cache_read t + t_cache_write t)
         in count \<ge> effectiveUsable e cfg m))"

definition isEstimatedOverflow :: "env \<Rightarrow> compaction_cfg \<Rightarrow> model \<Rightarrow> jstring option \<Rightarrow> int option \<Rightarrow> bool" where
  "isEstimatedOverflow e cfg m payload estimatedTokens =
     (if cfg_auto cfg = Some False then False
      else if resolveContextWindow (e_lower e) (e_found e) m = 0 then False
      else
        (let est = (case estimatedTokens of Some n \<Rightarrow> n
                    | None \<Rightarrow> (case payload of Some p \<Rightarrow> if p = [] then 0 else estimate p | None \<Rightarrow> 0));
             effectiveLimit = effectiveUsable e cfg m
         in if effectiveLimit = 0 then False else isApproachingLimit est effectiveLimit (9, 10)))"

section \<open>Estimates with doubles\<close>

text \<open>
  The estimates that multiply by 1.15 are exact down to the last bit: a number is a natural number
  of units \<open>2^-k\<close>, the product is rounded to 53 significant bits, to the even one of two nearest,
  and \<open>Math.round\<close> takes the nearest integer, the upper one of two.
\<close>

fun bits :: "nat \<Rightarrow> nat" where
  "bits n = (if n = 0 then 0 else Suc (bits (n div 2)))"

declare bits.simps [simp del]

definition half_even :: "nat \<Rightarrow> nat \<Rightarrow> nat" where
  "half_even e p =
     (let q = p div 2 ^ e; r = p mod 2 ^ e
      in (if 2 * r > 2 ^ e \<or> (2 * r = 2 ^ e \<and> odd q) then q + 1 else q) * 2 ^ e)"

definition to_double :: "nat \<Rightarrow> nat" where
  "to_double p = (if bits p \<le> 53 then p else half_even (bits p - 53) p)"

text \<open>\<open>Math.round\<close> of \<open>n / 2^j\<close> times the double \<open>m / 2^k\<close>.\<close>

definition round_mul :: "nat \<Rightarrow> nat \<Rightarrow> nat \<times> nat \<Rightarrow> nat" where
  "round_mul n j f = (to_double (n * fst f) + 2 ^ (j + snd f - 1)) div 2 ^ (j + snd f)"

text \<open>The double nearest to 1.15.\<close>

definition overhead :: "nat \<times> nat" where "overhead = (5179139571476070, 52)"

record est_tool_state =
  ts_status :: jstring
  ts_compacted :: "nat option"
  ts_output :: "jstring option"
  ts_error :: "jstring option"
  ts_raw :: "jstring option"

datatype est_part =
    EText "jstring option"
  | EReasoning "jstring option"
  | ETool "est_tool_state option"
  | EFile "jstring option"
  | ESubtask "jstring option" "jstring option"
  | EReview "jstring option"
  | EOther

definition count :: "jstring option \<Rightarrow> nat \<times> nat \<Rightarrow> nat \<times> nat" where
  "count txt ca =
     (case txt of
        None \<Rightarrow> ca
      | Some s \<Rightarrow> (fst ca + length (filter isCJK (code_points s)), snd ca + length (filter (\<lambda>p. \<not> isCJK p) (code_points s))))"

fun count_part :: "est_part \<Rightarrow> nat \<times> nat \<Rightarrow> nat \<times> nat" where
  "count_part (EText t) ca = count t ca"
| "count_part (EReasoning t) ca = count t ca"
| "count_part (ETool None) ca = ca"
| "count_part (ETool (Some s)) ca =
     (if ts_status s = js ''completed'' then
        apsnd (\<lambda>a. a + 20)
          (if ts_compacted s \<noteq> None \<and> ts_compacted s \<noteq> Some 0 then apsnd (\<lambda>a. a + 40) ca else count (ts_output s) ca)
      else if ts_status s = js ''error'' then apsnd (\<lambda>a. a + 20) (count (ts_error s) ca)
      else if ts_status s = js ''pending'' \<or> ts_status s = js ''running'' then apsnd (\<lambda>a. a + 20) (count (ts_raw s) ca)
      else ca)"
| "count_part (EFile url) ca =
     (let urlLen = (case url of Some u \<Rightarrow> length u | None \<Rightarrow> 0)
      in apsnd (\<lambda>a. a + (if urlLen > 0 then urlLen else 40) + 40) ca)"
| "count_part (ESubtask p d) ca = count d (count p ca)"
| "count_part (EReview s) ca = count s ca"
| "count_part EOther ca = ca"

definition count_parts :: "est_part list \<Rightarrow> nat \<times> nat" where
  "count_parts ps = foldl (\<lambda>ca p. count_part p ca) (0, 0) ps"

definition estimateFromParts :: "est_part list \<Rightarrow> nat" where
  "estimateFromParts parts =
     (let (cjk, ascii) = count_parts parts
      in if cjk = 0 \<and> ascii = 0 then 0 else round_mul (4 * cjk + ascii) 2 overhead)"

text \<open>Half the characters at one token and half at a quarter: five eighths of the length.\<close>

definition estimateFromLength :: "nat \<Rightarrow> nat \<times> nat \<Rightarrow> nat" where
  "estimateFromLength charLength overheadFactor =
     (if charLength = 0 then 0 else round_mul (5 * charLength) 3 overheadFactor)"

section \<open>Rounding stays close\<close>

lemma bits_lower: "0 < n \<Longrightarrow> 2 ^ (bits n - 1) \<le> n"
proof (induction n rule: bits.induct)
  case (1 n)
  show ?case
  proof (cases "n div 2 = 0")
    case True
    then show ?thesis using 1 by (simp add: bits.simps[of n] bits.simps[of 0])
  next
    case False
    then have "2 ^ (bits (n div 2) - 1) \<le> n div 2" "bits (n div 2) = Suc (bits (n div 2) - 1)"
      using 1 by (auto simp: bits.simps[of "n div 2"])
    then have "2 * 2 ^ (bits (n div 2) - 1) \<le> n" "bits n - 1 = Suc (bits (n div 2) - 1)"
      using 1(2) by (auto simp: bits.simps[of n])
    then show ?thesis by simp
  qed
qed

lemma half_even_near: "p \<le> half_even e p + 2 ^ e div 2" "half_even e p \<le> p + 2 ^ e div 2"
proof -
  let ?q = "p div 2 ^ e" and ?r = "p mod 2 ^ e"
  have p: "p = ?q * 2 ^ e + ?r" and r: "?r < 2 ^ e" by (simp_all only: div_mult_mod_eq) simp
  have d: "2 ^ e \<le> 2 * (2 ^ e div 2) + (1::nat)" by simp
  show "p \<le> half_even e p + 2 ^ e div 2"
  proof (cases "2 * ?r > 2 ^ e \<or> (2 * ?r = 2 ^ e \<and> odd ?q)")
    case True
    then have h: "half_even e p = ?q * 2 ^ e + 2 ^ e" by (simp add: half_even_def Let_def)
    show ?thesis unfolding h using p r by linarith
  next
    case False
    then have h: "half_even e p = ?q * 2 ^ e" unfolding half_even_def Let_def by (simp only: if_False)
    have "?r \<le> 2 ^ e div 2" using False by linarith
    then show ?thesis unfolding h using p by linarith
  qed
  show "half_even e p \<le> p + 2 ^ e div 2"
  proof (cases "2 * ?r > 2 ^ e \<or> (2 * ?r = 2 ^ e \<and> odd ?q)")
    case True
    then have h: "half_even e p = ?q * 2 ^ e + 2 ^ e" by (simp add: half_even_def Let_def)
    have "2 ^ e \<le> ?r + 2 ^ e div 2" using True by linarith
    then show ?thesis unfolding h using p by linarith
  next
    case False
    then have h: "half_even e p = ?q * 2 ^ e" unfolding half_even_def Let_def by (simp only: if_False)
    show ?thesis unfolding h using p by linarith
  qed
qed

text \<open>Rounding changes a number by at most its \<open>2^52\<close>th part.\<close>

lemma to_double_near: "p \<le> to_double p + p div 2 ^ 52" "to_double p \<le> p + p div 2 ^ 52"
proof -
  have "2 ^ (bits p - 53) div 2 \<le> p div 2 ^ 52" if b: "\<not> bits p \<le> 53"
  proof -
    have "0 < p" using b by (cases p) (auto simp: bits.simps[of 0])
    moreover have "bits p - 1 = bits p - 53 + 52" using b by simp
    ultimately have "2 ^ (bits p - 53) * 2 ^ 52 \<le> p" using bits_lower[of p] by (simp only: power_add)
    then have "2 ^ (bits p - 53) \<le> p div 2 ^ 52" by (simp add: less_eq_div_iff_mult_less_eq)
    then show ?thesis by linarith
  qed
  then show "p \<le> to_double p + p div 2 ^ 52" "to_double p \<le> p + p div 2 ^ 52"
    using half_even_near(1)[of p "bits p - 53"] half_even_near(2)[of "bits p - 53" p]
    unfolding to_double_def by (auto intro: order_trans add_left_mono)
qed

lemma round_mul_overhead:
  "(n + 2) div 4 \<le> round_mul n 2 overhead"
  "10 * round_mul n 2 overhead \<le> 3 * n + 5"
proof -
  let ?P = "n * 5179139571476070" and ?R = "to_double (n * 5179139571476070)"
  have r: "round_mul n 2 overhead = (?R + 9007199254740992) div 18014398509481984"
    by (simp add: round_mul_def overhead_def)
  have d: "?P div 2 ^ 52 \<le> 2 * n" by simp
  have lo: "n * 4503599627370496 \<le> ?R" and hi: "10 * ?R \<le> n * (12 * 4503599627370496)"
    using d to_double_near[of ?P] by linarith+
  have m: "(n + 2) div 4 * 4 \<le> n + 2" by simp
  show "(n + 2) div 4 \<le> round_mul n 2 overhead"
    unfolding r using lo m by (simp add: less_eq_div_iff_mult_less_eq)
  have "round_mul n 2 overhead * 18014398509481984 \<le> ?R + 9007199254740992"
    unfolding r by (rule div_times_less_eq_dividend)
  then show "10 * round_mul n 2 overhead \<le> 3 * n + 5" using hi by linarith
qed

lemma count_part_grows: "fst ca \<le> fst (count_part p ca)" "snd ca \<le> snd (count_part p ca)"
  by (cases "(p, ca)" rule: count_part.cases; auto simp: count_def Let_def split: option.splits)+

lemma count_fold_grows:
  "fst ca \<le> fst (foldl (\<lambda>ca p. count_part p ca) ca ps) \<and> snd ca \<le> snd (foldl (\<lambda>ca p. count_part p ca) ca ps)"
proof (induction ps arbitrary: ca)
  case (Cons p ps)
  show ?case
    using Cons.IH[of "count_part p ca"] count_part_grows[of ca p] unfolding foldl_Cons by (meson order_trans)
qed simp

lemma count_parts_text:
  fixes s ps qs
  defines "ca \<equiv> count_parts (ps @ EText (Some s) # qs)"
  shows "length (filter isCJK (code_points s)) \<le> fst ca"
    "length (filter (\<lambda>p. \<not> isCJK p) (code_points s)) \<le> snd ca"
  unfolding ca_def count_parts_def
  using count_fold_grows[of "count_part (EText (Some s)) (foldl (\<lambda>ca p. count_part p ca) (0, 0) ps)" qs]
  by (auto simp: count_def)

text \<open>
  The estimate from message parts is never below the estimate of any text in them, whatever the
  other parts are, and it exceeds the counted characters (four to a token, one to a token for CJK)
  by at most a fifth and half a token.
\<close>

theorem estimateFromParts_over:
  "estimate s \<le> int (estimateFromParts (ps @ EText (Some s) # qs)) \<and>
   10 * estimateFromParts ts \<le> 3 * (4 * fst (count_parts ts) + snd (count_parts ts)) + 5"
proof
  let ?ca = "count_parts (ps @ EText (Some s) # qs)"
  let ?n = "4 * fst ?ca + snd ?ca"
  have "estimateFromParts (ps @ EText (Some s) # qs) = (if ?n = 0 then 0 else round_mul ?n 2 overhead)"
    by (simp add: estimateFromParts_def split_beta)
  then have "(?n + 2) div 4 \<le> estimateFromParts (ps @ EText (Some s) # qs)"
    using round_mul_overhead(1)[of ?n] by simp
  moreover have "estimate s \<le> int ((?n + 2) div 4)"
    using count_parts_text[where s = s and ps = ps and qs = qs] by (simp add: estimate_def Let_def)
  ultimately show "estimate s \<le> int (estimateFromParts (ps @ EText (Some s) # qs))" by linarith
  show "10 * estimateFromParts ts \<le> 3 * (4 * fst (count_parts ts) + snd (count_parts ts)) + 5"
    using round_mul_overhead(2)[of "4 * fst (count_parts ts) + snd (count_parts ts)"]
    by (simp add: estimateFromParts_def split_beta)
qed

section \<open>Discovered limits: the first positive one wins\<close>

definition found_ok :: "discovered \<Rightarrow> bool" where
  "found_ok st \<longleftrightarrow> list_all (\<lambda>kv. 0 < snd kv) (contextWindows st)"

definition no_limits :: discovered where "no_limits = \<lparr>contextWindows = [], outputLimits = []\<rparr>"

text \<open>The errors of a run, each with its model and the number found in it.\<close>

definition discover :: "(model \<times> int) list \<Rightarrow> discovered \<Rightarrow> discovered" where
  "discover es st = fold (\<lambda>(m, n) st. snd (persistDiscoveredContextWindow m n st)) es st"

lemma found_okD: "found_ok st \<Longrightarrow> map_of (contextWindows st) k = Some n \<Longrightarrow> 0 < n"
  unfolding found_ok_def by (auto simp: list_all_iff dest!: map_of_SomeD)

lemma persist_found_ok: "found_ok st \<Longrightarrow> found_ok (snd (persistDiscoveredContextWindow m n st))"
  by (auto simp: found_ok_def persistDiscoveredContextWindow_def jmap_set_fresh map_of_eq_None_iff)

lemma discover_found_ok: "found_ok st \<Longrightarrow> found_ok (discover es st)"
  unfolding discover_def by (induction es arbitrary: st) (auto intro: persist_found_ok)

lemma persist_lookup:
  "getDiscoveredContextWindow m' (snd (persistDiscoveredContextWindow m n st)) =
     (case getDiscoveredContextWindow m' st of Some v \<Rightarrow> Some v
      | None \<Rightarrow> if discoveredKey m = discoveredKey m' \<and> 0 < n then Some n else None)"
  by (auto simp: getDiscoveredContextWindow_def persistDiscoveredContextWindow_def update_conv' split: option.splits)

text \<open>
  After any sequence of overflow errors the window recorded for a model is the first positive
  number reported for a model of that provider and identifier, later reports change nothing, and
  no window is recorded if no report was positive.
\<close>

theorem first_discovery_wins:
  "getDiscoveredContextWindow m (discover es no_limits) =
     map_option snd (find (\<lambda>(m', n). discoveredKey m' = discoveredKey m \<and> 0 < n) es)"
proof -
  have "getDiscoveredContextWindow m (discover es st) =
      (case getDiscoveredContextWindow m st of Some v \<Rightarrow> Some v
       | None \<Rightarrow> map_option snd (find (\<lambda>(m', n). discoveredKey m' = discoveredKey m \<and> 0 < n) es))" for st
  proof (induction es arbitrary: st)
    case Nil
    show ?case by (simp add: discover_def split: option.splits)
  next
    case (Cons e es)
    then show ?case
      by (cases e) (auto simp: discover_def persist_lookup split: option.splits)
  qed
  then show ?thesis by (simp add: no_limits_def getDiscoveredContextWindow_def)
qed

section \<open>Budgets\<close>

lemma OUTPUT_TOKEN_MAX_pos: "0 < OUTPUT_TOKEN_MAX flag"
  by (auto simp: OUTPUT_TOKEN_MAX_def split: option.splits)

lemma maxOutputTokens_pos: "0 < maxOutputTokens flag m"
  using OUTPUT_TOKEN_MAX_pos[of flag] by (auto simp: maxOutputTokens_def)

lemma resolve_pos: "found_ok st \<Longrightarrow> 0 < resolveContextWindow lower st m"
  by (auto simp: resolveContextWindow_def dest: found_okD split: option.splits)

text \<open>A model without an input limit of its own.\<close>

definition no_input_limit :: "model \<Rightarrow> bool" where
  "no_input_limit m \<longleftrightarrow> limit_input m = None \<or> limit_input m = Some 0"

lemma usable_no_input:
  assumes "found_ok (e_found e)" "no_input_limit m"
  defines "c \<equiv> resolveContextWindow (e_lower e) (e_found e) m"
  shows "usable e cfg m = c - min (maxOutputTokens (e_flag e) m) (c div 2)" "0 < c"
proof -
  show "0 < c" using assms by (simp add: resolve_pos)
  then show "usable e cfg m = c - min (maxOutputTokens (e_flag e) m) (c div 2)"
    using assms(2) maxOutputTokens_pos[of "e_flag e" m]
    unfolding usable_def c_def[symmetric] Let_def no_input_limit_def by auto
qed

lemma effectiveUsable_pos: "0 < usable e cfg m \<Longrightarrow> 0 < effectiveUsable e cfg m"
  by (simp add: effectiveUsable_def Let_def)

text \<open>
  C27. For a model without an input limit of its own, whatever is configured and whatever windows
  were discovered from errors, the usable part is at least half of the context window and at most
  all of it, the target for compaction is positive and at most 65 percent of the window, and an
  empty session does not overflow, so that compaction is not triggered endlessly. The budget for
  memories is always between 2000 and 12000.
\<close>

theorem usable_bounds:
  fixes flag :: "int option" and lower :: "jstring \<Rightarrow> jstring" and es :: "(model \<times> int) list"
  assumes "no_input_limit m"
  defines "e \<equiv> \<lparr>e_flag = flag, e_lower = lower, e_found = discover es no_limits\<rparr>"
  defines "c \<equiv> resolveContextWindow lower (discover es no_limits) m"
  shows "0 < c \<and> c \<le> 2 * usable e cfg m \<and> usable e cfg m \<le> c \<and>
     0 < effectiveUsable e cfg m \<and> 100 * effectiveUsable e cfg m \<le> 65 * c + 50 \<and>
     \<not> isOverflow e cfg \<lparr>t_total = Some 0, t_input = 0, t_output = 0, t_cache_read = 0, t_cache_write = 0\<rparr> m \<and>
     2000 \<le> dynamicMemoryBudget e cfg' m' \<and> dynamicMemoryBudget e cfg' m' \<le> 12000"
proof -
  have "found_ok no_limits" by (simp add: found_ok_def no_limits_def)
  then have ok: "found_ok (e_found e)" by (simp add: e_def discover_found_ok)
  have c: "c = resolveContextWindow (e_lower e) (e_found e) m" by (simp add: c_def e_def)
  have u: "usable e cfg m = c - min (maxOutputTokens (e_flag e) m) (c div 2)" "0 < c"
    using usable_no_input[OF ok assms(1)] unfolding c by blast+
  have bounds: "c \<le> 2 * usable e cfg m" "usable e cfg m \<le> c"
    using u maxOutputTokens_pos[of "e_flag e" m] by auto
  then have pos: "0 < usable e cfg m" using u(2) by linarith
  have eff: "100 * effectiveUsable e cfg m \<le> 65 * usable e cfg m + 50"
    using pos by (simp add: effectiveUsable_def Let_def)
  show ?thesis
    using u(2) bounds eff effectiveUsable_pos[OF pos]
    by (auto simp: isOverflow_def dynamicMemoryBudget_def Let_def)
qed

definition small_model :: model where
  "small_model = \<lparr>providerID = js ''p'', model_id = js ''m'', model_name = [], limit_context = 4096,
     limit_input = None, limit_output = 0\<rparr>"

theorem usable_bounds_witness:
  "no_input_limit small_model \<and>
   0 < effectiveUsable \<lparr>e_flag = None, e_lower = (\<lambda>s. s), e_found = discover [] no_limits\<rparr>
     \<lparr>cfg_auto = None, cfg_reserved = None\<rparr> small_model"
  using usable_bounds[of small_model "\<lambda>s. s" "[]"] unfolding no_input_limit_def small_model_def by simp

definition token_count :: "tokens \<Rightarrow> int" where
  "token_count t = (case t_total t of
     Some n \<Rightarrow> if n \<noteq> 0 then n else t_input t + t_output t + t_cache_read t + t_cache_write t
   | None \<Rightarrow> t_input t + t_output t + t_cache_read t + t_cache_write t)"

lemma isOverflow_iff:
  "isOverflow e cfg t m \<longleftrightarrow> cfg_auto cfg \<noteq> Some False \<and> resolveContextWindow (e_lower e) (e_found e) m \<noteq> 0 \<and>
     effectiveUsable e cfg m \<le> token_count t"
  by (auto simp: isOverflow_def token_count_def Let_def split: option.splits)

text \<open>
  The check before a request is never later than the check after it: if the tokens of an answer
  overflow the target, the same number as an estimate does, whenever the target is positive; and
  it triggers from nine tenths of the target on.
\<close>

theorem estimated_overflow_earlier:
  assumes "0 < effectiveUsable e cfg m"
  shows "(isOverflow e cfg t m \<longrightarrow> isEstimatedOverflow e cfg m payload (Some (token_count t))) \<and>
    (isEstimatedOverflow e cfg m payload (Some n) \<longleftrightarrow>
       cfg_auto cfg \<noteq> Some False \<and> resolveContextWindow (e_lower e) (e_found e) m \<noteq> 0 \<and> 9 * effectiveUsable e cfg m \<le> 10 * n)"
  using assms by (auto simp: isOverflow_iff isEstimatedOverflow_def isApproachingLimit_def Let_def)

theorem estimated_overflow_earlier_witness:
  "isEstimatedOverflow \<lparr>e_flag = None, e_lower = (\<lambda>s. s), e_found = no_limits\<rparr>
     \<lparr>cfg_auto = None, cfg_reserved = None\<rparr> small_model None (Some 1331)"
proof -
  let ?e = "\<lparr>e_flag = None, e_lower = (\<lambda>s. s), e_found = no_limits\<rparr>" and ?c = "\<lparr>cfg_auto = None, cfg_reserved = None\<rparr>"
  let ?t = "\<lparr>t_total = None, t_input = 1331, t_output = 0, t_cache_read = 0, t_cache_write = 0\<rparr>"
  have u: "effectiveUsable ?e ?c small_model = 1331"
    by (simp add: effectiveUsable_def usable_def resolveContextWindow_def small_model_def maxOutputTokens_def OUTPUT_TOKEN_MAX_def)
  have "isOverflow ?e ?c ?t small_model"
    unfolding isOverflow_iff u by (simp add: token_count_def resolveContextWindow_def small_model_def)
  then show ?thesis using estimated_overflow_earlier[of ?e ?c small_model ?t None 0] u by (simp add: token_count_def)
qed

text \<open>
  A model whose input limit is not above the reserve for output makes the target zero: every
  answer, even an empty one, is an overflow after the fact, while the check before a request never
  triggers. The guard against this holds only for models without an input limit.
\<close>

theorem small_input_limit_overflows:
  assumes "0 < i" "i \<le> maxOutputTokens flag m" "i \<le> COMPACTION_BUFFER" "limit_input m = Some i"
    "0 < limit_context m" "cfg_auto cfg = None" "cfg_reserved cfg = None" "0 \<le> token_count t"
  shows "isOverflow \<lparr>e_flag = flag, e_lower = lower, e_found = st\<rparr> cfg t m \<and>
    \<not> isEstimatedOverflow \<lparr>e_flag = flag, e_lower = lower, e_found = st\<rparr> cfg m payload est"
  using assms
  by (simp add: isOverflow_iff isEstimatedOverflow_def effectiveUsable_def usable_def resolveContextWindow_def)

theorem small_input_limit_overflows_witness:
  "isOverflow \<lparr>e_flag = None, e_lower = (\<lambda>s. s), e_found = no_limits\<rparr> \<lparr>cfg_auto = None, cfg_reserved = None\<rparr>
     \<lparr>t_total = None, t_input = 0, t_output = 0, t_cache_read = 0, t_cache_write = 0\<rparr>
     (small_model\<lparr>limit_context := 32000, limit_input := Some 16000, limit_output := 16000\<rparr>)"
  by (rule conjunct1[OF small_input_limit_overflows[where i = 16000 and est = None and payload = None]])
    (simp_all add: small_model_def maxOutputTokens_def OUTPUT_TOKEN_MAX_def COMPACTION_BUFFER_def token_count_def)

text \<open>The sizes the comment on the memory budget gives for windows of 32K and 128K are not those of the code.\<close>

lemma memory_budget_sizes:
  defines "e \<equiv> \<lparr>e_flag = None, e_lower = (\<lambda>s. s), e_found = no_limits\<rparr>" and "cfg \<equiv> \<lparr>cfg_auto = None, cfg_reserved = None\<rparr>"
  shows "dynamicMemoryBudget e cfg (small_model\<lparr>limit_context := 32000\<rparr>) = 2000"
    "dynamicMemoryBudget e cfg (small_model\<lparr>limit_context := 128000\<rparr>) = 3120"
    "dynamicMemoryBudget e cfg (small_model\<lparr>limit_context := 200000\<rparr>) = 5460"
  unfolding e_def cfg_def
  by (simp_all add: dynamicMemoryBudget_def effectiveUsable_def usable_def resolveContextWindow_def small_model_def
      maxOutputTokens_def OUTPUT_TOKEN_MAX_def)

end
