(* ===== verification/Message.thy ===== *)
theory Message
  imports Overflow "HOL-Library.List_Lexorder" "HOL-Library.Sublist"
begin

text \<open>
  Messages and their parts, \<open>session/message-v2.ts\<close>: the data, the conversion of a history to
  the messages sent to a model, and the part of a history that is left after a compaction.

  A part or message is its identifiers and the rest, as the tables of \<open>session.sql.ts\<close> store it.
  Fields the code only copies are of type \<open>json\<close>. The conversion ends with the messages handed
  to \<open>convertToModelMessages\<close> of the library \<open>ai\<close>.
\<close>

section \<open>Data\<close>

type_synonym jobj = "(jstring \<times> json) list"

record file_fields =
  f_mime :: jstring
  f_filename :: "jstring option"
  f_url :: jstring
  f_source :: "json option"

record completed_state =
  c_input :: jobj
  c_output :: jstring
  c_title :: jstring
  c_metadata :: jobj
  c_start :: int
  c_end :: int
  c_compacted :: "int option"
  c_attachments :: "file_fields list option"

record error_state =
  er_input :: jobj
  er_error :: jstring
  er_metadata :: "jobj option"
  er_start :: int
  er_end :: int

datatype part_state =
    SPending jobj jstring
  | SRunning jobj "jstring option" "jobj option" int
  | SCompleted completed_state
  | SError error_state

record text_fields =
  tx_text :: jstring
  tx_synthetic :: "bool option"
  tx_ignored :: "bool option"
  tx_time :: "json option"
  tx_metadata :: "jobj option"

record tool_fields =
  tl_callID :: jstring
  tl_tool :: jstring
  tl_state :: part_state
  tl_metadata :: "jobj option"

record compaction_fields =
  cp_auto :: bool
  cp_overflow :: "bool option"
  cp_tail_start_id :: "jstring option"

record subtask_fields =
  sb_prompt :: jstring
  sb_description :: jstring
  sb_agent :: jstring
  sb_model :: "json option"
  sb_command :: "jstring option"

datatype part_data =
    TextData text_fields
  | SubtaskData subtask_fields
  | ReasoningData jstring "jobj option" json
  | FileData file_fields
  | ToolData tool_fields
  | StepStartData "jstring option"
  | StepFinishData json "jstring option"
  | SnapshotData jstring
  | PatchData jstring "jstring list"
  | AgentData jstring "json option"
  | RetryData json
  | CompactionData compaction_fields
  | ReviewData json jstring "jstring option"

record msg_part =
  pid :: jstring
  pmessage :: jstring
  psession :: jstring
  pdata :: part_data

record model_ref =
  mr_provider :: jstring
  mr_model :: jstring
  mr_variant :: "jstring option"

record user_fields =
  u_created :: int
  u_format :: "json option"
  u_summary :: "json option"
  u_agent :: jstring
  u_model :: model_ref
  u_system :: "jstring option"
  u_locale :: "jstring option"
  u_tools :: "json option"

text \<open>Errors as stored: the name of their class and the data.\<close>

record named_error =
  ne_name :: jstring
  ne_data :: jobj

record msg_tokens = tokens +
  t_reasoning :: int

record assistant_fields =
  a_created :: int
  a_completed :: "int option"
  a_error :: "named_error option"
  a_parentID :: jstring
  a_modelID :: jstring
  a_providerID :: jstring
  a_mode :: jstring
  a_agent :: jstring
  a_cwd :: jstring
  a_root :: jstring
  a_summary :: "bool option"
  a_tokens :: msg_tokens
  a_structured :: "json option"
  a_variant :: "jstring option"
  a_finish :: "jstring option"

datatype info_data = UserData user_fields | AssistantData assistant_fields

record msg_info =
  mid :: jstring
  msession :: jstring
  mdata :: info_data

record with_parts =
  wp_info :: msg_info
  wp_parts :: "msg_part list"

definition is_user :: "with_parts \<Rightarrow> bool" where
  "is_user m = (case mdata (wp_info m) of UserData _ \<Rightarrow> True | AssistantData _ \<Rightarrow> False)"

abbreviation msg_id :: "with_parts \<Rightarrow> jstring" where
  "msg_id m \<equiv> mid (wp_info m)"

fun is_compaction :: "msg_part \<Rightarrow> bool" where
  "is_compaction p = (case pdata p of CompactionData _ \<Rightarrow> True | _ \<Rightarrow> False)"

definition created :: "info_data \<Rightarrow> int" where
  "created d = (case d of UserData u \<Rightarrow> u_created u | AssistantData a \<Rightarrow> a_created a)"

text \<open>A string field counts as set if it is there and not empty, a flag if it is there and true.\<close>

definition truthy :: "jstring option \<Rightarrow> bool" where
  "truthy s \<longleftrightarrow> s \<noteq> None \<and> s \<noteq> Some []"

definition isPdfAttachment :: "jstring \<Rightarrow> bool" where
  "isPdfAttachment mime \<longleftrightarrow> mime = js ''application/pdf''"

definition isMedia :: "jstring \<Rightarrow> bool" where
  "isMedia mime \<longleftrightarrow> startsWith mime (js ''image/'') \<or> isPdfAttachment mime"

section \<open>Parts as the estimate sees them\<close>

fun state_view :: "part_state \<Rightarrow> est_tool_state" where
  "state_view (SPending inp raw) =
     \<lparr>ts_status = js ''pending'', ts_compacted = None, ts_output = None, ts_error = None, ts_raw = Some raw\<rparr>"
| "state_view (SRunning inp title meta start) =
     \<lparr>ts_status = js ''running'', ts_compacted = None, ts_output = None, ts_error = None, ts_raw = None\<rparr>"
| "state_view (SCompleted c) =
     \<lparr>ts_status = js ''completed'', ts_compacted = map_option (\<lambda>n. nat \<bar>n\<bar>) (c_compacted c), ts_output = Some (c_output c),
      ts_error = None, ts_raw = None\<rparr>"
| "state_view (SError e) =
     \<lparr>ts_status = js ''error'', ts_compacted = None, ts_output = None, ts_error = Some (er_error e), ts_raw = None\<rparr>"

fun est_view :: "part_data \<Rightarrow> est_part" where
  "est_view (TextData t) = EText (Some (tx_text t))"
| "est_view (ReasoningData t _ _) = EReasoning (Some t)"
| "est_view (ToolData t) = ETool (Some (state_view (tl_state t)))"
| "est_view (FileData f) = EFile (Some (f_url f))"
| "est_view (SubtaskData s) = ESubtask (Some (sb_prompt s)) (Some (sb_description s))"
| "est_view (ReviewData _ s _) = EReview (Some s)"
| "est_view _ = EOther"

section \<open>Secrets in tool output\<close>

text \<open>
  A pattern is a test on what precedes a position, read backwards, and the length of the match at
  the position; \<open>replace\<close> with the global flag. Case folding without the flag \<open>u\<close> relates ASCII
  letters to ASCII letters only. The repetitions in the tests are followed by characters they do not
  contain, so the greedy match decides.
\<close>

definition lower_ascii :: "nat \<Rightarrow> nat" where
  "lower_ascii c = (if 65 \<le> c \<and> c \<le> 90 then c + 32 else c)"

definition alnum :: "nat \<Rightarrow> bool" where
  "alnum c \<longleftrightarrow> is_digit c \<or> (65 \<le> c \<and> c \<le> 90) \<or> (97 \<le> c \<and> c \<le> 122)"

definition after_word :: "jstring \<Rightarrow> jstring \<Rightarrow> bool" where
  "after_word w back \<longleftrightarrow> map lower_ascii (take (length w) back) = rev w"

text \<open>\<open>(?<=WORD\s*[:=]\s*)\<close>, for the words on a list of spellings.\<close>

definition after_assign :: "jstring list \<Rightarrow> jstring \<Rightarrow> bool" where
  "after_assign ws back =
     (case dropWhile is_space back of
        c # back' \<Rightarrow> (c = 58 \<or> c = 61) \<and> list_ex (\<lambda>w. after_word w (dropWhile is_space back')) ws
      | [] \<Rightarrow> False)"

definition after_bearer :: "jstring \<Rightarrow> bool" where
  "after_bearer back \<longleftrightarrow>
     takeWhile is_space back \<noteq> [] \<and> after_word (js ''bearer'') (dropWhile is_space back)"

definition run_length :: "(nat \<Rightarrow> bool) \<Rightarrow> jstring \<Rightarrow> nat" where
  "run_length P s = length (takeWhile P s)"

definition bearer_char :: "nat \<Rightarrow> bool" where
  "bearer_char c \<longleftrightarrow> alnum c \<or> c \<in> {45, 46, 95, 126, 43, 47}"

definition bearer_match :: "jstring \<Rightarrow> nat" where
  "bearer_match s =
     (let n = run_length bearer_char s in if n = 0 then 0 else n + run_length (\<lambda>c. c = 61) (drop n s))"

definition sk_match :: "jstring \<Rightarrow> nat" where
  "sk_match s =
     (if startsWith s (js ''sk-'') \<and> 20 \<le> run_length alnum (drop 3 s) then 3 + run_length alnum (drop 3 s) else 0)"

definition akia_match :: "jstring \<Rightarrow> nat" where
  "akia_match s =
     (if startsWith s (js ''AKIA'') \<and> length s \<ge> 20 \<and>
         list_all (\<lambda>c. is_digit c \<or> (65 \<le> c \<and> c \<le> 90)) (take 16 (drop 4 s)) then 20 else 0)"

definition hex_digit :: "nat \<Rightarrow> bool" where
  "hex_digit c \<longleftrightarrow> is_digit c \<or> (65 \<le> c \<and> c \<le> 70) \<or> (97 \<le> c \<and> c \<le> 102)"

text \<open>\<open>None\<close> is the hyphen, \<open>Some ()\<close> a hexadecimal digit.\<close>

definition uuid_shape :: "unit option list" where
  "uuid_shape = replicate 8 (Some ()) @ [None] @ replicate 4 (Some ()) @ [None] @ replicate 4 (Some ()) @ [None] @
     replicate 4 (Some ()) @ [None] @ replicate 12 (Some ())"

definition uuid_match :: "jstring \<Rightarrow> nat" where
  "uuid_match s =
     (if 36 \<le> length s \<and> list_all2 (\<lambda>c x. case x of None \<Rightarrow> c = 45 | Some _ \<Rightarrow> hex_digit c) (take 36 s) uuid_shape
      then 36 else 0)"

definition SECRET_PATTERNS :: "((jstring \<Rightarrow> bool) \<times> (jstring \<Rightarrow> nat)) list" where
  "SECRET_PATTERNS =
     [(after_assign [js ''api_key'', js ''api-key'', js ''apikey''], run_length (\<lambda>c. \<not> is_space c)),
      (after_assign [js ''token''], run_length (\<lambda>c. \<not> is_space c)),
      (after_assign [js ''secret''], run_length (\<lambda>c. \<not> is_space c)),
      (after_assign [js ''password''], run_length (\<lambda>c. \<not> is_space c)),
      (after_bearer, bearer_match),
      (\<lambda>_. True, sk_match),
      (\<lambda>_. True, akia_match),
      (\<lambda>_. True, uuid_match)]"

definition stars :: jstring where "stars = [42, 42, 42]"

function replace_pattern :: "(jstring \<Rightarrow> bool) \<times> (jstring \<Rightarrow> nat) \<Rightarrow> jstring \<Rightarrow> jstring \<Rightarrow> jstring" where
  "replace_pattern pat back [] = []"
| "replace_pattern pat back (c # s) =
     (let n = snd pat (c # s)
      in if fst pat back \<and> 0 < n then stars @ replace_pattern pat (rev (take n (c # s)) @ back) (drop n (c # s))
         else c # replace_pattern pat (c # back) s)"
  by pat_completeness auto
termination by (relation "measure (\<lambda>(pat, back, s). length s)") auto

definition redactSecrets :: "jstring \<Rightarrow> jstring" where
  "redactSecrets txt = foldl (\<lambda>r pat. replace_pattern pat [] r) txt SECRET_PATTERNS"

definition truncateToolOutput :: "jstring \<Rightarrow> nat option \<Rightarrow> jstring" where
  "truncateToolOutput txt maxChars =
     (let redacted = redactSecrets txt
      in case maxChars of
           None \<Rightarrow> redacted
         | Some n \<Rightarrow>
             if n = 0 \<or> length redacted \<le> n then redacted
             else take n redacted @ [newline] @ js ''[Tool output truncated for compaction: omitted '' @
                  num_str (int (length redacted - n)) @ js '' chars]'')"

section \<open>The messages for a model\<close>

datatype ui_output = OText jstring | OContent jstring "file_fields list"

datatype tool_result = OutputAvailable ui_output | OutputError jstring

record tool_call =
  tc_tool :: jstring
  tc_callID :: jstring
  tc_input :: jobj
  tc_result :: tool_result
  tc_executed :: bool
  tc_meta :: "jobj option"

datatype ui_part =
    UText jstring "jobj option"
  | UStepStart
  | UFile jstring jstring "jstring option"
  | UTool tool_call

record ui_message =
  ui_id :: jstring
  ui_user :: bool
  ui_parts :: "ui_part list"

datatype model_output = MText jstring | MContent jstring "(jstring \<times> jstring) list"

definition toModelOutput :: "ui_output \<Rightarrow> model_output" where
  "toModelOutput out =
     (case out of
        OText t \<Rightarrow> MText t
      | OContent t atts \<Rightarrow>
          MContent t
            (map (\<lambda>a. (f_mime a, drop 1 (dropWhile (\<lambda>c. c \<noteq> 44) (f_url a))))
              (filter (\<lambda>a. startsWith (f_url a) (js ''data:'') \<and> 44 \<in> set (f_url a)) atts)))"

record conv_options =
  stripMedia :: bool
  toolOutputMaxChars :: "nat option"

text \<open>The target model; \<open>npm\<close> is the package of its provider.\<close>

record conv_model =
  cm_provider :: jstring
  cm_id :: jstring
  cm_npm :: jstring

definition providerMeta :: "jobj option \<Rightarrow> jobj option" where
  "providerMeta metadata =
     (case metadata of
        None \<Rightarrow> None
      | Some kvs \<Rightarrow> let rest = filter (\<lambda>kv. fst kv \<noteq> js ''providerExecuted'') kvs in if rest = [] then None else Some rest)"

definition attached :: "file_fields \<Rightarrow> jstring" where
  "attached f = js ''[Attached '' @ f_mime f @ js '': '' @ (case f_filename f of Some n \<Rightarrow> n | None \<Rightarrow> js ''file'') @ js '']''"

fun user_part :: "conv_options \<Rightarrow> part_data \<Rightarrow> ui_part list" where
  "user_part opts (TextData t) = (if tx_ignored t = Some True then [] else [UText (tx_text t) None])"
| "user_part opts (FileData f) =
     (if f_mime f = js ''text/plain'' \<or> f_mime f = js ''application/x-directory'' then []
      else if stripMedia opts \<and> isMedia (f_mime f) then [UText (attached f) None]
      else [UFile (f_url f) (f_mime f) (f_filename f)])"
| "user_part opts (CompactionData _) = [UText (js ''What did we do so far?'') None]"
| "user_part opts (SubtaskData _) = [UText (js ''The following tool was executed by the user'') None]"
| "user_part opts _ = []"

definition compacted :: "completed_state \<Rightarrow> bool" where
  "compacted c \<longleftrightarrow> c_compacted c \<noteq> None \<and> c_compacted c \<noteq> Some 0"

definition outputText :: "conv_options \<Rightarrow> completed_state \<Rightarrow> jstring" where
  "outputText opts c =
     (if compacted c then js ''[Old tool result content cleared]''
      else truncateToolOutput (c_output c) (toolOutputMaxChars opts))"

definition interrupted_text :: jstring where
  "interrupted_text = js ''[Tool execution was interrupted]''"

fun state_input :: "part_state \<Rightarrow> jobj" where
  "state_input (SPending i _) = i"
| "state_input (SRunning i _ _ _) = i"
| "state_input (SCompleted c) = c_input c"
| "state_input (SError e) = er_input e"

definition is_completed :: "part_state \<Rightarrow> bool" where
  "is_completed s = (case s of SCompleted _ \<Rightarrow> True | _ \<Rightarrow> False)"

text \<open>The parts of an interrupted answer.\<close>

fun abort_part :: "conv_options \<Rightarrow> bool \<Rightarrow> part_data \<Rightarrow> ui_part list" where
  "abort_part opts differentModel (TextData t) =
     (if tx_synthetic t = Some True then [] else [UText (tx_text t) (if differentModel then None else tx_metadata t)])"
| "abort_part opts differentModel (ToolData t) =
     (let call = (\<lambda>r. UTool \<lparr>tc_tool = tl_tool t, tc_callID = tl_callID t, tc_input = state_input (tl_state t), tc_result = r,
                             tc_executed = False, tc_meta = (if differentModel then None else providerMeta (tl_metadata t))\<rparr>)
      in case tl_state t of
           SCompleted c \<Rightarrow> [call (OutputAvailable (OText (outputText opts c)))]
         | SPending _ _ \<Rightarrow> [call (OutputError interrupted_text)]
         | SRunning _ _ _ _ \<Rightarrow> [call (OutputError interrupted_text)]
         | SError _ \<Rightarrow> [])"
| "abort_part opts differentModel _ = []"

fun json_truthy :: "json \<Rightarrow> bool" where
  "json_truthy JNull = False"
| "json_truthy (JBool b) = b"
| "json_truthy (JNum n) = (n \<noteq> 0)"
| "json_truthy (JStr s) = (s \<noteq> [])"
| "json_truthy _ = True"

definition meta_field :: "jstring \<Rightarrow> jobj option \<Rightarrow> json option" where
  "meta_field k m = (case m of Some kvs \<Rightarrow> map_of kvs k | None \<Rightarrow> None)"

definition tool_attachments :: "conv_options \<Rightarrow> completed_state \<Rightarrow> file_fields list" where
  "tool_attachments opts c =
     (if compacted c \<or> stripMedia opts then [] else case c_attachments c of Some as \<Rightarrow> as | None \<Rightarrow> [])"

definition tool_outcome :: "conv_options \<Rightarrow> bool \<Rightarrow> part_state \<Rightarrow> tool_result" where
  "tool_outcome opts supportsMedia st =
     (case st of
        SCompleted c \<Rightarrow>
          (let attachments = tool_attachments opts c;
               final = (if supportsMedia then attachments else filter (\<lambda>a. \<not> isMedia (f_mime a)) attachments)
           in OutputAvailable (if final \<noteq> [] then OContent (outputText opts c) final else OText (outputText opts c)))
      | SError e \<Rightarrow>
          (case (if meta_field (js ''interrupted'') (er_metadata e) = Some (JBool True)
                 then meta_field (js ''output'') (er_metadata e) else None) of
             Some (JStr s) \<Rightarrow> OutputAvailable (OText s)
           | _ \<Rightarrow> OutputError (er_error e))
      | SPending _ _ \<Rightarrow> OutputError interrupted_text
      | SRunning _ _ _ _ \<Rightarrow> OutputError interrupted_text)"

text \<open>The media a tool result is sent without, to follow in a message of its own.\<close>

definition tool_media :: "conv_options \<Rightarrow> bool \<Rightarrow> part_data \<Rightarrow> file_fields list" where
  "tool_media opts supportsMedia d =
     (case d of
        ToolData t \<Rightarrow>
          (case tl_state t of
             SCompleted c \<Rightarrow>
               if supportsMedia then [] else filter (\<lambda>a. isMedia (f_mime a)) (tool_attachments opts c)
           | _ \<Rightarrow> [])
      | _ \<Rightarrow> [])"

fun assistant_part :: "conv_options \<Rightarrow> bool \<Rightarrow> bool \<Rightarrow> part_data \<Rightarrow> ui_part list" where
  "assistant_part opts supportsMedia differentModel (TextData t) =
     [UText (tx_text t) (if differentModel then None else tx_metadata t)]"
| "assistant_part opts supportsMedia differentModel (StepStartData _) = [UStepStart]"
| "assistant_part opts supportsMedia differentModel (ToolData t) =
     [UTool \<lparr>tc_tool = tl_tool t, tc_callID = tl_callID t, tc_input = state_input (tl_state t),
             tc_result = tool_outcome opts supportsMedia (tl_state t),
             tc_executed = (case meta_field (js ''providerExecuted'') (tl_metadata t) of Some v \<Rightarrow> json_truthy v | None \<Rightarrow> False),
             tc_meta = (if differentModel then None else providerMeta (tl_metadata t))\<rparr>]"
| "assistant_part opts supportsMedia differentModel _ = []"

definition isAbort :: "assistant_fields \<Rightarrow> bool" where
  "isAbort a = (case a_error a of Some e \<Rightarrow> ne_name e = js ''MessageAbortedError'' | None \<Rightarrow> False)"

definition hasCompletedParts :: "msg_part list \<Rightarrow> bool" where
  "hasCompletedParts ps =
     list_ex (\<lambda>p. case pdata p of
        TextData t \<Rightarrow> tx_synthetic t \<noteq> Some True
      | ToolData t \<Rightarrow> is_completed (tl_state t)
      | _ \<Rightarrow> False) ps"

definition interrupted_note :: jstring where
  "interrupted_note = js ''[The user interrupted this response. Do NOT continue the interrupted task unless the user explicitly asks you to continue.]''"

definition gist_messages :: "jstring \<Rightarrow> msg_part list \<Rightarrow> ui_message list" where
  "gist_messages i ps =
     concat (map (\<lambda>p. case pdata p of
        TextData t \<Rightarrow>
          if tx_synthetic t = Some True \<and> tx_ignored t \<noteq> Some True
          then [\<lparr>ui_id = i @ js ''-gist'', ui_user = True, ui_parts = [UText (tx_text t) None]\<rparr>] else []
      | _ \<Rightarrow> []) ps)"

definition SYNTHETIC_ATTACHMENT_PROMPT :: jstring where
  "SYNTHETIC_ATTACHMENT_PROMPT = js ''Attached image(s) from tool result:''"

text \<open>
  One message of the history. \<open>gen n\<close> is the identifier the \<open>n\<close>th call of \<open>MessageID.ascending\<close>
  returns, the number \<open>n\<close> of calls so far is threaded through.
\<close>

definition convert_message ::
  "(nat \<Rightarrow> jstring) \<Rightarrow> conv_options \<Rightarrow> conv_model \<Rightarrow> with_parts \<Rightarrow> nat \<Rightarrow> ui_message list \<times> nat" where
  "convert_message gen opts model msg n =
     (let supportsMedia = (cm_npm model = js ''@ai-sdk/openai''); ps = map pdata (wp_parts msg)
      in if wp_parts msg = [] then ([], n)
         else case mdata (wp_info msg) of
           UserData u \<Rightarrow> ([\<lparr>ui_id = msg_id msg, ui_user = True, ui_parts = concat (map (user_part opts) ps)\<rparr>], n)
         | AssistantData a \<Rightarrow>
             (let differentModel = (cm_provider model @ js ''/'' @ cm_id model \<noteq> a_providerID a @ js ''/'' @ a_modelID a)
              in if isAbort a then
                   (if hasCompletedParts (wp_parts msg)
                    then [\<lparr>ui_id = msg_id msg, ui_user = False,
                           ui_parts = UText interrupted_note None # concat (map (abort_part opts differentModel) ps)\<rparr>]
                    else gist_messages (msg_id msg) (wp_parts msg), n)
                 else
                   (let parts = concat (map (assistant_part opts supportsMedia differentModel) ps);
                        media = concat (map (tool_media opts supportsMedia) ps)
                    in if parts = [] then ([], n)
                       else if media = [] then ([\<lparr>ui_id = msg_id msg, ui_user = False, ui_parts = parts\<rparr>], n)
                       else ([\<lparr>ui_id = msg_id msg, ui_user = False, ui_parts = parts\<rparr>,
                              \<lparr>ui_id = gen n, ui_user = True,
                               ui_parts = UText SYNTHETIC_ATTACHMENT_PROMPT None #
                                 map (\<lambda>a. UFile (f_url a) (f_mime a) None) media\<rparr>], Suc n))))"

fun convert_all ::
  "(nat \<Rightarrow> jstring) \<Rightarrow> conv_options \<Rightarrow> conv_model \<Rightarrow> with_parts list \<Rightarrow> nat \<Rightarrow> ui_message list" where
  "convert_all gen opts model [] n = []"
| "convert_all gen opts model (m # ms) n =
     (let (us, n') = convert_message gen opts model m n in us @ convert_all gen opts model ms n')"

text \<open>The names under which the result conversion is passed on, in order of first use.\<close>

definition tool_names :: "with_parts list \<Rightarrow> jstring list" where
  "tool_names ms =
     rev (remdups (rev (concat (map (\<lambda>m. case mdata (wp_info m) of
       UserData _ \<Rightarrow> []
     | AssistantData a \<Rightarrow>
         if isAbort a then []
         else concat (map (\<lambda>p. case pdata p of ToolData t \<Rightarrow> [tl_tool t] | _ \<Rightarrow> []) (wp_parts m))) ms))))"

definition toModelMessages ::
  "(ui_message list \<Rightarrow> (jstring \<times> (ui_output \<Rightarrow> model_output)) list \<Rightarrow> 'r) \<Rightarrow>
   (nat \<Rightarrow> jstring) \<Rightarrow> conv_options \<Rightarrow> conv_model \<Rightarrow> with_parts list \<Rightarrow> 'r" where
  "toModelMessages convertToModelMessages gen opts model input =
     convertToModelMessages
       (filter (\<lambda>m. list_ex (\<lambda>p. p \<noteq> UStepStart) (ui_parts m)) (convert_all gen opts model input 0))
       (map (\<lambda>n. (n, toModelOutput)) (tool_names input))"

section \<open>What a compaction leaves\<close>

text \<open>The messages come newest first.\<close>

fun find_compaction :: "msg_part list \<Rightarrow> compaction_fields option" where
  "find_compaction [] = None"
| "find_compaction (p # ps) = (case pdata p of CompactionData c \<Rightarrow> Some c | _ \<Rightarrow> find_compaction ps)"

definition completes :: "with_parts \<Rightarrow> jstring option" where
  "completes m = (case mdata (wp_info m) of
     AssistantData a \<Rightarrow> if a_summary a = Some True \<and> truthy (a_finish a) then Some (a_parentID a) else None
   | UserData _ \<Rightarrow> None)"

fun filter_loop :: "jstring option \<Rightarrow> jstring list \<Rightarrow> with_parts list \<Rightarrow> with_parts list" where
  "filter_loop retain completed [] = []"
| "filter_loop (Some r) completed (m # ms) = m # (if msg_id m = r then [] else filter_loop (Some r) completed ms)"
| "filter_loop None completed (m # ms) =
     m # (if is_user m \<and> msg_id m \<in> set completed then
            (case find_compaction (wp_parts m) of
               None \<Rightarrow> filter_loop None completed ms
             | Some c \<Rightarrow>
                 if \<not> truthy (cp_tail_start_id c) then []
                 else if cp_tail_start_id c = Some (msg_id m) then []
                 else filter_loop (cp_tail_start_id c) completed ms)
          else filter_loop None (case completes m of Some p \<Rightarrow> List.insert p completed | None \<Rightarrow> completed) ms)"

definition filterCompacted :: "with_parts list \<Rightarrow> with_parts list" where
  "filterCompacted msgs = rev (filter_loop None [] msgs)"

section \<open>Every tool call is answered\<close>

definition call_ids :: "ui_part list \<Rightarrow> jstring list" where
  "call_ids ps = concat (map (\<lambda>p. case p of UTool t \<Rightarrow> [tc_callID t] | _ \<Rightarrow> []) ps)"

abbreviation ui_calls :: "ui_message \<Rightarrow> jstring list" where
  "ui_calls m \<equiv> call_ids (ui_parts m)"

definition part_calls :: "(part_state \<Rightarrow> bool) \<Rightarrow> with_parts \<Rightarrow> jstring list" where
  "part_calls P m = concat (map (\<lambda>p. case pdata p of ToolData t \<Rightarrow> if P (tl_state t) then [tl_callID t] else [] | _ \<Rightarrow> []) (wp_parts m))"

definition is_failed :: "part_state \<Rightarrow> bool" where
  "is_failed s = (case s of SError _ \<Rightarrow> True | _ \<Rightarrow> False)"

text \<open>The calls of a history: all of a message, of an interrupted one those that did not fail.\<close>

definition answered_calls :: "with_parts \<Rightarrow> jstring list" where
  "answered_calls m =
     (case mdata (wp_info m) of
        UserData _ \<Rightarrow> []
      | AssistantData a \<Rightarrow>
          if isAbort a then (if hasCompletedParts (wp_parts m) then part_calls (\<lambda>s. \<not> is_failed s) m else [])
          else part_calls (\<lambda>_. True) m)"

lemma call_ids_simps [simp]:
  "call_ids [] = []"
  "call_ids (ps @ qs) = call_ids ps @ call_ids qs"
  "call_ids (UText t md # ps) = call_ids ps"
  "call_ids (UStepStart # ps) = call_ids ps"
  "call_ids (UFile u mime n # ps) = call_ids ps"
  "call_ids (UTool tc # ps) = tc_callID tc # call_ids ps"
  by (simp_all add: call_ids_def)

lemma user_part_calls: "call_ids (concat (map (user_part opts) ds)) = []"
proof (induction ds)
  case (Cons d ds)
  then show ?case by (cases d) auto
qed simp

lemma abort_part_calls:
  "call_ids (concat (map (abort_part opts dm) (map pdata (wp_parts m)))) = part_calls (\<lambda>s. \<not> is_failed s) m"
  unfolding part_calls_def
proof (induction "wp_parts m" arbitrary: m)
  case (Cons p ps)
  then show ?case
    using Cons(1)[of "m\<lparr>wp_parts := ps\<rparr>"]
    by (cases "pdata p") (auto simp: is_failed_def Let_def Cons(2)[symmetric] split: part_state.splits)
qed auto

lemma assistant_part_calls:
  "call_ids (concat (map (assistant_part opts sm dm) (map pdata (wp_parts m)))) = part_calls (\<lambda>_. True) m"
  unfolding part_calls_def
proof (induction "wp_parts m" arbitrary: m)
  case (Cons p ps)
  then show ?case
    using Cons(1)[of "m\<lparr>wp_parts := ps\<rparr>"] by (cases "pdata p") (auto simp: Cons(2)[symmetric])
qed auto

lemma gist_calls: "concat (map ui_calls (gist_messages i ps)) = []"
  unfolding gist_messages_def by (induction ps) (auto split: part_data.splits)

lemma media_calls: "call_ids (map (\<lambda>f. UFile (f_url f) (f_mime f) None) fs) = []"
  by (induction fs) auto

lemma convert_message_calls: "concat (map ui_calls (fst (convert_message gen opts model m n))) = answered_calls m"
proof (cases "wp_parts m = []")
  case True
  then show ?thesis by (auto simp: convert_message_def answered_calls_def part_calls_def split: info_data.splits)
next
  case parts: False
  show ?thesis
  proof (cases "mdata (wp_info m)")
    case (UserData u)
    then show ?thesis using parts user_part_calls
      by (simp add: convert_message_def answered_calls_def del: map_map concat_eq_Nil_conv)
  next
    case (AssistantData a)
    define sm dm where "sm = (cm_npm model = js ''@ai-sdk/openai'')"
      and "dm = (cm_provider model @ js ''/'' @ cm_id model \<noteq> a_providerID a @ js ''/'' @ a_modelID a)"
    obtain P where P: "concat (map (assistant_part opts sm dm) (map pdata (wp_parts m))) = P" by blast
    obtain M where M: "concat (map (tool_media opts sm) (map pdata (wp_parts m))) = M" by blast
    have calls: "part_calls (\<lambda>_. True) m = call_ids P" using assistant_part_calls P by metis
    show ?thesis
      unfolding convert_message_def Let_def sm_def[symmetric] AssistantData info_data.case answered_calls_def
        dm_def[symmetric] P M calls if_not_P[OF parts]
      using abort_part_calls[of opts dm m] gist_calls[of "msg_id m" "wp_parts m"]
      by (cases "isAbort a"; cases "hasCompletedParts (wp_parts m)") (simp_all add: media_calls del: map_map concat_eq_Nil_conv)
  qed
qed

lemma convert_all_calls: "concat (map ui_calls (convert_all gen opts model ms n)) = concat (map answered_calls ms)"
proof (induction ms arbitrary: n)
  case (Cons m ms)
  then show ?case using convert_message_calls[of gen opts model m n] by (simp add: split_beta)
qed simp

lemma step_only_no_calls: "\<not> list_ex (\<lambda>p. p \<noteq> UStepStart) (ui_parts m) \<Longrightarrow> ui_calls m = []"
  by (auto simp: call_ids_def list_ex_iff split: ui_part.splits)


section \<open>Media\<close>

fun media_part :: "ui_part \<Rightarrow> bool" where
  "media_part (UFile url mime name) = isMedia mime"
| "media_part (UTool t) = (case tc_result t of OutputAvailable (OContent _ fs) \<Rightarrow> list_ex (\<lambda>f. isMedia (f_mime f)) fs | _ \<Rightarrow> False)"
| "media_part _ = False"

lemma strip_user: "list_all (\<lambda>p. \<not> media_part p) (user_part (opts\<lparr>stripMedia := True\<rparr>) d)"
  by (cases d) auto

lemma strip_abort: "list_all (\<lambda>p. \<not> media_part p) (abort_part opts dm d)"
  by (cases d) (auto simp: Let_def split: part_state.splits)

lemma strip_attachments: "tool_attachments (opts\<lparr>stripMedia := True\<rparr>) c = []"
  by (simp add: tool_attachments_def)

lemma strip_assistant: "list_all (\<lambda>p. \<not> media_part p) (assistant_part (opts\<lparr>stripMedia := True\<rparr>) sm dm d)"
  by (cases d) (auto simp: tool_outcome_def strip_attachments split: part_state.splits option.splits json.splits)

lemma strip_media_none: "tool_media (opts\<lparr>stripMedia := True\<rparr>) sm d = []"
  by (cases d) (auto simp: tool_media_def strip_attachments split: part_state.splits)

lemma list_all_concat_map: "list_all P (concat (map f xs)) \<longleftrightarrow> list_all (\<lambda>x. list_all P (f x)) xs"
  by (induction xs) auto

lemma convert_message_strip:
  "list_all (\<lambda>u. list_all (\<lambda>p. \<not> media_part p) (ui_parts u)) (fst (convert_message gen (opts\<lparr>stripMedia := True\<rparr>) model m n))"
proof -
  have none: "concat (map (\<lambda>d. []) ds) = []" for ds :: "part_data list" by (induction ds) auto
  have gist: "list_all (\<lambda>u. list_all (\<lambda>p. \<not> media_part p) (ui_parts u)) (gist_messages i ps)" for i ps
    by (auto simp: gist_messages_def list_all_iff split: part_data.splits if_splits)
  show ?thesis
    using strip_user strip_abort strip_assistant
    by (auto simp: convert_message_def Let_def list_all_concat_map strip_media_none none gist list.pred_True split: info_data.splits)
qed

text \<open>
  With media stripped, as for the summary of a compaction, no image or document reaches the
  model: neither as a file, nor inside a tool result, nor in a message of its own.
\<close>

theorem strip_media_sound:
  "list_all (\<lambda>u. list_all (\<lambda>p. \<not> media_part p) (ui_parts u))
     (toModelMessages (\<lambda>us tools. us) gen (opts\<lparr>stripMedia := True\<rparr>) model ms)"
proof -
  have "list_all (\<lambda>u. list_all (\<lambda>p. \<not> media_part p) (ui_parts u)) (convert_all gen (opts\<lparr>stripMedia := True\<rparr>) model ms n)" for n
  proof (induction ms arbitrary: n)
    case (Cons m ms)
    then show ?case using convert_message_strip[of gen opts model m n] by (simp add: split_beta)
  qed simp
  then show ?thesis by (auto simp: toModelMessages_def list_all_iff)
qed

section \<open>Redaction\<close>

text \<open>
  A pattern without a test on what precedes it: the length of its match at the start of a text, 0
  for none. A match contains no star, depends on the matched text only, and stays one when more text
  follows. Replacing anything by stars then never creates a match.
\<close>

fun match_free :: "(jstring \<Rightarrow> nat) \<Rightarrow> jstring \<Rightarrow> bool" where
  "match_free mt [] \<longleftrightarrow> True"
| "match_free mt (c # s) \<longleftrightarrow> mt (c # s) = 0 \<and> match_free mt s"

locale secret_pattern =
  fixes mt :: "jstring \<Rightarrow> nat"
  assumes star_free: "0 < mt s \<Longrightarrow> 42 \<notin> set (take (mt s) s)"
    and within: "mt s \<le> length s"
    and local_match: "0 < mt s \<Longrightarrow> 0 < mt (take (mt s) s)"
    and extends: "0 < mt s \<Longrightarrow> 0 < mt (s @ t)"
begin

lemma free_drop: "match_free mt s \<Longrightarrow> match_free mt (drop n s)"
proof (induction s arbitrary: n)
  case (Cons c s)
  then show ?case by (cases n) auto
qed simp

lemma free_iff: "match_free mt s \<longleftrightarrow> (\<forall>n. mt (drop n s) = 0)"
proof
  assume f: "match_free mt s"
  show "\<forall>n. mt (drop n s) = 0"
  proof
    fix n
    have "match_free mt (drop n s)" using f by (rule free_drop)
    then show "mt (drop n s) = 0" using within[of "[]"] by (cases "drop n s") auto
  qed
next
  assume "\<forall>n. mt (drop n s) = 0"
  then show "match_free mt s"
  proof (induction s)
    case (Cons c s)
    show ?case using Cons.prems[rule_format, of 0] Cons.IH Cons.prems[rule_format, of "Suc _"] by simp
  qed simp
qed

lemma replaced_prefix: "prefix (takeWhile (\<lambda>c. c \<noteq> 42) (replace_pattern pat bk s)) s"
proof (induction pat bk s rule: replace_pattern.induct)
  case (2 pat bk c s)
  then show ?case by (auto simp: Let_def stars_def)
qed simp

lemma match_before_stars:
  assumes "0 < mt r" "prefix (takeWhile (\<lambda>c. c \<noteq> 42) r) s"
  shows "0 < mt s"
proof -
  have "takeWhile (\<lambda>c. c \<noteq> 42) (take (mt r) r @ drop (mt r) r) =
      take (mt r) r @ takeWhile (\<lambda>c. c \<noteq> 42) (drop (mt r) r)"
    using star_free[OF assms(1)] by (intro takeWhile_append2) auto
  then have "prefix (take (mt r) r) (takeWhile (\<lambda>c. c \<noteq> 42) r)" by (simp add: prefix_def)
  then have "prefix (take (mt r) r) s" using assms(2) by (rule prefix_order.trans)
  then obtain t where "s = take (mt r) r @ t" by (auto simp: prefix_def)
  then show ?thesis using extends[OF local_match[OF assms(1)], of t] by simp
qed

lemma no_new_match: "mt s = 0 \<Longrightarrow> mt (replace_pattern pat bk s) = 0"
  using match_before_stars[OF _ replaced_prefix[of pat bk s]] by fastforce

lemma starred: "mt (42 # s) = 0"
  using star_free[of "42 # s"] by (cases "mt (42 # s)") auto

lemma free_stars: "match_free mt s \<Longrightarrow> match_free mt (stars @ s)"
  by (simp add: stars_def starred)

text \<open>Replacing any pattern keeps a text free of matches.\<close>

lemma free_replace: "match_free mt s \<Longrightarrow> match_free mt (replace_pattern pat bk s)"
proof (induction pat bk s rule: replace_pattern.induct)
  case (2 pat bk c s)
  show ?case
  proof (cases "fst pat bk \<and> 0 < snd pat (c # s)")
    case True
    then have "match_free mt (replace_pattern pat (rev (take (snd pat (c # s)) (c # s)) @ bk) (drop (snd pat (c # s)) (c # s)))"
      using 2(1)[OF refl True] free_drop[OF 2(3)] by blast
    then show ?thesis using True free_stars by (simp add: Let_def)
  next
    case False
    have "mt (replace_pattern pat bk (c # s)) = 0" using 2(3) by (intro no_new_match) simp
    then show ?thesis using False 2(2)[OF refl False] 2(3) by (auto simp: Let_def)
  qed
qed simp

text \<open>Replacing the pattern itself leaves none.\<close>

lemma replaced_free: "match_free mt (replace_pattern (\<lambda>_. True, mt) bk s)"
proof (induction "(\<lambda>_::jstring. True, mt)" bk s rule: replace_pattern.induct)
  case (2 bk c s)
  show ?case
  proof (cases "0 < mt (c # s)")
    case True
    then show ?thesis using 2(1)[OF refl] free_stars by (simp add: Let_def)
  next
    case False
    then have "mt (replace_pattern (\<lambda>_. True, mt) bk (c # s)) = 0" by (intro no_new_match) simp
    then show ?thesis using False 2(2)[OF refl] by (simp add: Let_def)
  qed
qed simp

lemma free_take: "match_free mt s \<Longrightarrow> match_free mt (take n s)"
proof (induction s arbitrary: n)
  case (Cons c s)
  show ?case
  proof (cases n)
    case (Suc k)
    have "mt (c # take k s) = 0"
      using Cons.prems extends[of "c # take k s" "drop k s"] by (cases "mt (c # take k s)") auto
    then show ?thesis using Cons Suc by simp
  qed simp
qed simp

text \<open>Text behind a character that occurs in no match.\<close>

lemma free_append:
  assumes "match_free mt s" "match_free mt t" and sep: "\<And>r. 0 < mt r \<Longrightarrow> c \<notin> set (take (mt r) r)"
  shows "match_free mt (s @ c # t)"
  using assms(1)
proof (induction s)
  case Nil
  have "mt (c # t) = 0" using sep[of "c # t"] by (cases "mt (c # t)") auto
  then show ?case using assms(2) by simp
next
  case (Cons d s)
  have "mt (d # s @ c # t) = 0"
  proof (rule ccontr)
    let ?r = "d # s @ c # t"
    assume "mt ?r \<noteq> 0"
    then have m: "0 < mt ?r" by simp
    have le: "mt ?r \<le> length (d # s)"
    proof (rule ccontr)
      assume "\<not> mt ?r \<le> length (d # s)"
      then have "c \<in> set (take (mt ?r) ((d # s) @ c # t))" by (simp add: take_Cons')
      then show False using sep[OF m] by simp
    qed
    have "take (mt ?r) ?r = take (mt ?r) (d # s)" using le by (metis append_Cons take_append diff_is_0_eq take0 append_Nil2)
    then have "0 < mt (take (mt ?r) (d # s))" using local_match[OF m] by simp
    then have "0 < mt (take (mt ?r) (d # s) @ drop (mt ?r) (d # s))" by (rule extends)
    then show False using Cons.prems by simp
  qed
  then show ?case using Cons by simp
qed

end

lemma run_length_append: "run_length P s \<le> run_length P (s @ t)"
  unfolding run_length_def by (induction s) auto

lemma run_length_le: "run_length P s \<le> length s"
  unfolding run_length_def by (rule length_takeWhile_le)

lemma take_run_length: "list_all P (take (run_length P s) s)"
  unfolding run_length_def by (induction s) auto

interpretation sk: secret_pattern sk_match
proof
  fix s t :: jstring
  have form: "s = js ''sk-'' @ drop 3 s \<and> sk_match s = 3 + run_length alnum (drop 3 s) \<and> 20 \<le> run_length alnum (drop 3 s)"
    if "0 < sk_match s" for s
    using that by (auto simp: sk_match_def startsWith_prefix split: if_splits)
  show "sk_match s \<le> length s"
    using run_length_le[of alnum "drop 3 s"] by (auto simp: sk_match_def startsWith_def dest: arg_cong[where f = length])
  assume m: "0 < sk_match s"
  then obtain r where r: "s = js ''sk-'' @ r" "sk_match s = 3 + run_length alnum r" "20 \<le> run_length alnum r"
    using form by (metis append_eq_conv_conj)
  have k: "take (sk_match s) s = js ''sk-'' @ take (run_length alnum r) r" by (simp add: r(2)) (simp add: r(1))
  show "42 \<notin> set (take (sk_match s) s)"
    unfolding k using take_run_length[of alnum r] by (auto simp: js_def list_all_iff alnum_def is_digit_def)
  have "run_length alnum (take (run_length alnum r) r) = run_length alnum r"
    unfolding run_length_def by (simp add: takeWhile_eq_take[symmetric])
  then show "0 < sk_match (take (sk_match s) s)" unfolding k using r(3) by (simp add: sk_match_def startsWith_prefix)
  show "0 < sk_match (s @ t)"
    using r run_length_append[of alnum r t] by (simp add: sk_match_def startsWith_prefix)
qed

interpretation akia: secret_pattern akia_match
proof
  fix s t :: jstring
  show "akia_match s \<le> length s" by (simp add: akia_match_def)
  assume "0 < akia_match s"
  then have m: "akia_match s = 20" "startsWith s (js ''AKIA'')" "20 \<le> length s"
    "list_all (\<lambda>c. is_digit c \<or> (65 \<le> c \<and> c \<le> 90)) (take 16 (drop 4 s))"
    by (auto simp: akia_match_def split: if_splits)
  obtain r where r: "s = js ''AKIA'' @ r" using m(2) by (auto simp: startsWith_prefix)
  show "42 \<notin> set (take (akia_match s) s)"
    using m(4) unfolding m(1) unfolding r by (auto simp: js_def list_all_iff is_digit_def)
  show "0 < akia_match (take (akia_match s) s)"
    using m(3,4) unfolding m(1) unfolding r by (simp add: akia_match_def startsWith_prefix)
  show "0 < akia_match (s @ t)"
    using m(3,4) unfolding r by (simp add: akia_match_def startsWith_prefix)
qed

interpretation uuid: secret_pattern uuid_match
proof
  fix s t :: jstring
  show "uuid_match s \<le> length s" by (simp add: uuid_match_def)
  assume "0 < uuid_match s"
  then have m: "uuid_match s = 36" "36 \<le> length s"
    "list_all2 (\<lambda>c x. case x of None \<Rightarrow> c = 45 | Some _ \<Rightarrow> hex_digit c) (take 36 s) uuid_shape"
    by (auto simp: uuid_match_def split: if_splits)
  have "c \<noteq> 42" if "c \<in> set (take 36 s)" for c
    using m(3) that unfolding list_all2_conv_all_nth in_set_conv_nth
    by (force simp: hex_digit_def is_digit_def split: option.splits)
  then show "42 \<notin> set (take (uuid_match s) s)" unfolding m(1) by blast
  show "0 < uuid_match (take (uuid_match s) s)" unfolding m(1) using m(2,3) by (simp add: uuid_match_def)
  show "0 < uuid_match (s @ t)" using m(2,3) by (simp add: uuid_match_def)
qed

definition secret_free :: "jstring \<Rightarrow> bool" where
  "secret_free s \<longleftrightarrow> match_free sk_match s \<and> match_free akia_match s \<and> match_free uuid_match s"

lemma redactSecrets_free: "secret_free (redactSecrets txt)"
  unfolding secret_free_def redactSecrets_def SECRET_PATTERNS_def
  by (simp add: sk.replaced_free sk.free_replace akia.replaced_free akia.free_replace uuid.replaced_free)

text \<open>Matches of the patterns have no line break, and each has a hyphen or a \<open>K\<close>.\<close>

lemma sk_match_chars: "0 < sk_match r \<Longrightarrow> 10 \<notin> set (take (sk_match r) r) \<and> 45 \<in> set r"
proof -
  assume "0 < sk_match r"
  then obtain s where s: "r = js ''sk-'' @ s" "sk_match r = 3 + run_length alnum s"
    by (auto simp: sk_match_def startsWith_prefix split: if_splits)
  have "take (sk_match r) r = js ''sk-'' @ take (run_length alnum s) s" unfolding s(2) by (simp add: s(1))
  then show ?thesis
    using take_run_length[of alnum s] by (auto simp: s(1) js_def list_all_iff alnum_def is_digit_def)
qed

lemma akia_match_chars: "0 < akia_match r \<Longrightarrow> 10 \<notin> set (take (akia_match r) r) \<and> 75 \<in> set r"
proof -
  assume "0 < akia_match r"
  then obtain s where s: "r = js ''AKIA'' @ s" "akia_match r = 20"
    "list_all (\<lambda>c. is_digit c \<or> (65 \<le> c \<and> c \<le> 90)) (take 16 s)"
    by (auto simp: akia_match_def startsWith_prefix split: if_splits)
  show ?thesis using s(3) unfolding s(2) by (auto simp: s(1) js_def list_all_iff is_digit_def)
qed

lemma uuid_match_chars: "0 < uuid_match r \<Longrightarrow> 10 \<notin> set (take (uuid_match r) r) \<and> 45 \<in> set r"
proof -
  assume "0 < uuid_match r"
  then have m: "uuid_match r = 36" "36 \<le> length r"
    "list_all2 (\<lambda>c x. case x of None \<Rightarrow> c = 45 | Some _ \<Rightarrow> hex_digit c) (take 36 r) uuid_shape"
    by (auto simp: uuid_match_def split: if_splits)
  have "c \<noteq> 10" if "c \<in> set (take 36 r)" for c
    using m(3) that unfolding list_all2_conv_all_nth in_set_conv_nth
    by (force simp: hex_digit_def is_digit_def split: option.splits)
  moreover have "uuid_shape ! 8 = None" by (simp add: uuid_shape_def nth_append)
  then have "r ! 8 = 45" using m(2,3) unfolding list_all2_conv_all_nth by (force dest: spec[where x = 8])
  then have "45 \<in> set r" using m(2) nth_mem[of 8 r] by simp
  ultimately show ?thesis unfolding m(1) by blast
qed

lemma match_free_chars:
  "45 \<notin> set s \<Longrightarrow> 75 \<notin> set s \<Longrightarrow> secret_free s"
proof (induction s)
  case (Cons c s)
  then show ?case
    using sk_match_chars[of "c # s"] akia_match_chars[of "c # s"] uuid_match_chars[of "c # s"]
    unfolding secret_free_def by fastforce
qed (simp add: secret_free_def)

lemma secret_free_append: "secret_free s \<Longrightarrow> secret_free t \<Longrightarrow> secret_free (s @ newline # t)"
  unfolding secret_free_def
  by (meson akia.free_append akia_match_chars sk.free_append sk_match_chars uuid.free_append uuid_match_chars)

lemma decimal_chars: "c \<in> set (decimal n) \<Longrightarrow> 48 \<le> c \<and> c \<le> 57"
proof (induction n rule: decimal.induct)
  case (1 n)
  then show ?case by (auto simp: decimal.simps[of n] split: if_splits)
qed

lemma secret_free_take: "secret_free s \<Longrightarrow> secret_free (take n s)"
  by (simp add: secret_free_def sk.free_take akia.free_take uuid.free_take)

lemma truncateToolOutput_free: "secret_free (truncateToolOutput s n)"
proof -
  have "secret_free (js ''[Tool output truncated for compaction: omitted '' @ num_str (int k) @ js '' chars]'')" for k
    by (rule match_free_chars) (auto simp: js_def num_str_def dest: decimal_chars)
  then show ?thesis
    using redactSecrets_free[of s] secret_free_take[OF redactSecrets_free, of _ s] secret_free_append
    by (auto simp: truncateToolOutput_def Let_def simp del: of_nat_diff split: option.splits)
qed

fun result_text :: "tool_result \<Rightarrow> jstring" where
  "result_text (OutputAvailable (OText t)) = t"
| "result_text (OutputAvailable (OContent t _)) = t"
| "result_text (OutputError t) = t"

text \<open>
  C29. What the model gets as the output of a completed tool contains no OpenAI key, no AWS key
  identifier and no UUID, with and without a limit on its length, and whether or not it has been
  cleared.
\<close>

theorem completed_output_redacted:
  "secret_free (outputText opts c) \<and> secret_free (result_text (tool_outcome opts supportsMedia (SCompleted c)))"
proof -
  have "secret_free (js ''[Old tool result content cleared]'')"
    by (rule match_free_chars) (auto simp: js_def)
  then have "secret_free (outputText opts c)" by (simp add: outputText_def truncateToolOutput_free)
  then show ?thesis by (simp add: tool_outcome_def Let_def)
qed

text \<open>The output of an interrupted tool reaches the model as it is.\<close>

lemma interrupted_output_not_redacted:
  "result_text (tool_outcome opts supportsMedia (SError \<lparr>er_input = [], er_error = [],
     er_metadata = Some [(js ''interrupted'', JBool True), (js ''output'', JStr txt)], er_start = 0, er_end = 0\<rparr>)) = txt"
  by (simp add: tool_outcome_def meta_field_def)

section \<open>What is left is the end of the history\<close>

lemma filter_loop_prefix: "prefix (filter_loop retain completed ms) ms"
proof (induction retain completed ms rule: filter_loop.induct)
  case (3 completed m ms)
  then show ?case by (auto split: option.splits)
qed auto

lemma filterCompacted_suffix: "suffix (filterCompacted (rev h)) h"
  using filter_loop_prefix[of None "[]" "rev h"] by (simp add: filterCompacted_def suffix_to_prefix)

end
