(* ===== verification/Session_Store.thy ===== *)
theory Session_Store
  imports Message "HOL-Library.Product_Lexorder"
begin

text \<open>
  The storage of sessions, messages and parts: the tables of \<open>session/session.sql.ts\<close>, the
  projectors of \<open>session/projectors.ts\<close>, the ownership of rows (\<open>session/ownership.ts\<close>), the
  readers of \<open>session/message-v2.ts\<close> and the operations of \<open>session/session.ts\<close>.

  A table is its rows in order of insertion. SQLite contributes primary keys, foreign keys with
  \<open>on delete cascade\<close>, \<open>on conflict do update\<close> and ordered queries. \<open>SyncEvent.run\<close> (theory
  \<open>Sync\<close>) runs the projector of an event and publishes it; published events are a trace. The
  identifiers a run generates, the clock and the effect of the calls to the Rust process are
  arguments. Column \<open>time_updated\<close> of messages and parts is never read and left out.
\<close>

section \<open>Tables\<close>

record revert_info =
  rv_message :: jstring
  rv_part :: "jstring option"
  rv_snapshot :: "jstring option"
  rv_diff :: "jstring option"

record session_row =
  sw_id :: jstring
  sw_project :: jstring
  sw_workspace :: "jstring option"
  sw_parent :: "jstring option"
  sw_slug :: jstring
  sw_directory :: jstring
  sw_title :: jstring
  sw_version :: jstring
  sw_additions :: "int option"
  sw_deletions :: "int option"
  sw_files :: "int option"
  sw_diffs :: "json option"
  sw_revert :: "revert_info option"
  sw_permission :: "json option"
  sw_created :: int
  sw_updated :: int
  sw_compacting :: "int option"
  sw_archived :: "int option"

record msg_row =
  mw_id :: jstring
  mw_session :: jstring
  mw_created :: int
  mw_data :: info_data

record part_row =
  pw_id :: jstring
  pw_message :: jstring
  pw_session :: jstring
  pw_created :: int
  pw_data :: part_data

record diff_summary =
  ds_additions :: int
  ds_deletions :: int
  ds_files :: int
  ds_diffs :: "json option"

record session_info =
  si_id :: jstring
  si_slug :: jstring
  si_project :: jstring
  si_workspace :: "jstring option"
  si_directory :: jstring
  si_parent :: "jstring option"
  si_title :: jstring
  si_version :: jstring
  si_summary :: "diff_summary option"
  si_revert :: "revert_info option"
  si_permission :: "json option"
  si_created :: int
  si_updated :: int
  si_compacting :: "int option"
  si_archived :: "int option"

datatype store_event =
    SessionCreated session_info
  | SessionUpdated jstring
  | SessionDeleted jstring
  | MessageUpdated msg_info
  | MessageRemoved jstring jstring
  | PartUpdated msg_part int
  | PartRemoved jstring jstring jstring
  | SessionDiff jstring json
  | SessionCompacted jstring

record store =
  session_table :: "session_row list"
  message_table :: "msg_row list"
  part_table :: "part_row list"
  rustOwned :: "jstring list"
  bus_trace :: "store_event list"

datatype store_error =
    ForeignKeyFailed
  | PrimaryKeyFailed
  | SessionNotFound jstring
  | MessageNotFound jstring
  | UndefinedField

section \<open>Ownership\<close>

definition markRust :: "jstring \<Rightarrow> store \<Rightarrow> store" where
  "markRust s st = st\<lparr>rustOwned := List.insert s (rustOwned st)\<rparr>"

definition markTs :: "jstring \<Rightarrow> store \<Rightarrow> store" where
  "markTs s st = st\<lparr>rustOwned := removeAll s (rustOwned st)\<rparr>"

definition isRust :: "jstring \<Rightarrow> store \<Rightarrow> bool" where
  "isRust s st \<longleftrightarrow> s \<in> set (rustOwned st)"

section \<open>Sessions as rows\<close>

definition fromRow :: "session_row \<Rightarrow> session_info" where
  "fromRow row =
     \<lparr>si_id = sw_id row, si_slug = sw_slug row, si_project = sw_project row, si_workspace = sw_workspace row,
      si_directory = sw_directory row, si_parent = sw_parent row, si_title = sw_title row, si_version = sw_version row,
      si_summary =
        (if sw_additions row \<noteq> None \<or> sw_deletions row \<noteq> None \<or> sw_files row \<noteq> None
         then Some \<lparr>ds_additions = case_option 0 (\<lambda>n. n) (sw_additions row),
                    ds_deletions = case_option 0 (\<lambda>n. n) (sw_deletions row),
                    ds_files = case_option 0 (\<lambda>n. n) (sw_files row), ds_diffs = sw_diffs row\<rparr>
         else None),
      si_revert = sw_revert row, si_permission = sw_permission row, si_created = sw_created row,
      si_updated = sw_updated row, si_compacting = sw_compacting row, si_archived = sw_archived row\<rparr>"

definition toRow :: "session_info \<Rightarrow> session_row" where
  "toRow i =
     \<lparr>sw_id = si_id i, sw_project = si_project i, sw_workspace = si_workspace i, sw_parent = si_parent i,
      sw_slug = si_slug i, sw_directory = si_directory i, sw_title = si_title i, sw_version = si_version i,
      sw_additions = map_option ds_additions (si_summary i), sw_deletions = map_option ds_deletions (si_summary i),
      sw_files = map_option ds_files (si_summary i), sw_diffs = Option.bind (si_summary i) ds_diffs,
      sw_revert = si_revert i, sw_permission = si_permission i, sw_created = si_created i, sw_updated = si_updated i,
      sw_compacting = si_compacting i, sw_archived = si_archived i\<rparr>"

text \<open>
  A field of a partial update: not there, there with the value \<open>undefined\<close>, \<open>null\<close>, or a value.
  \<open>grab\<close> gives the column's new value, if it is to change. The fields are those the code updates.
\<close>

datatype 'a patch = Absent | Undefined | Null | Val 'a

record summary_patch =
  sp_additions :: int
  sp_deletions :: int
  sp_files :: int
  sp_diffs :: "json patch"

record time_patch =
  tp_updated :: "int patch"
  tp_archived :: "int patch"

record session_patch =
  pt_title :: "jstring patch"
  pt_permission :: "json patch"
  pt_summary :: "summary_patch patch"
  pt_revert :: "revert_info patch"
  pt_time :: "time_patch patch"

definition grab :: "'a patch \<Rightarrow> store_error + 'a option option" where
  "grab p = (case p of Absent \<Rightarrow> Inr None | Undefined \<Rightarrow> Inl UndefinedField | Null \<Rightarrow> Inr (Some None) | Val v \<Rightarrow> Inr (Some (Some v)))"

definition grab_in :: "'a patch \<Rightarrow> ('a \<Rightarrow> store_error + 'b option option) \<Rightarrow> store_error + 'b option option" where
  "grab_in p cb = (case p of Absent \<Rightarrow> Inr None | Undefined \<Rightarrow> Inl UndefinedField | Null \<Rightarrow> Inr (Some None) | Val v \<Rightarrow> cb v)"

record partial_row =
  pr_title :: "jstring option option"
  pr_additions :: "int option option"
  pr_deletions :: "int option option"
  pr_files :: "int option option"
  pr_diffs :: "json option option"
  pr_revert :: "revert_info option option"
  pr_permission :: "json option option"
  pr_updated :: "int option option"
  pr_archived :: "int option option"

definition toPartialRow :: "session_patch \<Rightarrow> store_error + partial_row" where
  "toPartialRow p =
     (case (grab (pt_title p), grab_in (pt_summary p) (\<lambda>v. Inr (Some (Some (sp_additions v)))),
            grab_in (pt_summary p) (\<lambda>v. Inr (Some (Some (sp_deletions v)))),
            grab_in (pt_summary p) (\<lambda>v. Inr (Some (Some (sp_files v)))), grab_in (pt_summary p) (\<lambda>v. grab (sp_diffs v)),
            grab (pt_revert p), grab (pt_permission p), grab_in (pt_time p) (\<lambda>v. grab (tp_updated v)),
            grab_in (pt_time p) (\<lambda>v. grab (tp_archived v))) of
        (Inr t, Inr a, Inr d, Inr f, Inr di, Inr r, Inr pe, Inr u, Inr ar) \<Rightarrow>
          Inr \<lparr>pr_title = t, pr_additions = a, pr_deletions = d, pr_files = f, pr_diffs = di, pr_revert = r,
               pr_permission = pe, pr_updated = u, pr_archived = ar\<rparr>
      | _ \<Rightarrow> Inl UndefinedField)"

definition change :: "'a option option \<Rightarrow> 'a option \<Rightarrow> 'a option" where
  "change c old = (case c of None \<Rightarrow> old | Some new \<Rightarrow> new)"

text \<open>\<open>update ... set\<close>; the time of the update is the clock's unless it is set.\<close>

definition set_columns :: "int \<Rightarrow> partial_row \<Rightarrow> session_row \<Rightarrow> session_row" where
  "set_columns now p row =
     row\<lparr>sw_title := (case pr_title p of Some (Some t) \<Rightarrow> t | _ \<Rightarrow> sw_title row),
         sw_additions := change (pr_additions p) (sw_additions row),
         sw_deletions := change (pr_deletions p) (sw_deletions row),
         sw_files := change (pr_files p) (sw_files row), sw_diffs := change (pr_diffs p) (sw_diffs row),
         sw_revert := change (pr_revert p) (sw_revert row), sw_permission := change (pr_permission p) (sw_permission row),
         sw_updated := (case pr_updated p of Some (Some t) \<Rightarrow> t | _ \<Rightarrow> now),
         sw_archived := change (pr_archived p) (sw_archived row)\<rparr>"

section \<open>Projectors\<close>

text \<open>\<open>insert ... on conflict do update set data\<close>; \<open>None\<close> if a foreign key fails.\<close>

definition upsert_message :: "msg_row \<Rightarrow> store \<Rightarrow> store option" where
  "upsert_message r st =
     (if mw_id r \<in> set (map mw_id (message_table st))
      then Some (st\<lparr>message_table := map (\<lambda>x. if mw_id x = mw_id r then x\<lparr>mw_data := mw_data r\<rparr> else x) (message_table st)\<rparr>)
      else if mw_session r \<in> set (map sw_id (session_table st))
      then Some (st\<lparr>message_table := message_table st @ [r]\<rparr>) else None)"

definition upsert_part :: "part_row \<Rightarrow> store \<Rightarrow> store option" where
  "upsert_part r st =
     (if pw_id r \<in> set (map pw_id (part_table st))
      then Some (st\<lparr>part_table := map (\<lambda>x. if pw_id x = pw_id r then x\<lparr>pw_data := pw_data r\<rparr> else x) (part_table st)\<rparr>)
      else if pw_message r \<in> set (map mw_id (message_table st))
      then Some (st\<lparr>part_table := part_table st @ [r]\<rparr>) else None)"

text \<open>Deleting rows, with the rows that refer to them.\<close>

definition delete_messages :: "(msg_row \<Rightarrow> bool) \<Rightarrow> store \<Rightarrow> store" where
  "delete_messages P st =
     st\<lparr>message_table := filter (\<lambda>r. \<not> P r) (message_table st),
        part_table := filter (\<lambda>p. pw_message p \<notin> set (map mw_id (filter P (message_table st)))) (part_table st)\<rparr>"

definition delete_sessions :: "(session_row \<Rightarrow> bool) \<Rightarrow> store \<Rightarrow> store" where
  "delete_sessions P st =
     (let gone = map sw_id (filter P (session_table st))
      in (delete_messages (\<lambda>r. mw_session r \<in> set gone) st)\<lparr>session_table := filter (\<lambda>r. \<not> P r) (session_table st)\<rparr>)"

definition msg_row_of :: "msg_info \<Rightarrow> msg_row" where
  "msg_row_of i = \<lparr>mw_id = mid i, mw_session = msession i, mw_created = created (mdata i), mw_data = mdata i\<rparr>"

definition part_row_of :: "int \<Rightarrow> msg_part \<Rightarrow> part_row" where
  "part_row_of now p = \<lparr>pw_id = pid p, pw_message = pmessage p, pw_session = psession p, pw_created = now, pw_data = pdata p\<rparr>"

definition project_created :: "session_info \<Rightarrow> store \<Rightarrow> store_error + store" where
  "project_created i st =
     (if si_id i \<in> set (map sw_id (session_table st)) then Inl PrimaryKeyFailed
      else Inr (st\<lparr>session_table := session_table st @ [toRow i]\<rparr>))"

definition project_updated :: "int \<Rightarrow> jstring \<Rightarrow> session_patch \<Rightarrow> store \<Rightarrow> store_error + store" where
  "project_updated now s p st =
     (case toPartialRow p of
        Inl e \<Rightarrow> Inl e
      | Inr pr \<Rightarrow>
          if s \<in> set (map sw_id (session_table st))
          then Inr (st\<lparr>session_table := map (\<lambda>r. if sw_id r = s then set_columns now pr r else r) (session_table st)\<rparr>)
          else Inl (SessionNotFound s))"

definition project_deleted :: "jstring \<Rightarrow> store \<Rightarrow> store" where
  "project_deleted s st = delete_sessions (\<lambda>r. sw_id r = s) st"

definition project_message :: "jstring \<Rightarrow> msg_info \<Rightarrow> store \<Rightarrow> store" where
  "project_message s i st =
     (if isRust s st then st
      else case upsert_message (msg_row_of i) st of Some st' \<Rightarrow> st' | None \<Rightarrow> st)"

definition project_message_removed :: "jstring \<Rightarrow> jstring \<Rightarrow> store \<Rightarrow> store" where
  "project_message_removed s m st = delete_messages (\<lambda>r. mw_id r = m \<and> mw_session r = s) st"

definition project_part_removed :: "jstring \<Rightarrow> jstring \<Rightarrow> store \<Rightarrow> store" where
  "project_part_removed s p st = st\<lparr>part_table := filter (\<lambda>r. \<not> (pw_id r = p \<and> pw_session r = s)) (part_table st)\<rparr>"

definition project_part :: "jstring \<Rightarrow> msg_part \<Rightarrow> int \<Rightarrow> store \<Rightarrow> store" where
  "project_part s p time st =
     (if isRust s st then st
      else case upsert_part (part_row_of time p) st of Some st' \<Rightarrow> st' | None \<Rightarrow> st)"

definition publish :: "store_event \<Rightarrow> store \<Rightarrow> store" where
  "publish e st = st\<lparr>bus_trace := bus_trace st @ [e]\<rparr>"

section \<open>Reading\<close>

definition info_of :: "msg_row \<Rightarrow> msg_info" where
  "info_of r = \<lparr>mid = mw_id r, msession = mw_session r, mdata = mw_data r\<rparr>"

definition part_of :: "part_row \<Rightarrow> msg_part" where
  "part_of r = \<lparr>pid = pw_id r, pmessage = pw_message r, psession = pw_session r, pdata = pw_data r\<rparr>"

definition parts :: "store \<Rightarrow> jstring \<Rightarrow> msg_part list" where
  "parts st m = map part_of (sort_key pw_id (filter (\<lambda>r. pw_message r = m) (part_table st)))"

definition hydrate :: "store \<Rightarrow> msg_row list \<Rightarrow> with_parts list" where
  "hydrate st rows = map (\<lambda>r. \<lparr>wp_info = info_of r, wp_parts = parts st (mw_id r)\<rparr>) rows"

abbreviation msg_key :: "msg_row \<Rightarrow> int \<times> jstring" where
  "msg_key r \<equiv> (mw_created r, mw_id r)"

text \<open>The messages of a session ordered by time and identifier, descending.\<close>

definition newest_first :: "store \<Rightarrow> jstring \<Rightarrow> msg_row list" where
  "newest_first st s = rev (sort_key msg_key (filter (\<lambda>r. mw_session r = s) (message_table st)))"

definition older :: "(int \<times> jstring) option \<Rightarrow> msg_row \<Rightarrow> bool" where
  "older before r =
     (case before of
        None \<Rightarrow> True
      | Some (t, i) \<Rightarrow> mw_created r < t \<or> (mw_created r = t \<and> mw_id r < i))"

text \<open>The cursor of a page is the key of its last row; its textual form is opaque.\<close>

definition page ::
  "store \<Rightarrow> jstring \<Rightarrow> nat \<Rightarrow> (int \<times> jstring) option \<Rightarrow> store_error + (with_parts list \<times> bool \<times> (int \<times> jstring) option)" where
  "page st s limit before =
     (let rows = take (limit + 1) (filter (older before) (newest_first st s))
      in if rows = [] then
           (if s \<in> set (map sw_id (session_table st)) then Inr ([], False, None) else Inl (SessionNotFound s))
         else
           (let more = length rows > limit; slice = (if more then take limit rows else rows)
            in Inr (rev (hydrate st slice), more,
                    if more \<and> slice \<noteq> [] then Some (msg_key (last slice)) else None)))"

definition STREAM_MAX_MESSAGES :: nat where "STREAM_MAX_MESSAGES = 10000"

definition page_size :: nat where "page_size = 50"

text \<open>The number of messages a page still has to choose from.\<close>

definition remaining :: "store \<Rightarrow> jstring \<Rightarrow> (int \<times> jstring) option \<Rightarrow> nat" where
  "remaining st s before = length (filter (older before) (newest_first st s))"

lemma older_trans: "older (Some (msg_key r)) x \<Longrightarrow> older before r \<Longrightarrow> older before x"
  by (auto simp: older_def split: option.splits prod.splits)

lemma page_cursor_decreases:
  assumes "page st s limit before = Inr (items, b, Some c)"
  shows "remaining st s (Some c) < remaining st s before"
proof -
  let ?rs = "filter (older before) (newest_first st s)"
  have nonempty: "take limit ?rs \<noteq> []" and c: "c = msg_key (last (take limit ?rs))"
    using assms by (auto simp: page_def Let_def min_def split: if_splits)
  define r where "r = last (take limit ?rs)"
  have r: "r \<in> set ?rs" unfolding r_def using nonempty by (meson in_set_takeD last_in_set)
  then have ob: "older before r" by simp
  have sub: "filter (older (Some c)) (newest_first st s) = filter (older (Some c)) ?rs"
    unfolding filter_filter c r_def[symmetric] using older_trans[OF _ ob] by (intro filter_cong) blast+
  have "\<not> older (Some c) r" unfolding c r_def[symmetric] older_def by simp
  then show ?thesis unfolding remaining_def sub using r by (meson length_filter_less)
qed

function stream_pages :: "store \<Rightarrow> jstring \<Rightarrow> (int \<times> jstring) option \<Rightarrow> store_error + with_parts list" where
  "stream_pages st s before =
     (case page st s page_size before of
        Inl e \<Rightarrow> Inl e
      | Inr (items, hasMore, cursor) \<Rightarrow>
          if items = [] then Inr []
          else if \<not> hasMore then Inr (rev items)
          else (case cursor of
                  None \<Rightarrow> Inr (rev items)
                | Some c \<Rightarrow>
                    (case stream_pages st s (Some c) of Inl e \<Rightarrow> Inl e | Inr ms \<Rightarrow> Inr (rev items @ ms))))"
  by pat_completeness auto
termination
  by (relation "measure (\<lambda>(st, s, before). remaining st s before)") (auto intro: page_cursor_decreases)

declare stream_pages.simps [simp del]

definition stream :: "store \<Rightarrow> jstring \<Rightarrow> store_error + with_parts list" where
  "stream st s =
     (if length (filter (\<lambda>r. mw_session r = s) (message_table st)) > STREAM_MAX_MESSAGES
      then stream_pages st s None else Inr (hydrate st (newest_first st s)))"

definition get_message :: "store \<Rightarrow> jstring \<Rightarrow> jstring \<Rightarrow> store_error + with_parts" where
  "get_message st s m =
     (case find (\<lambda>r. mw_id r = m \<and> mw_session r = s) (message_table st) of
        None \<Rightarrow> Inl (MessageNotFound m)
      | Some r \<Rightarrow> Inr \<lparr>wp_info = info_of r, wp_parts = parts st m\<rparr>)"

definition messages :: "store \<Rightarrow> jstring \<Rightarrow> nat option \<Rightarrow> store_error + with_parts list" where
  "messages st s limit =
     (case limit of
        Some n \<Rightarrow> if n \<noteq> 0 then (case page st s n None of Inl e \<Rightarrow> Inl e | Inr (items, _) \<Rightarrow> Inr items)
                   else (case stream st s of Inl e \<Rightarrow> Inl e | Inr ms \<Rightarrow> Inr (rev ms))
      | None \<Rightarrow> (case stream st s of Inl e \<Rightarrow> Inl e | Inr ms \<Rightarrow> Inr (rev ms)))"

definition findMessage :: "store \<Rightarrow> jstring \<Rightarrow> (with_parts \<Rightarrow> bool) \<Rightarrow> store_error + with_parts option" where
  "findMessage st s P = (case stream st s of Inl e \<Rightarrow> Inl e | Inr ms \<Rightarrow> Inr (find P ms))"

section \<open>Messages and parts\<close>

definition updateMessage :: "msg_info \<Rightarrow> store \<Rightarrow> store_error + store" where
  "updateMessage m st =
     (if isRust (msession m) st then
        (case (case mdata m of UserData _ \<Rightarrow> upsert_message (msg_row_of m) st | AssistantData _ \<Rightarrow> Some st) of
           None \<Rightarrow> Inl ForeignKeyFailed
         | Some st' \<Rightarrow> Inr (publish (MessageUpdated m) st'))
      else Inr (publish (MessageUpdated m) (project_message (msession m) m st)))"

definition parentIsUser :: "jstring \<Rightarrow> store \<Rightarrow> bool" where
  "parentIsUser m st =
     (case find (\<lambda>r. mw_id r = m) (message_table st) of
        Some r \<Rightarrow> (case mw_data r of UserData _ \<Rightarrow> True | AssistantData _ \<Rightarrow> False)
      | None \<Rightarrow> False)"

definition updatePart :: "int \<Rightarrow> msg_part \<Rightarrow> store \<Rightarrow> store_error + store" where
  "updatePart now p st =
     (if isRust (psession p) st then
        (case (if parentIsUser (pmessage p) st then upsert_part (part_row_of now p) st else Some st) of
           None \<Rightarrow> Inl ForeignKeyFailed
         | Some st' \<Rightarrow> Inr (publish (PartUpdated p now) st'))
      else Inr (publish (PartUpdated p now) (project_part (psession p) p now st)))"

definition getPart :: "store \<Rightarrow> jstring \<Rightarrow> jstring \<Rightarrow> jstring \<Rightarrow> msg_part option" where
  "getPart st s m p =
     map_option part_of (find (\<lambda>r. pw_session r = s \<and> pw_message r = m \<and> pw_id r = p) (part_table st))"

text \<open>\<open>sidecar\<close> is what the Rust process does when it is asked to delete the row, nothing if it fails or is not there.\<close>

definition removeMessage :: "(jstring \<Rightarrow> store \<Rightarrow> store) \<Rightarrow> jstring \<Rightarrow> jstring \<Rightarrow> store \<Rightarrow> store" where
  "removeMessage sidecar s m st =
     publish (MessageRemoved s m) (if isRust s st then sidecar m st else project_message_removed s m st)"

definition removePart :: "(jstring \<Rightarrow> store \<Rightarrow> store) \<Rightarrow> jstring \<Rightarrow> jstring \<Rightarrow> jstring \<Rightarrow> store \<Rightarrow> store" where
  "removePart sidecar s m p st =
     publish (PartRemoved s m p) (if isRust s st then sidecar p st else project_part_removed s p st)"

section \<open>Sessions\<close>

record session_env =
  se_now :: int
  se_id :: jstring
  se_slug :: jstring
  se_version :: jstring
  se_project :: jstring
  se_title :: "bool \<Rightarrow> jstring"
  se_workspaces :: bool

definition createNext ::
  "session_env \<Rightarrow> jstring \<Rightarrow> jstring option \<Rightarrow> jstring option \<Rightarrow> jstring option \<Rightarrow> json option \<Rightarrow> store \<Rightarrow>
   store_error + (session_info \<times> store)" where
  "createNext env dir workspaceID parentID title permission st =
     (let result = \<lparr>si_id = se_id env, si_slug = se_slug env, si_project = se_project env, si_workspace = workspaceID,
                    si_directory = dir, si_parent = parentID,
                    si_title = (case title of Some t \<Rightarrow> t | None \<Rightarrow> se_title env (truthy parentID)),
                    si_version = se_version env, si_summary = None, si_revert = None, si_permission = permission,
                    si_created = se_now env, si_updated = se_now env, si_compacting = None, si_archived = None\<rparr>
      in case project_created result st of
           Inl e \<Rightarrow> Inl e
         | Inr st' \<Rightarrow>
             (let st1 = publish (SessionCreated result) st'
              in Inr (result, if se_workspaces env then st1 else publish (SessionUpdated (si_id result)) st1)))"

definition get_session :: "store \<Rightarrow> jstring \<Rightarrow> store_error + session_info" where
  "get_session st s =
     (case find (\<lambda>r. sw_id r = s) (session_table st) of None \<Rightarrow> Inl (SessionNotFound s) | Some r \<Rightarrow> Inr (fromRow r))"

definition children :: "store \<Rightarrow> jstring \<Rightarrow> session_info list" where
  "children st s = map fromRow (filter (\<lambda>r. sw_parent r = Some s) (session_table st))"

definition patch_session :: "int \<Rightarrow> jstring \<Rightarrow> session_patch \<Rightarrow> store \<Rightarrow> store_error + store" where
  "patch_session now s p st =
     (case project_updated now s p st of Inl e \<Rightarrow> Inl e | Inr st' \<Rightarrow> Inr (publish (SessionUpdated s) st'))"

definition no_patch :: session_patch where
  "no_patch = \<lparr>pt_title = Absent, pt_permission = Absent, pt_summary = Absent, pt_revert = Absent, pt_time = Absent\<rparr>"

definition updated_at :: "int \<Rightarrow> time_patch patch" where
  "updated_at now = Val \<lparr>tp_updated = Val now, tp_archived = Absent\<rparr>"

definition touch :: "int \<Rightarrow> jstring \<Rightarrow> store \<Rightarrow> store_error + store" where
  "touch now s st = patch_session now s (no_patch\<lparr>pt_time := updated_at now\<rparr>) st"

definition setTitle :: "int \<Rightarrow> jstring \<Rightarrow> jstring \<Rightarrow> store \<Rightarrow> store_error + store" where
  "setTitle now s title st = patch_session now s (no_patch\<lparr>pt_title := Val title\<rparr>) st"

text \<open>An optional argument that is left out is a field with the value \<open>undefined\<close>.\<close>

definition optional :: "'a option \<Rightarrow> 'a patch" where
  "optional v = (case v of Some x \<Rightarrow> Val x | None \<Rightarrow> Undefined)"

definition setArchived :: "int \<Rightarrow> jstring \<Rightarrow> int option \<Rightarrow> store \<Rightarrow> store_error + store" where
  "setArchived now s time st =
     patch_session now s (no_patch\<lparr>pt_time := Val \<lparr>tp_updated = Absent, tp_archived = optional time\<rparr>\<rparr>) st"

definition setPermission :: "int \<Rightarrow> jstring \<Rightarrow> json \<Rightarrow> store \<Rightarrow> store_error + store" where
  "setPermission now s permission st =
     patch_session now s (no_patch\<lparr>pt_permission := Val permission, pt_time := updated_at now\<rparr>) st"

definition setRevert :: "int \<Rightarrow> jstring \<Rightarrow> revert_info option \<Rightarrow> summary_patch option \<Rightarrow> store \<Rightarrow> store_error + store" where
  "setRevert now s revert summary st =
     patch_session now s
       (no_patch\<lparr>pt_summary := optional summary, pt_time := updated_at now, pt_revert := optional revert\<rparr>) st"

definition clearRevert :: "int \<Rightarrow> jstring \<Rightarrow> store \<Rightarrow> store_error + store" where
  "clearRevert now s st = patch_session now s (no_patch\<lparr>pt_time := updated_at now, pt_revert := Null\<rparr>) st"

definition setSummary :: "int \<Rightarrow> jstring \<Rightarrow> summary_patch option \<Rightarrow> store \<Rightarrow> store_error + store" where
  "setSummary now s summary st =
     patch_session now s (no_patch\<lparr>pt_time := updated_at now, pt_summary := optional summary\<rparr>) st"

section \<open>Removing a session\<close>

text \<open>
  The recursive query: a level of the tree and the levels below it, deepest first. The fuel bounds
  the depth; without enough of it (\<open>None\<close>) the query does not end.
\<close>

fun descendants :: "nat \<Rightarrow> store \<Rightarrow> jstring list \<Rightarrow> jstring list option" where
  "descendants fuel st [] = Some []"
| "descendants 0 st (s # ss) = None"
| "descendants (Suc n) st (s # ss) =
     map_option (\<lambda>below. below @ s # ss)
       (descendants n st (concat (map (\<lambda>x. map sw_id (filter (\<lambda>r. sw_parent r = Some x) (session_table st))) (s # ss))))"

definition remove_one :: "bool \<Rightarrow> jstring list \<Rightarrow> jstring \<Rightarrow> store \<Rightarrow> store" where
  "remove_one hasInstance found s st =
     (if s \<in> set found then
        (let st' = project_deleted s st in if hasInstance then publish (SessionDeleted s) st' else st')
      else st)"

definition remove_session :: "bool \<Rightarrow> jstring \<Rightarrow> store \<Rightarrow> store option" where
  "remove_session hasInstance s st =
     (let start = map sw_id (filter (\<lambda>r. sw_id r = s) (session_table st))
      in map_option
           (\<lambda>ids. fold (remove_one hasInstance (map sw_id (filter (\<lambda>r. sw_id r \<in> set ids) (session_table st)))) ids st)
           (descendants (Suc (length (session_table st))) st start))"

section \<open>Forks\<close>

definition line_end :: "nat \<Rightarrow> bool" where "line_end c \<longleftrightarrow> c \<in> {10, 13, 8232, 8233}"

definition getForkedTitle :: "jstring \<Rightarrow> jstring" where
  "getForkedTitle title =
     (let new = title @ js '' (fork #1)''
      in case rev title of
           [] \<Rightarrow> new
         | c # r \<Rightarrow>
             (let ds = rev (takeWhile is_digit r); r' = dropWhile is_digit r; base = rev (drop 8 r')
              in if c = 41 \<and> ds \<noteq> [] \<and> take 8 r' = rev (js '' (fork #'') \<and> base \<noteq> [] \<and> list_all (\<lambda>x. \<not> line_end x) base
                 then base @ js '' (fork #'' @ num_str (parse_digits ds + 1) @ js '')'' else new))"

text \<open>The identifiers of the copies, by the number of the call that generates them.\<close>

record fork_ids =
  fk_message :: "nat \<Rightarrow> jstring"
  fk_part :: "nat \<Rightarrow> jstring"

definition clone_info :: "jstring \<Rightarrow> jstring \<Rightarrow> (jstring \<times> jstring) list \<Rightarrow> msg_info \<Rightarrow> msg_info" where
  "clone_info s newID idMap i =
     \<lparr>mid = newID, msession = s,
      mdata = (case mdata i of
        UserData u \<Rightarrow> UserData u
      | AssistantData a \<Rightarrow>
          AssistantData (case (if a_parentID a \<noteq> [] then map_of idMap (a_parentID a) else None) of
            Some p \<Rightarrow> if p \<noteq> [] then a\<lparr>a_parentID := p\<rparr> else a
          | None \<Rightarrow> a))\<rparr>"

definition clone_part :: "jstring \<Rightarrow> jstring \<Rightarrow> jstring \<Rightarrow> msg_part \<Rightarrow> msg_part" where
  "clone_part s m i p = p\<lparr>pid := i, pmessage := m, psession := s\<rparr>"

text \<open>In a new session that Rust already owns the copies are written directly.\<close>

definition fork_message :: "msg_info \<Rightarrow> store \<Rightarrow> store_error + store" where
  "fork_message i st =
     (if isRust (msession i) st then
        (case upsert_message (msg_row_of i) st of
           None \<Rightarrow> Inl ForeignKeyFailed | Some st' \<Rightarrow> Inr (publish (MessageUpdated i) st'))
      else updateMessage i st)"

definition fork_part :: "int \<Rightarrow> msg_part \<Rightarrow> store \<Rightarrow> store_error + store" where
  "fork_part now p st =
     (if isRust (psession p) st then
        (case upsert_part (part_row_of now p) st of
           None \<Rightarrow> Inl ForeignKeyFailed | Some st' \<Rightarrow> Inr (publish (PartUpdated p now) st'))
      else updatePart now p st)"

fun fork_parts :: "int \<Rightarrow> (nat \<Rightarrow> jstring) \<Rightarrow> jstring \<Rightarrow> jstring \<Rightarrow> nat \<Rightarrow> msg_part list \<Rightarrow> store \<Rightarrow> store_error + store" where
  "fork_parts now gen s m k [] st = Inr st"
| "fork_parts now gen s m k (p # ps) st =
     (case fork_part now (clone_part s m (gen k) p) st of
        Inl e \<Rightarrow> Inl e | Inr st' \<Rightarrow> fork_parts now gen s m (Suc k) ps st')"

fun fork_loop ::
  "int \<Rightarrow> fork_ids \<Rightarrow> jstring \<Rightarrow> jstring option \<Rightarrow> nat \<Rightarrow> nat \<Rightarrow> (jstring \<times> jstring) list \<Rightarrow> with_parts list \<Rightarrow> store \<Rightarrow>
   store_error + store" where
  "fork_loop now gen s until n k idMap [] st = Inr st"
| "fork_loop now gen s until n k idMap (m # ms) st =
     (if truthy until \<and> the until \<le> msg_id m then Inr st
      else
        (let newID = fk_message gen n; idMap' = jmap_set (msg_id m) newID idMap
         in case fork_message (clone_info s newID idMap' (wp_info m)) st of
              Inl e \<Rightarrow> Inl e
            | Inr st1 \<Rightarrow>
                (case fork_parts now (fk_part gen) s newID k (wp_parts m) st1 of
                   Inl e \<Rightarrow> Inl e
                 | Inr st2 \<Rightarrow> fork_loop now gen s until (Suc n) (k + length (wp_parts m)) idMap' ms st2)))"

definition fork ::
  "session_env \<Rightarrow> fork_ids \<Rightarrow> jstring \<Rightarrow> jstring \<Rightarrow> jstring option \<Rightarrow> store \<Rightarrow> store_error + (session_info \<times> store)" where
  "fork env gen dir s until st =
     (case get_session st s of
        Inl e \<Rightarrow> Inl e
      | Inr original \<Rightarrow>
          (case createNext env dir (si_workspace original) (Some s) (Some (getForkedTitle (si_title original))) None st of
             Inl e \<Rightarrow> Inl e
           | Inr (session, st1) \<Rightarrow>
               (case messages st1 s None of
                  Inl e \<Rightarrow> Inl e
                | Inr msgs \<Rightarrow>
                    (case fork_loop (se_now env) gen (si_id session) until 0 0 [] msgs st1 of
                       Inl e \<Rightarrow> Inl e
                     | Inr st2 \<Rightarrow> Inr (session, st2)))))"

section \<open>Integrity\<close>

text \<open>Keys are unique, messages belong to sessions and parts to messages.\<close>

definition store_ok :: "store \<Rightarrow> bool" where
  "store_ok st \<longleftrightarrow>
     distinct (map sw_id (session_table st)) \<and> distinct (map mw_id (message_table st)) \<and>
     distinct (map pw_id (part_table st)) \<and>
     set (map mw_session (message_table st)) \<subseteq> set (map sw_id (session_table st)) \<and>
     set (map pw_message (part_table st)) \<subseteq> set (map mw_id (message_table st))"

lemma store_okI [inv_intros]:
  assumes "distinct (map sw_id (session_table st))" "distinct (map mw_id (message_table st))"
    "distinct (map pw_id (part_table st))"
    "set (map mw_session (message_table st)) \<subseteq> set (map sw_id (session_table st))"
    "set (map pw_message (part_table st)) \<subseteq> set (map mw_id (message_table st))"
  shows "store_ok st"
  using assms by (simp add: store_ok_def)

lemma publish_ok [simp]: "store_ok (publish e st) = store_ok st"
  by (simp add: store_ok_def publish_def)

lemma publish_tables [simp]:
  "session_table (publish e st) = session_table st" "message_table (publish e st) = message_table st"
  "part_table (publish e st) = part_table st" "rustOwned (publish e st) = rustOwned st"
  by (simp_all add: publish_def)

lemma map_if_upd: "(\<And>x. f (g x) = f x) \<Longrightarrow> map f (map (\<lambda>x. if P x then g x else x) xs) = map f xs"
  by (induction xs) auto

lemma upsert_message_cases [consumes 1, case_names update insert]:
  assumes "upsert_message r st = Some st'"
  obtains "mw_id r \<in> set (map mw_id (message_table st))"
      "st' = st\<lparr>message_table := map (\<lambda>x. if mw_id x = mw_id r then x\<lparr>mw_data := mw_data r\<rparr> else x) (message_table st)\<rparr>"
      "map mw_id (message_table st') = map mw_id (message_table st)"
      "map mw_session (message_table st') = map mw_session (message_table st)"
  | "mw_id r \<notin> set (map mw_id (message_table st))" "mw_session r \<in> set (map sw_id (session_table st))"
      "st' = st\<lparr>message_table := message_table st @ [r]\<rparr>"
proof (cases "mw_id r \<in> set (map mw_id (message_table st))")
  case True
  then have "st' = st\<lparr>message_table := map (\<lambda>x. if mw_id x = mw_id r then x\<lparr>mw_data := mw_data r\<rparr> else x) (message_table st)\<rparr>"
    using assms by (simp add: upsert_message_def)
  then show ?thesis
    using True map_if_upd[of mw_id "\<lambda>x. x\<lparr>mw_data := mw_data r\<rparr>"] map_if_upd[of mw_session "\<lambda>x. x\<lparr>mw_data := mw_data r\<rparr>"] by (intro that(1)) simp_all
next
  case False
  then show ?thesis using assms that(2) by (auto simp: upsert_message_def split: if_splits)
qed

lemma upsert_part_cases [consumes 1, case_names update insert]:
  assumes "upsert_part r st = Some st'"
  obtains "pw_id r \<in> set (map pw_id (part_table st))"
      "st' = st\<lparr>part_table := map (\<lambda>x. if pw_id x = pw_id r then x\<lparr>pw_data := pw_data r\<rparr> else x) (part_table st)\<rparr>"
      "map pw_id (part_table st') = map pw_id (part_table st)"
      "map pw_message (part_table st') = map pw_message (part_table st)"
  | "pw_id r \<notin> set (map pw_id (part_table st))" "pw_message r \<in> set (map mw_id (message_table st))"
      "st' = st\<lparr>part_table := part_table st @ [r]\<rparr>"
proof (cases "pw_id r \<in> set (map pw_id (part_table st))")
  case True
  then have "st' = st\<lparr>part_table := map (\<lambda>x. if pw_id x = pw_id r then x\<lparr>pw_data := pw_data r\<rparr> else x) (part_table st)\<rparr>"
    using assms by (simp add: upsert_part_def)
  then show ?thesis
    using True map_if_upd[of pw_id "\<lambda>x. x\<lparr>pw_data := pw_data r\<rparr>"] map_if_upd[of pw_message "\<lambda>x. x\<lparr>pw_data := pw_data r\<rparr>"] by (intro that(1)) simp_all
next
  case False
  then show ?thesis using assms that(2) by (auto simp: upsert_part_def split: if_splits)
qed

lemma upsert_message_ok [inv_intros]:
  assumes "upsert_message r st = Some st'" "store_ok st"
  shows "store_ok st'"
  using assms(1)
proof (cases rule: upsert_message_cases)
  case update
  have "session_table st' = session_table st" "part_table st' = part_table st" by (simp_all add: update(2))
  then show ?thesis using assms(2) unfolding store_ok_def update(3,4) by (simp only:)
next
  case insert
  then show ?thesis using assms(2) by (auto simp: store_ok_def)
qed

lemma upsert_part_ok [inv_intros]:
  assumes "upsert_part r st = Some st'" "store_ok st"
  shows "store_ok st'"
  using assms(1)
proof (cases rule: upsert_part_cases)
  case update
  have "session_table st' = session_table st" "message_table st' = message_table st" by (simp_all add: update(2))
  then show ?thesis using assms(2) unfolding store_ok_def update(3,4) by (simp only:)
next
  case insert
  then show ?thesis using assms(2) by (auto simp: store_ok_def)
qed

lemma distinct_map_filter': "distinct (map f xs) \<Longrightarrow> distinct (map f (filter P xs))"
  by (induction xs) auto

lemma delete_messages_ok [inv_intros]:
  assumes "store_ok st"
  shows "store_ok (delete_messages P st)"
proof (rule store_okI)
  show "set (map pw_message (part_table (delete_messages P st))) \<subseteq> set (map mw_id (message_table (delete_messages P st)))"
  proof
    fix m
    assume "m \<in> set (map pw_message (part_table (delete_messages P st)))"
    then have "m \<in> set (map mw_id (message_table st))" "m \<notin> set (map mw_id (filter P (message_table st)))"
      using assms by (auto simp: store_ok_def delete_messages_def)
    then show "m \<in> set (map mw_id (message_table (delete_messages P st)))" by (auto simp: delete_messages_def)
  qed
qed (use assms in \<open>auto simp: store_ok_def delete_messages_def distinct_map_filter'\<close>)

lemma delete_sessions_ok [inv_intros]:
  assumes "store_ok st"
  shows "store_ok (delete_sessions P st)"
proof -
  have "store_ok (delete_messages (\<lambda>r. mw_session r \<in> set (map sw_id (filter P (session_table st)))) st)"
    using assms by (rule delete_messages_ok)
  moreover have "set (map mw_session (filter (\<lambda>r. mw_session r \<notin> set (map sw_id (filter P (session_table st)))) (message_table st)))
      \<subseteq> set (map sw_id (filter (\<lambda>r. \<not> P r) (session_table st)))"
  proof
    fix s
    assume "s \<in> set (map mw_session (filter (\<lambda>r. mw_session r \<notin> set (map sw_id (filter P (session_table st)))) (message_table st)))"
    then have "s \<in> set (map sw_id (session_table st))" "s \<notin> set (map sw_id (filter P (session_table st)))"
      using assms by (auto simp: store_ok_def)
    then show "s \<in> set (map sw_id (filter (\<lambda>r. \<not> P r) (session_table st)))" by auto
  qed
  ultimately show ?thesis
    unfolding delete_sessions_def Let_def store_ok_def by (simp add: delete_messages_def distinct_map_filter')
qed

lemma project_message_ok [inv_intros]: "store_ok st \<Longrightarrow> store_ok (project_message s i st)"
  by (auto simp: project_message_def split: option.splits intro: inv_intros)

lemma project_part_ok [inv_intros]: "store_ok st \<Longrightarrow> store_ok (project_part s p t st)"
  by (auto simp: project_part_def split: option.splits intro: inv_intros)

lemma project_part_removed_ok [inv_intros]: "store_ok st \<Longrightarrow> store_ok (project_part_removed s p st)"
  by (auto simp: store_ok_def project_part_removed_def distinct_map_filter')

lemma project_message_removed_ok [inv_intros]: "store_ok st \<Longrightarrow> store_ok (project_message_removed s m st)"
  by (simp add: project_message_removed_def delete_messages_ok)

lemma project_deleted_ok [inv_intros]: "store_ok st \<Longrightarrow> store_ok (project_deleted s st)"
  by (simp add: project_deleted_def delete_sessions_ok)

lemma project_created_ok [inv_intros]: "project_created i st = Inr st' \<Longrightarrow> store_ok st \<Longrightarrow> store_ok st'"
proof -
  assume "project_created i st = Inr st'" "store_ok st"
  moreover have "sw_id (toRow i) = si_id i" by (simp add: toRow_def)
  ultimately show "store_ok st'"
    unfolding project_created_def store_ok_def by (cases "si_id i \<in> set (map sw_id (session_table st))") (auto simp: image_subset_iff)
qed

lemma project_updated_ok [inv_intros]:
  assumes "project_updated now s p st = Inr st'" "store_ok st"
  shows "store_ok st'"
proof -
  obtain pr where st': "st' = st\<lparr>session_table := map (\<lambda>r. if sw_id r = s then set_columns now pr r else r) (session_table st)\<rparr>"
    using assms(1) by (auto simp: project_updated_def split: sum.splits if_splits)
  have "map sw_id (session_table st') = map sw_id (session_table st)"
    using map_if_upd[of sw_id "set_columns now pr"] by (simp add: st' set_columns_def)
  moreover have "message_table st' = message_table st" "part_table st' = part_table st" by (simp_all add: st')
  ultimately show ?thesis using assms(2) unfolding store_ok_def by (simp only:)
qed

lemma updateMessage_ok [inv_intros]: "updateMessage m st = Inr st' \<Longrightarrow> store_ok st \<Longrightarrow> store_ok st'"
  by (auto simp: updateMessage_def split: if_splits option.splits info_data.splits intro: inv_intros)

lemma updatePart_ok [inv_intros]: "updatePart now p st = Inr st' \<Longrightarrow> store_ok st \<Longrightarrow> store_ok st'"
  by (auto simp: updatePart_def split: if_splits option.splits intro: inv_intros)

lemma createNext_ok [inv_intros]: "createNext env dir w p t pe st = Inr (i, st') \<Longrightarrow> store_ok st \<Longrightarrow> store_ok st'"
  by (auto simp: createNext_def Let_def split: sum.splits if_splits intro: inv_intros)

lemma patch_session_ok [inv_intros]: "patch_session now s p st = Inr st' \<Longrightarrow> store_ok st \<Longrightarrow> store_ok st'"
  by (auto simp: patch_session_def split: sum.splits intro: inv_intros)

lemma remove_one_ok [inv_intros]: "store_ok st \<Longrightarrow> store_ok (remove_one h found s st)"
  by (auto simp: remove_one_def Let_def intro: inv_intros)

lemma remove_session_ok [inv_intros]:
  assumes "remove_session h s st = Some st'" "store_ok st"
  shows "store_ok st'"
proof -
  have "store_ok (fold (remove_one h found) ids st)" if "store_ok st" for found ids st
    using that by (induction ids arbitrary: st) (auto intro: inv_intros)
  then show ?thesis using assms by (auto simp: remove_session_def Let_def)
qed

lemma fork_message_ok [inv_intros]: "fork_message i st = Inr st' \<Longrightarrow> store_ok st \<Longrightarrow> store_ok st'"
  by (auto simp: fork_message_def split: if_splits option.splits intro: inv_intros)

lemma fork_part_ok [inv_intros]: "fork_part now p st = Inr st' \<Longrightarrow> store_ok st \<Longrightarrow> store_ok st'"
  by (auto simp: fork_part_def split: if_splits option.splits intro: inv_intros)

lemma fork_parts_ok [inv_intros]: "fork_parts now gen s m k ps st = Inr st' \<Longrightarrow> store_ok st \<Longrightarrow> store_ok st'"
  by (induction ps arbitrary: k st) (auto split: sum.splits dest: fork_part_ok)

lemma fork_loop_ok [inv_intros]: "fork_loop now gen s until n k idMap ms st = Inr st' \<Longrightarrow> store_ok st \<Longrightarrow> store_ok st'"
proof (induction ms arbitrary: n k idMap st)
  case (Cons m ms)
  then show ?case
    by (auto simp: Let_def split: sum.splits if_splits dest: fork_message_ok fork_parts_ok)
qed simp

lemma fork_ok [inv_intros]: "fork env gen dir s until st = Inr (i, st') \<Longrightarrow> store_ok st \<Longrightarrow> store_ok st'"
  by (auto simp: fork_def split: sum.splits) (meson createNext_ok fork_loop_ok)

text \<open>Every operation that writes, by any caller, in any order; the Rust process keeps the keys intact.\<close>

inductive store_step :: "store \<Rightarrow> store \<Rightarrow> bool" where
  s_message: "updateMessage m st = Inr st' \<Longrightarrow> store_step st st'"
| s_part: "updatePart now p st = Inr st' \<Longrightarrow> store_step st st'"
| s_remove_message: "(\<And>st. store_ok st \<Longrightarrow> store_ok (sidecar m st)) \<Longrightarrow> store_step st (removeMessage sidecar s m st)"
| s_remove_part: "(\<And>st. store_ok st \<Longrightarrow> store_ok (sidecar p st)) \<Longrightarrow> store_step st (removePart sidecar s m p st)"
| s_create: "createNext env dir w par t pe st = Inr (i, st') \<Longrightarrow> store_step st st'"
| s_patch: "patch_session now s sp st = Inr st' \<Longrightarrow> store_step st st'"
| s_remove: "remove_session h s st = Some st' \<Longrightarrow> store_step st st'"
| s_fork: "fork env gen dir s until st = Inr (i, st') \<Longrightarrow> store_step st st'"
| s_rust: "store_step st (markRust s st)"
| s_ts: "store_step st (markTs s st)"

lemma owned_ok [simp]: "store_ok (st\<lparr>rustOwned := ss\<rparr>) = store_ok st"
  by (simp add: store_ok_def)

lemma store_step_ok: "store_step st st' \<Longrightarrow> store_ok st \<Longrightarrow> store_ok st'"
  by (induction rule: store_step.induct)
    (auto simp: removeMessage_def removePart_def markRust_def markTs_def intro: inv_intros)

definition empty_store :: store where
  "empty_store = \<lparr>session_table = [], message_table = [], part_table = [], rustOwned = [], bus_trace = []\<rparr>"

section \<open>Reading page by page\<close>

lemma sorted_desc:
  assumes "distinct (map mw_id (message_table st))"
  shows "sorted_wrt (\<lambda>a b. msg_key b < msg_key a) (newest_first st s)"
proof -
  let ?xs = "filter (\<lambda>r. mw_session r = s) (message_table st)"
  have "distinct (map mw_id ?xs)" using assms by (rule distinct_map_filter')
  then have d: "distinct (map msg_key (sort_key msg_key ?xs))" by (auto simp: distinct_map inj_on_def)
  have "sorted (map msg_key (sort_key msg_key ?xs))" by simp
  then have "sorted_wrt (<) (map msg_key (sort_key msg_key ?xs))" using d by (simp only: strict_sorted_iff)
  then show ?thesis unfolding newest_first_def sorted_wrt_rev sorted_wrt_map by simp
qed

lemma older_split:
  assumes "sorted_wrt (\<lambda>a b. msg_key b < msg_key a) xs" "n < length xs"
  shows "filter (older (Some (msg_key (xs ! n)))) xs = drop (Suc n) xs"
proof -
  have a: "older (Some (msg_key (xs ! n))) x \<longleftrightarrow> msg_key x < msg_key (xs ! n)" for x
    by (auto simp: older_def)
  have "filter (older (Some (msg_key (xs ! n)))) (take (Suc n) xs) = []"
  proof -
    have "\<not> msg_key (xs ! i) < msg_key (xs ! n)" if "i < Suc n" for i
      using sorted_wrt_nth_less[OF assms(1) _ assms(2), of i] that by (cases "i = n") (auto simp del: less_prod_simp)
    then show ?thesis using assms(2) by (auto simp: filter_empty_conv a in_set_conv_nth simp del: less_prod_simp)
  qed
  moreover have "filter (older (Some (msg_key (xs ! n)))) (drop (Suc n) xs) = drop (Suc n) xs"
  proof -
    have "msg_key (xs ! Suc (n + i)) < msg_key (xs ! n)" if "i < length xs - Suc n" for i
      using sorted_wrt_nth_less[OF assms(1), of n "Suc (n + i)"] that by simp
    then show ?thesis using assms(2) by (auto simp: filter_id_conv a in_set_conv_nth simp del: less_prod_simp)
  qed
  ultimately show ?thesis
    by (metis append_Nil append_take_drop_id filter_append)
qed

lemma hydrate_append: "hydrate st (xs @ ys) = hydrate st xs @ hydrate st ys"
  by (simp add: hydrate_def)

lemma hydrate_Nil_iff [simp]: "hydrate st xs = [] \<longleftrightarrow> xs = []"
  by (simp add: hydrate_def)

lemma stream_pages_eq:
  assumes sorted: "sorted_wrt (\<lambda>a b. msg_key b < msg_key a) (newest_first st s)"
    and "filter (older before) (newest_first st s) = drop k (newest_first st s)" "k < length (newest_first st s)"
  shows "stream_pages st s before = Inr (hydrate st (drop k (newest_first st s)))"
  using assms(2,3)
proof (induction "length (newest_first st s) - k" arbitrary: k before rule: less_induct)
  case less
  let ?L = "newest_first st s"
  show ?case
  proof (cases "length ?L - k > page_size")
    case False
    then have "page st s page_size before = Inr (rev (hydrate st (drop k ?L)), False, None)"
      using less.prems by (simp add: page_def page_size_def)
    then show ?thesis using less.prems(2) by (simp add: stream_pages.simps[of st s before])
  next
    case True
    let ?slice = "take page_size (drop k ?L)" and ?n = "k + (page_size - 1)"
    have n: "?n < length ?L" and suc: "Suc ?n = k + page_size" using True by (auto simp: page_size_def)
    have last: "last ?slice = ?L ! ?n"
      using True n by (simp add: last_conv_nth page_size_def)
    have ne: "?slice \<noteq> []" using True by (auto simp: page_size_def)
    have p: "page st s page_size before = Inr (rev (hydrate st ?slice), True, Some (msg_key (?L ! ?n)))"
      using less.prems True ne last unfolding page_def Let_def
      by (auto simp: min_def page_size_def)
    have "stream_pages st s (Some (msg_key (?L ! ?n))) = Inr (hydrate st (drop (k + page_size) ?L))"
      using True older_split[OF sorted n] unfolding suc by (intro less.hyps) (auto simp: page_size_def)
    moreover have "hydrate st ?slice @ hydrate st (drop (k + page_size) ?L) = hydrate st (drop k ?L)"
      unfolding hydrate_append[symmetric] by (metis add.commute append_take_drop_id drop_drop)
    ultimately show ?thesis using p ne by (simp add: stream_pages.simps[of st s before])
  qed
qed

lemma stream_newest_first: "store_ok st \<Longrightarrow> stream st s = Inr (hydrate st (newest_first st s))"
proof -
  assume ok: "store_ok st"
  let ?L = "newest_first st s"
  have len: "length ?L = length (filter (\<lambda>r. mw_session r = s) (message_table st))" by (simp add: newest_first_def)
  have "stream_pages st s None = Inr (hydrate st (drop 0 ?L))" if "length ?L > STREAM_MAX_MESSAGES"
  proof (rule stream_pages_eq)
    show "sorted_wrt (\<lambda>a b. msg_key b < msg_key a) ?L" using ok by (intro sorted_desc) (simp add: store_ok_def)
    have "older None r" for r by (simp add: older_def)
    then show "filter (older None) ?L = drop 0 ?L" by simp
    show "0 < length ?L" using that by linarith
  qed
  then show ?thesis unfolding stream_def len[symmetric] by simp
qed

lemma empty_session_store_ok: "store_ok empty_store"
  by (simp add: store_ok_def empty_store_def)

lemma reachable_store_ok: "store_step\<^sup>*\<^sup>* empty_store st \<Longrightarrow> store_ok st"
  by (induction rule: rtranclp_induct) (auto intro: store_step_ok empty_session_store_ok)

text \<open>
  C30. After any history of operations keys are unique, every message belongs to a session and every
  part to a message; and reading a session page by page, as is done above ten thousand messages,
  ends and yields the same messages in the same order as the single query.
\<close>

theorem stream_modes_agree:
  assumes "store_step\<^sup>*\<^sup>* empty_store st"
  shows "store_ok st \<and> stream st s = Inr (hydrate st (newest_first st s)) \<and>
    (newest_first st s \<noteq> [] \<longrightarrow> stream_pages st s None = Inr (hydrate st (newest_first st s)))"
proof -
  have ok: "store_ok st" using assms by (rule reachable_store_ok)
  have "older None r" for r by (simp add: older_def)
  then have "newest_first st s \<noteq> [] \<longrightarrow> stream_pages st s None = Inr (hydrate st (drop 0 (newest_first st s)))"
    using ok by (intro impI stream_pages_eq sorted_desc) (simp_all add: store_ok_def)
  then show ?thesis using ok stream_newest_first by simp
qed

definition example_env :: session_env where
  "example_env = \<lparr>se_now = 1, se_id = js ''ses_1'', se_slug = [], se_version = [], se_project = [], se_title = (\<lambda>_. []),
     se_workspaces = True\<rparr>"

definition example_user :: "jstring \<Rightarrow> msg_info" where
  "example_user i = \<lparr>mid = i, msession = js ''ses_1'',
     mdata = UserData \<lparr>u_created = 1, u_format = None, u_summary = None, u_agent = [],
       u_model = \<lparr>mr_provider = [], mr_model = [], mr_variant = None\<rparr>, u_system = None, u_locale = None, u_tools = None\<rparr>\<rparr>"

definition example_store :: store where
  "example_store = (case createNext example_env [] None None None None empty_store of
     Inr (_, st) \<Rightarrow> (case updateMessage (example_user (js ''msg_1'')) st of Inr st' \<Rightarrow> st' | Inl _ \<Rightarrow> st)
   | Inl _ \<Rightarrow> empty_store)"

lemma example_store_reachable: "store_step\<^sup>*\<^sup>* empty_store example_store"
proof -
  have "\<exists>i st1. createNext example_env [] None None None None empty_store = Inr (i, st1) \<and> rustOwned st1 = []"
    by (simp add: createNext_def project_created_def empty_store_def Let_def)
  then obtain i st1 where c: "createNext example_env [] None None None None empty_store = Inr (i, st1)" "rustOwned st1 = []"
    by blast
  have "\<exists>st2. updateMessage (example_user (js ''msg_1'')) st1 = Inr st2"
    using c(2) by (simp add: updateMessage_def isRust_def)
  then obtain st2 where u: "updateMessage (example_user (js ''msg_1'')) st1 = Inr st2" by blast
  have "example_store = st2" by (simp add: example_store_def c(1) u)
  then show ?thesis using s_create[OF c(1)] s_message[OF u] by (meson converse_rtranclp_into_rtranclp rtranclp.rtrancl_refl)
qed

lemma example_store_rows: "message_table example_store = [msg_row_of (example_user (js ''msg_1''))]"
  by (simp add: example_store_def createNext_def project_created_def empty_store_def Let_def updateMessage_def isRust_def
      project_message_def upsert_message_def example_user_def msg_row_of_def toRow_def example_env_def)

theorem stream_modes_agree_witness:
  "stream_pages example_store (js ''ses_1'') None = Inr (hydrate example_store [msg_row_of (example_user (js ''msg_1''))])"
proof -
  have "newest_first example_store (js ''ses_1'') = [msg_row_of (example_user (js ''msg_1''))]"
    by (simp add: newest_first_def example_store_rows msg_row_of_def example_user_def)
  then show ?thesis using stream_modes_agree[OF example_store_reachable, of "js ''ses_1''"] by simp
qed

section \<open>Writing and reading back\<close>

lemma from_to_row: "fromRow (toRow i) = i"
proof -
  obtain sm where "si_summary i = sm" by blast
  then show ?thesis by (cases sm) (auto simp: fromRow_def toRow_def)
qed

lemma find_map_upd:
  assumes "\<And>x. P (f x) = P x"
  shows "find P (map f xs) = map_option f (find P xs)"
  using assms by (induction xs) auto

lemma find_append_other: "\<not> P x \<Longrightarrow> find P (xs @ [x]) = find P xs"
  by (induction xs) auto

lemma find_fresh: "(\<And>y. y \<in> set xs \<Longrightarrow> \<not> P y) \<Longrightarrow> P x \<Longrightarrow> find P (xs @ [x]) = Some x"
  by (induction xs) auto

lemma info_of_row [simp]: "info_of (msg_row_of m) = m"
  by (simp add: info_of_def msg_row_of_def)

lemma upsert_message_get:
  assumes ok: "store_ok st" and up: "upsert_message (msg_row_of m) st = Some st'"
    and own: "list_all (\<lambda>r. mw_id r = mid m \<longrightarrow> mw_session r = msession m) (message_table st)"
  shows "get_message st' (msession m) (mid m) = Inr \<lparr>wp_info = m, wp_parts = parts st (mid m)\<rparr>"
    "i \<noteq> mid m \<Longrightarrow> get_message st' s i = get_message st s i"
proof -
  have id: "mw_id (msg_row_of m) = mid m" "mw_session (msg_row_of m) = msession m" by (simp_all add: msg_row_of_def)
  have "get_message st' (msession m) (mid m) = Inr \<lparr>wp_info = m, wp_parts = parts st (mid m)\<rparr> \<and>
      (i \<noteq> mid m \<longrightarrow> get_message st' s i = get_message st s i)"
    using up
  proof (cases rule: upsert_message_cases)
    case update
    let ?f = "\<lambda>x. if mw_id x = mid m then x\<lparr>mw_data := mdata m\<rparr> else x"
    have t: "message_table st' = map ?f (message_table st)" "\<And>j. parts st' j = parts st j"
      unfolding update(2) by (simp_all add: parts_def msg_row_of_def)
    have f: "find (\<lambda>r. mw_id r = j \<and> mw_session r = q) (message_table st') =
        map_option ?f (find (\<lambda>r. mw_id r = j \<and> mw_session r = q) (message_table st))" for j q
      unfolding t(1) by (rule find_map_upd) simp
    obtain r where r: "find (\<lambda>r. mw_id r = mid m \<and> mw_session r = msession m) (message_table st) = Some r"
      "mw_id r = mid m" "mw_session r = msession m"
      using update(1) own unfolding id by (cases "find (\<lambda>r. mw_id r = mid m \<and> mw_session r = msession m) (message_table st)")
        (auto simp: find_None_iff find_Some_iff list_all_iff)
    have "info_of (?f r) = m" using r by (simp add: info_of_def)
    moreover have "get_message st' s i = get_message st s i" if "i \<noteq> mid m"
    proof (cases "find (\<lambda>r. mw_id r = i \<and> mw_session r = s) (message_table st)")
      case (Some x)
      then have "mw_id x = i" by (auto simp: find_Some_iff)
      then show ?thesis using Some that by (simp add: get_message_def f t(2))
    qed (simp add: get_message_def f)
    ultimately show ?thesis by (simp add: get_message_def f r t(2))
  next
    case insert
    have t: "message_table st' = message_table st @ [msg_row_of m]" "\<And>j. parts st' j = parts st j"
      unfolding insert(3) by (simp_all add: parts_def)
    have new: "find (\<lambda>r. mw_id r = mid m \<and> mw_session r = msession m) (message_table st') = Some (msg_row_of m)"
      unfolding t(1) using insert(1) id by (intro find_fresh) (auto simp: image_iff)
    have "find (\<lambda>r. mw_id r = i \<and> mw_session r = s) (message_table st') = find (\<lambda>r. mw_id r = i \<and> mw_session r = s) (message_table st)"
      if "i \<noteq> mid m" unfolding t(1) using that id by (intro find_append_other) simp
    then show ?thesis using new by (simp add: get_message_def t(2) split: option.splits)
  qed
  then show "get_message st' (msession m) (mid m) = Inr \<lparr>wp_info = m, wp_parts = parts st (mid m)\<rparr>"
    "i \<noteq> mid m \<Longrightarrow> get_message st' s i = get_message st s i" by blast+
qed

text \<open>
  A message written to a session the server owns is read back as written, with the parts it has,
  and every other message is as before. A message whose identifier belongs to another session is
  excluded.
\<close>

theorem message_write_read:
  assumes "store_ok st" "\<not> isRust (msession m) st" "msession m \<in> set (map sw_id (session_table st))"
    "list_all (\<lambda>r. mw_id r = mid m \<longrightarrow> mw_session r = msession m) (message_table st)"
  shows "\<exists>st'. updateMessage m st = Inr st' \<and>
    get_message st' (msession m) (mid m) = Inr \<lparr>wp_info = m, wp_parts = parts st (mid m)\<rparr> \<and>
    (\<forall>s i. i \<noteq> mid m \<longrightarrow> get_message st' s i = get_message st s i)"
proof -
  have "upsert_message (msg_row_of m) st \<noteq> None" using assms(3) by (simp add: upsert_message_def msg_row_of_def)
  then obtain st1 where up: "upsert_message (msg_row_of m) st = Some st1" by blast
  have "updateMessage m st = Inr (publish (MessageUpdated m) st1)"
    using assms(2) up by (simp add: updateMessage_def project_message_def)
  moreover have "get_message (publish e st1) s i = get_message st1 s i" for e s i
    by (simp add: get_message_def parts_def split: option.splits)
  ultimately show ?thesis using upsert_message_get[OF assms(1) up assms(4)] by simp
qed

lemma example_store_sessions:
  "map sw_id (session_table example_store) = [js ''ses_1'']" "map sw_parent (session_table example_store) = [None]"
  "rustOwned example_store = []" "part_table example_store = []"
  by (simp_all add: example_store_def createNext_def project_created_def empty_store_def Let_def updateMessage_def isRust_def
      project_message_def upsert_message_def example_user_def msg_row_of_def toRow_def example_env_def)

theorem message_write_read_witness:
  "\<exists>st'. updateMessage (example_user (js ''msg_2'')) example_store = Inr st' \<and>
     get_message st' (js ''ses_1'') (js ''msg_2'') = Inr \<lparr>wp_info = example_user (js ''msg_2''), wp_parts = []\<rparr>"
proof -
  note s = example_store_sessions(1,3,4)
  have m: "msession (example_user (js ''msg_2'')) = js ''ses_1''" "mid (example_user (js ''msg_2'')) = js ''msg_2''"
    by (simp_all add: example_user_def)
  have p: "parts example_store (js ''msg_2'') = []" by (simp add: parts_def s(3))
  show ?thesis
    using message_write_read[OF reachable_store_ok[OF example_store_reachable], of "example_user (js ''msg_2'')", unfolded m p s(1)]
    by (auto simp: isRust_def s example_store_rows msg_row_of_def example_user_def)
qed

text \<open>
  While the Rust process owns a session, writing an answer, or a part of an answer, changes no
  table, also through the projectors; only messages of the user and their parts are written.
\<close>

theorem rust_owned_rows_untouched:
  assumes "isRust s st" "msession m = s" "psession p = s" "\<not> parentIsUser (pmessage p) st"
    "mdata m = AssistantData a"
  shows "updateMessage m st = Inr (publish (MessageUpdated m) st) \<and>
    updatePart now p st = Inr (publish (PartUpdated p now) st) \<and>
    project_message s m' st = st \<and> project_part s p' t st = st"
  using assms by (simp add: updateMessage_def updatePart_def project_message_def project_part_def)

theorem rust_owned_rows_untouched_witness:
  "updatePart 5 \<lparr>pid = js ''prt_1'', pmessage = js ''msg_9'', psession = js ''ses_1'', pdata = StepStartData None\<rparr>
     (markRust (js ''ses_1'') example_store) =
   Inr (publish (PartUpdated \<lparr>pid = js ''prt_1'', pmessage = js ''msg_9'', psession = js ''ses_1'', pdata = StepStartData None\<rparr> 5)
     (markRust (js ''ses_1'') example_store))"
proof -
  let ?st = "markRust (js ''ses_1'') example_store"
  let ?p = "\<lparr>pid = js ''prt_1'', pmessage = js ''msg_9'', psession = js ''ses_1'', pdata = StepStartData None\<rparr>"
  let ?a = "\<lparr>a_created = 0, a_completed = None, a_error = None, a_parentID = [], a_modelID = [], a_providerID = [], a_mode = [],
    a_agent = [], a_cwd = [], a_root = [], a_summary = None,
    a_tokens = \<lparr>t_total = None, t_input = 0, t_output = 0, t_cache_read = 0, t_cache_write = 0, t_reasoning = 0\<rparr>,
    a_structured = None, a_variant = None, a_finish = None\<rparr>"
  have "isRust (js ''ses_1'') ?st" by (simp add: isRust_def markRust_def)
  moreover have "\<not> parentIsUser (pmessage ?p) ?st"
    by (simp add: parentIsUser_def markRust_def example_store_rows msg_row_of_def example_user_def)
  ultimately show ?thesis
    using rust_owned_rows_untouched[of "js ''ses_1''" ?st "\<lparr>mid = [], msession = js ''ses_1'', mdata = AssistantData ?a\<rparr>" ?p ?a 5] by simp
qed

section \<open>Removing a tree of sessions\<close>

definition child_rel :: "store \<Rightarrow> (jstring \<times> jstring) set" where
  "child_rel st = {(p, c). \<exists>r\<in>set (session_table st). sw_id r = c \<and> sw_parent r = Some p}"

definition subtree :: "store \<Rightarrow> jstring \<Rightarrow> jstring \<Rightarrow> bool" where
  "subtree st s x \<longleftrightarrow> (s, x) \<in> (child_rel st)\<^sup>*"

definition next_level :: "store \<Rightarrow> jstring list \<Rightarrow> jstring list" where
  "next_level st F = concat (map (\<lambda>x. map sw_id (filter (\<lambda>r. sw_parent r = Some x) (session_table st))) F)"

lemma set_next_level: "set (next_level st F) = child_rel st `` set F"
  by (auto simp: next_level_def child_rel_def)

lemma descendants_step:
  "descendants (Suc n) st (s # ss) = map_option (\<lambda>b. b @ s # ss) (descendants n st (next_level st (s # ss)))"
  by (simp only: descendants.simps next_level_def)

lemma rtrancl_Image_unfold: "R\<^sup>* `` A = A \<union> R\<^sup>* `` (R `` A)"
proof
  show "R\<^sup>* `` A \<subseteq> A \<union> R\<^sup>* `` (R `` A)"
  proof
    fix x
    assume "x \<in> R\<^sup>* `` A"
    then obtain a where "(a, x) \<in> R\<^sup>*" "a \<in> A" by blast
    then show "x \<in> A \<union> R\<^sup>* `` (R `` A)" by (cases rule: converse_rtranclE) blast+
  qed
  show "A \<union> R\<^sup>* `` (R `` A) \<subseteq> R\<^sup>* `` A" by (auto intro: converse_rtrancl_into_rtrancl)
qed

lemma descendants_set:
  "descendants n st F = Some ids \<Longrightarrow> set ids = (child_rel st)\<^sup>* `` set F"
proof (induction n st F arbitrary: ids rule: descendants.induct)
  case (3 n st s ss)
  then obtain below where b: "descendants n st (next_level st (s # ss)) = Some below" "ids = below @ s # ss"
    by (auto simp only: descendants_step map_option_eq_Some)
  then have "set below = (child_rel st)\<^sup>* `` (child_rel st `` set (s # ss))"
    using 3(1)[folded next_level_def] set_next_level[of st "s # ss"] by metis
  then show ?case unfolding b(2) set_append using rtrancl_Image_unfold[of "child_rel st" "set (s # ss)"] by blast
qed auto

lemma descendants_none:
  "descendants n st F = None \<Longrightarrow>
   \<exists>xs. length xs = Suc n \<and> hd xs \<in> set F \<and> successively (\<lambda>a b. (a, b) \<in> child_rel st) xs"
proof (induction n st F rule: descendants.induct)
  case (2 st s ss)
  show ?case by (rule exI[of _ "[s]"]) simp
next
  case (3 n st s ss)
  then obtain xs where xs: "length xs = Suc n" "hd xs \<in> set (next_level st (s # ss))"
    "successively (\<lambda>a b. (a, b) \<in> child_rel st) xs"
    by (auto simp only: descendants_step map_option_is_None next_level_def)
  then obtain p where "p \<in> set (s # ss)" "(p, hd xs) \<in> child_rel st" unfolding set_next_level by blast
  then show ?case using xs by (intro exI[of _ "p # xs"]) (cases xs; simp)
qed simp

lemma descendants_enough:
  assumes "acyclic (child_rel st)"
  shows "\<exists>ids. descendants (Suc (length (session_table st))) st F = Some ids"
proof (rule ccontr)
  let ?n = "length (session_table st)"
  assume "\<nexists>ids. descendants (Suc ?n) st F = Some ids"
  then obtain xs where xs: "length xs = Suc (Suc ?n)" "successively (\<lambda>a b. (a, b) \<in> child_rel st) xs"
    using descendants_none[of "Suc ?n" st F] by (cases "descendants (Suc ?n) st F") auto
  have "successively (\<lambda>a b. (a, b) \<in> (child_rel st)\<^sup>+) xs" using xs(2) by (rule successively_mono) auto
  then have "sorted_wrt (\<lambda>a b. (a, b) \<in> (child_rel st)\<^sup>+) xs"
    by (subst (asm) successively_iff_sorted_wrt_strong) (auto intro: trancl_trans)
  then have d: "distinct xs" using assms unfolding acyclic_def
    by (auto simp: distinct_conv_nth sorted_wrt_iff_nth_less) (metis linorder_neqE_nat)
  have "b \<in> set (map sw_id (session_table st))" if b: "b \<in> set (tl xs)" for b
  proof -
    obtain i where "i < length (tl xs)" "b = tl xs ! i" using b unfolding in_set_conv_nth by blast
    then have "(xs ! i, b) \<in> child_rel st"
      using xs(2) unfolding successively_conv_nth by (simp add: nth_tl)
    then show ?thesis by (auto simp: child_rel_def)
  qed
  then have "card (set (tl xs)) \<le> ?n"
    by (metis card_length card_mono length_map List.finite_set order_trans subsetI)
  moreover have "card (set (tl xs)) = Suc ?n" using d xs(1) by (simp add: distinct_card distinct_tl)
  ultimately show False by simp
qed

text \<open>The tables after the sessions of a set are deleted one by one.\<close>

definition without :: "(jstring \<Rightarrow> bool) \<Rightarrow> store \<Rightarrow> store \<Rightarrow> bool" where
  "without T st st' \<longleftrightarrow>
     session_table st' = filter (\<lambda>r. \<not> T (sw_id r)) (session_table st) \<and>
     message_table st' = filter (\<lambda>r. \<not> T (mw_session r)) (message_table st) \<and>
     part_table st' = filter (\<lambda>p. \<not> (\<exists>r\<in>set (message_table st). mw_id r = pw_message p \<and> T (mw_session r))) (part_table st)"

lemma project_deleted_without:
  assumes "store_ok st"
  shows "without (\<lambda>x. x = s) st (project_deleted s st)"
proof -
  have g: "mw_session r \<in> set (map sw_id (filter (\<lambda>x. sw_id x = s) (session_table st))) \<longleftrightarrow> mw_session r = s"
    if "r \<in> set (message_table st)" for r
  proof -
    have "mw_session r \<in> set (map sw_id (session_table st))" using assms that by (auto simp: store_ok_def)
    then show ?thesis by (auto simp: image_iff)
  qed
  have m: "filter (\<lambda>r. mw_session r \<in> set (map sw_id (filter (\<lambda>x. sw_id x = s) (session_table st)))) (message_table st) =
      filter (\<lambda>r. mw_session r = s) (message_table st)" by (intro filter_cong) (simp_all only: g)
  have "filter (\<lambda>r. mw_session r \<notin> set (map sw_id (filter (\<lambda>x. sw_id x = s) (session_table st)))) (message_table st) =
      filter (\<lambda>r. mw_session r \<noteq> s) (message_table st)" by (intro filter_cong) (simp_all only: g)
  then show ?thesis
    unfolding without_def project_deleted_def delete_sessions_def delete_messages_def Let_def m
    by (auto intro!: filter_cong simp: image_iff)
qed

lemma without_trans:
  assumes "without T st st1" "without U st1 st2"
  shows "without (\<lambda>x. T x \<or> U x) st st2"
  using assms unfolding without_def by (auto intro!: filter_cong)

lemma fold_remove_without:
  assumes "store_ok st" "set ids \<subseteq> set found"
  shows "without (\<lambda>x. x \<in> set ids) st (fold (remove_one h found) ids st)"
  using assms
proof (induction ids arbitrary: st)
  case Nil
  then show ?case by (simp add: without_def)
next
  case (Cons s ids)
  have s: "without (\<lambda>x. x = s) st (remove_one h found s st)"
    using project_deleted_without[OF Cons.prems(1), of s] Cons.prems(2)
    by (auto simp: remove_one_def Let_def without_def)
  have "without (\<lambda>x. x \<in> set ids) (remove_one h found s st) (fold (remove_one h found) ids (remove_one h found s st))"
    using Cons by (intro Cons.IH remove_one_ok) auto
  from without_trans[OF s this] show ?case by simp
qed

text \<open>
  C31. Removing a session ends when no session is its own ancestor, and removes exactly the session,
  its descendants at every depth, their messages and the parts of these messages.
\<close>

theorem remove_session_subtree:
  assumes "store_ok st" "acyclic (child_rel st)" "s \<in> set (map sw_id (session_table st))"
  shows "\<exists>st'. remove_session hasInstance s st = Some st' \<and> without (subtree st s) st st'"
proof -
  let ?F = "map sw_id (filter (\<lambda>r. sw_id r = s) (session_table st))"
  obtain ids where ids: "descendants (Suc (length (session_table st))) st ?F = Some ids"
    using descendants_enough[OF assms(2)] by blast
  have F: "set ?F = {s}" using assms(3) by auto
  have set_ids: "x \<in> set ids \<longleftrightarrow> subtree st s x" for x
    using descendants_set[OF ids] F by (auto simp: subtree_def)
  have "x \<in> set (map sw_id (session_table st))" if "x \<in> set ids" for x
  proof -
    have "(s, x) \<in> (child_rel st)\<^sup>*" using that set_ids by (simp add: subtree_def)
    then show ?thesis using assms(3) by (cases rule: rtranclE) (auto simp: child_rel_def)
  qed
  then have "set ids \<subseteq> set (map sw_id (filter (\<lambda>r. sw_id r \<in> set ids) (session_table st)))" by auto
  from fold_remove_without[OF assms(1) this, of hasInstance] show ?thesis
    by (simp add: remove_session_def ids set_ids)
qed

theorem remove_session_subtree_witness:
  "\<exists>st'. remove_session True (js ''ses_1'') example_store = Some st' \<and> session_table st' = [] \<and> message_table st' = []"
proof -
  have c: "child_rel example_store = {}"
    using example_store_sessions(2) by (auto simp: child_rel_def map_eq_Cons_conv)
  have sub: "subtree example_store (js ''ses_1'') x \<longleftrightarrow> x = js ''ses_1''" for x
    by (auto simp: subtree_def c)
  obtain st' where st': "remove_session True (js ''ses_1'') example_store = Some st'"
    "without (subtree example_store (js ''ses_1'')) example_store st'"
    using remove_session_subtree[OF reachable_store_ok[OF example_store_reachable], of "js ''ses_1''" True] c example_store_sessions(1)
    by (auto simp: acyclic_def)
  have "session_table st' = []" "message_table st' = []"
    using st'(2) example_store_sessions(1) example_store_rows
    by (auto simp: without_def sub filter_empty_conv map_eq_Cons_conv msg_row_of_def example_user_def)
  then show ?thesis using st'(1) by blast
qed

section \<open>Reading a session as a whole\<close>

abbreviation all_parts :: "with_parts list \<Rightarrow> msg_part list" where
  "all_parts ms \<equiv> concat (map wp_parts ms)"

lemma sort_key_sorted: "sorted (map f xs) \<Longrightarrow> sort_key f xs = xs"
  by (rule properties_for_sort_key) auto

lemma part_of_row [simp]: "part_of (part_row_of now p) = p"
  by (simp add: part_of_def part_row_of_def)

lemma messages_ordered:
  "store_ok st \<Longrightarrow> messages st s None = Inr (hydrate st (sort_key msg_key (filter (\<lambda>r. mw_session r = s) (message_table st))))"
  by (simp add: messages_def stream_newest_first newest_first_def hydrate_def rev_map)

lemma same_tables_messages:
  assumes "store_ok st" "store_ok st1" "message_table st1 = message_table st" "part_table st1 = part_table st"
  shows "messages st1 s None = messages st s None"
proof -
  have "parts st1 = parts st" using assms(4) by (simp add: fun_eq_iff parts_def)
  then show ?thesis unfolding messages_ordered[OF assms(1)] messages_ordered[OF assms(2)] hydrate_def by (simp add: assms(3))
qed

lemma pids_of_parts: "map pid (parts st m) = map pw_id (sort_key pw_id (filter (\<lambda>r. pw_message r = m) (part_table st)))"
  by (simp add: parts_def part_of_def)

lemma distinct_all_pids:
  assumes "distinct (map pw_id (part_table st))" "distinct is"
  shows "distinct (map pid (concat (map (parts st) is)))"
  using assms(2)
proof (induction "is")
  case (Cons i js)
  have "distinct (map pw_id (filter (\<lambda>r. pw_message r = i) (part_table st)))"
    using assms(1) by (rule distinct_map_filter')
  then have "distinct (map pid (parts st i))" unfolding pids_of_parts by (auto simp: distinct_map)
  moreover have "set (map pid (parts st i)) \<inter> set (map pid (parts st j)) = {}" if "i \<noteq> j" for j
    unfolding pids_of_parts using assms(1) that by (auto simp: distinct_map inj_on_def)
  then have "set (map pid (parts st i)) \<inter> set (map pid (concat (map (parts st) js))) = {}"
    using Cons.prems by fastforce
  ultimately show ?case using Cons by simp
qed simp

lemma messages_parts:
  assumes "store_ok st" "messages st s None = Inr ms"
  shows "distinct (map pid (all_parts ms))" "p \<in> set (all_parts ms) \<Longrightarrow> \<exists>r\<in>set (part_table st). p = part_of r"
proof -
  let ?rs = "sort_key msg_key (filter (\<lambda>r. mw_session r = s) (message_table st))"
  have ms: "ms = hydrate st ?rs" using assms messages_ordered by auto
  have parts: "all_parts ms = concat (map (parts st) (map mw_id ?rs))" unfolding ms by (simp add: hydrate_def o_def)
  have "distinct (map mw_id (filter (\<lambda>r. mw_session r = s) (message_table st)))"
    using assms(1) by (intro distinct_map_filter') (simp add: store_ok_def)
  then have "distinct (map mw_id ?rs)" by (auto simp: distinct_map)
  then show "distinct (map pid (all_parts ms))"
    unfolding parts using assms(1) by (intro distinct_all_pids) (simp_all add: store_ok_def)
  show "\<exists>r\<in>set (part_table st). p = part_of r" if p: "p \<in> set (all_parts ms)"
    using p unfolding parts by (auto simp: parts_def)
qed

end
