(* ===== verification/Session_Fork.thy ===== *)
theory Session_Fork
  imports Session_Store
begin

text \<open>
  What \<open>fork\<close> of \<open>session/session.ts\<close> leaves in the store: the copies of the messages, read back
  in the order of the original, and what a copied compaction marker does.
\<close>

section \<open>Forks copy the history\<close>

fun clone_parts :: "(nat \<Rightarrow> jstring) \<Rightarrow> jstring \<Rightarrow> jstring \<Rightarrow> nat \<Rightarrow> msg_part list \<Rightarrow> msg_part list" where
  "clone_parts gen s m k [] = []"
| "clone_parts gen s m k (p # ps) = clone_part s m (gen k) p # clone_parts gen s m (Suc k) ps"

text \<open>What the copies of a list of messages are.\<close>

fun copies :: "fork_ids \<Rightarrow> jstring \<Rightarrow> nat \<Rightarrow> nat \<Rightarrow> (jstring \<times> jstring) list \<Rightarrow> with_parts list \<Rightarrow> with_parts list" where
  "copies gen s n k idMap [] = []"
| "copies gen s n k idMap (m # ms) =
     (let idMap' = jmap_set (msg_id m) (fk_message gen n) idMap
      in \<lparr>wp_info = clone_info s (fk_message gen n) idMap' (wp_info m),
          wp_parts = clone_parts (fk_part gen) s (fk_message gen n) k (wp_parts m)\<rparr> #
         copies gen s (Suc n) (k + length (wp_parts m)) idMap' ms)"

lemma clone_parts_simps:
  "length (clone_parts gen s m k ps) = length ps"
  "map pid (clone_parts gen s m k ps) = map gen [k..<k + length ps]"
  "list_all (\<lambda>p. pmessage p = m \<and> psession p = s) (clone_parts gen s m k ps)"
  by (induction ps arbitrary: k) (auto simp: clone_part_def upt_conv_Cons simp del: upt_Suc)

lemma pids_of_rows: "map pw_id (map (part_row_of now) ps) = map pid ps"
  by (simp add: part_row_of_def)

lemma copies_ids: "map msg_id (copies gen s n k idMap ms) = map (fk_message gen) [n..<n + length ms]"
  by (induction ms arbitrary: n k idMap) (auto simp: Let_def clone_info_def upt_conv_Cons simp del: upt_Suc)

lemma copies_part_ids:
  "map pid (all_parts (copies gen s n k idMap ms)) = map (fk_part gen) [k..<k + length (all_parts ms)]"
proof (induction ms arbitrary: n k idMap)
  case (Cons m ms)
  have "[k..<k + length (all_parts (m # ms))] =
      [k..<k + length (wp_parts m)] @ [k + length (wp_parts m)..<k + length (wp_parts m) + length (all_parts ms)]"
    using upt_add_eq_append[of k "k + length (wp_parts m)" "length (all_parts ms)"] by (simp add: add.assoc)
  then show ?case by (simp add: Let_def Cons.IH clone_parts_simps)
qed simp

lemma copies_members:
  "list_all (\<lambda>c. msession (wp_info c) = s \<and> list_all (\<lambda>p. pmessage p = msg_id c \<and> psession p = s) (wp_parts c)) (copies gen s n k idMap ms)"
  by (induction ms arbitrary: n k idMap) (auto simp: Let_def clone_info_def clone_parts_simps)

lemma copies_created:
  "map (\<lambda>c. created (mdata (wp_info c))) (copies gen s n k idMap ms) = map (\<lambda>c. created (mdata (wp_info c))) ms"
  by (induction ms arbitrary: n k idMap)
    (auto simp: Let_def clone_info_def created_def split: info_data.splits option.splits)

section \<open>The tables after a fork\<close>

definition added :: "int \<Rightarrow> with_parts list \<Rightarrow> store \<Rightarrow> store \<Rightarrow> bool" where
  "added now cs st st' \<longleftrightarrow>
     session_table st' = session_table st \<and> rustOwned st' = rustOwned st \<and>
     message_table st' = message_table st @ map (\<lambda>c. msg_row_of (wp_info c)) cs \<and>
     part_table st' = part_table st @ map (part_row_of now) (all_parts cs)"

lemma fork_message_adds:
  assumes "msession i \<in> set (map sw_id (session_table st))" "\<not> isRust (msession i) st"
    "mid i \<notin> set (map mw_id (message_table st))"
  shows "\<exists>st'. fork_message i st = Inr st' \<and> added now [\<lparr>wp_info = i, wp_parts = []\<rparr>] st st'"
  using assms
  by (simp add: fork_message_def updateMessage_def project_message_def upsert_message_def msg_row_of_def added_def)

lemma fork_parts_adds:
  assumes "m \<in> set (map mw_id (message_table st))" "\<not> isRust s st" "inj gen" "range gen \<inter> set (map pw_id (part_table st)) \<subseteq> gen ` {..<k}"
  shows "\<exists>st'. fork_parts now gen s m k ps st = Inr st' \<and> session_table st' = session_table st \<and> rustOwned st' = rustOwned st \<and>
    message_table st' = message_table st \<and> part_table st' = part_table st @ map (part_row_of now) (clone_parts gen s m k ps)"
  using assms(1,2,4)
proof (induction ps arbitrary: k st)
  case (Cons p ps)
  let ?p = "clone_part s m (gen k) p"
  have ids: "pid ?p = gen k" "pmessage ?p = m" "psession ?p = s" by (simp_all add: clone_part_def)
  have "gen k \<notin> set (map pw_id (part_table st))"
    using Cons.prems(3) assms(3) by (auto simp: inj_def)
  then obtain st1 where st1: "fork_part now ?p st = Inr st1" "session_table st1 = session_table st" "rustOwned st1 = rustOwned st"
    "message_table st1 = message_table st" "part_table st1 = part_table st @ [part_row_of now ?p]"
    using Cons.prems(1,2) ids by (simp add: fork_part_def updatePart_def project_part_def upsert_part_def part_row_of_def)
  have "range gen \<inter> set (map pw_id (part_table st1)) \<subseteq> gen ` {..<Suc k}"
    using Cons.prems(3) ids(1) unfolding st1(5) by (auto simp: part_row_of_def lessThan_Suc)
  then obtain st2 where "fork_parts now gen s m (Suc k) ps st1 = Inr st2" "session_table st2 = session_table st1"
    "rustOwned st2 = rustOwned st1" "message_table st2 = message_table st1"
    "part_table st2 = part_table st1 @ map (part_row_of now) (clone_parts gen s m (Suc k) ps)"
    using Cons.IH[of st1 "Suc k"] Cons.prems(1,2) st1(3,4) by (auto simp: isRust_def)
  then show ?case using st1 by simp
qed simp

lemma fork_loop_adds:
  assumes "s \<in> set (map sw_id (session_table st))" "\<not> isRust s st" "inj (fk_message gen)" "inj (fk_part gen)"
    "range (fk_message gen) \<inter> set (map mw_id (message_table st)) \<subseteq> fk_message gen ` {..<n}"
    "range (fk_part gen) \<inter> set (map pw_id (part_table st)) \<subseteq> fk_part gen ` {..<k}"
  shows "\<exists>st'. fork_loop now gen s until n k idMap ms st = Inr st' \<and>
    added now (copies gen s n k idMap (takeWhile (\<lambda>m. \<not> (truthy until \<and> the until \<le> msg_id m)) ms)) st st'"
  using assms(1,2,5,6)
proof (induction ms arbitrary: n k idMap st)
  case Nil
  then show ?case by (simp add: added_def)
next
  case (Cons m ms)
  show ?case
  proof (cases "truthy until \<and> the until \<le> msg_id m")
    case True
    then show ?thesis by (simp add: added_def)
  next
    case False
    let ?id = "fk_message gen n" and ?map = "jmap_set (msg_id m) (fk_message gen n) idMap"
    let ?i = "clone_info s ?id ?map (wp_info m)"
    have i: "mid ?i = ?id" "msession ?i = s" by (simp_all add: clone_info_def)
    have "?id \<notin> set (map mw_id (message_table st))"
      using Cons.prems(3) assms(3) by (auto simp: inj_def)
    then obtain st1 where st1: "fork_message ?i st = Inr st1" "added now [\<lparr>wp_info = ?i, wp_parts = []\<rparr>] st st1"
      using fork_message_adds[of ?i st now] Cons.prems(1,2) i by auto
    have m1: "?id \<in> set (map mw_id (message_table st1))" "\<not> isRust s st1" "part_table st1 = part_table st"
      using st1(2) Cons.prems(2) i by (auto simp: added_def msg_row_of_def isRust_def)
    then obtain st2 where st2: "fork_parts now (fk_part gen) s ?id k (wp_parts m) st1 = Inr st2"
      "session_table st2 = session_table st1" "rustOwned st2 = rustOwned st1" "message_table st2 = message_table st1"
      "part_table st2 = part_table st1 @ map (part_row_of now) (clone_parts (fk_part gen) s ?id k (wp_parts m))"
      using fork_parts_adds[of ?id st1 s "fk_part gen" k now "wp_parts m"] assms(4) Cons.prems(4) by auto
    have tabs: "session_table st2 = session_table st" "rustOwned st2 = rustOwned st"
      "message_table st2 = message_table st @ [msg_row_of ?i]"
      "part_table st2 = part_table st @ map (part_row_of now) (clone_parts (fk_part gen) s ?id k (wp_parts m))"
      using st1(2) st2 by (simp_all add: added_def)
    have "range (fk_message gen) \<inter> set (map mw_id (message_table st2)) \<subseteq> fk_message gen ` {..<Suc n}"
      using Cons.prems(3) i unfolding tabs by (auto simp: msg_row_of_def lessThan_Suc)
    moreover have "set (map pid (clone_parts (fk_part gen) s ?id k (wp_parts m))) \<subseteq> fk_part gen ` {..<k + length (wp_parts m)}"
      unfolding clone_parts_simps by auto
    then have "range (fk_part gen) \<inter> set (map pw_id (part_table st2)) \<subseteq> fk_part gen ` {..<k + length (wp_parts m)}"
      using Cons.prems(4) unfolding tabs map_append pids_of_rows set_append by (auto dest!: subsetD)
    ultimately obtain st3 where "fork_loop now gen s until (Suc n) (k + length (wp_parts m)) ?map ms st2 = Inr st3"
      "added now (copies gen s (Suc n) (k + length (wp_parts m)) ?map
         (takeWhile (\<lambda>m. \<not> (truthy until \<and> the until \<le> msg_id m)) ms)) st2 st3"
      using Cons.IH[of st2 "Suc n" "k + length (wp_parts m)" ?map] Cons.prems(1,2) tabs(1,2) by (auto simp: isRust_def)
    then show ?thesis using False st1(1) st2(1) tabs by (auto simp: Let_def added_def)
  qed
qed

section \<open>Reading the copies\<close>

lemma filter_own_parts:
  assumes "distinct (map msg_id cs)" "c \<in> set cs" "list_all (\<lambda>c. list_all (\<lambda>p. pmessage p = msg_id c) (wp_parts c)) cs"
  shows "filter (\<lambda>p. pmessage p = msg_id c) (all_parts cs) = wp_parts c"
  using assms
proof (induction cs)
  case (Cons d cs)
  have other: "filter (\<lambda>p. pmessage p = i) (all_parts cs) = []" if "i \<notin> set (map msg_id cs)" for i
    using Cons.prems(3) that by (auto simp: filter_empty_conv list_all_iff)
  show ?case
  proof (cases "c = d")
    case True
    then show ?thesis using Cons.prems other[of "msg_id d"] by (auto simp: list_all_iff filter_id_conv)
  next
    case False
    then have "c \<in> set cs" using Cons.prems(2) by simp
    then have "msg_id c \<noteq> msg_id d" using Cons.prems(1) by (auto simp: image_iff)
    then have "filter (\<lambda>p. pmessage p = msg_id c) (wp_parts d) = []"
      using Cons.prems(3) by (auto simp: filter_empty_conv list_all_iff)
    then show ?thesis using Cons \<open>c \<in> set cs\<close> by simp
  qed
qed simp

lemma parts_added:
  assumes "added now cs st st'" "store_ok st" "set (map msg_id cs) \<inter> set (map mw_id (message_table st)) = {}"
    "distinct (map msg_id cs)" "sorted (map pid (all_parts cs))" "c \<in> set cs"
    "list_all (\<lambda>c. list_all (\<lambda>p. pmessage p = msg_id c) (wp_parts c)) cs"
  shows "parts st' (msg_id c) = wp_parts c"
proof -
  have "filter (\<lambda>r. pw_message r = msg_id c) (part_table st) = []"
  proof -
    have "pw_message r \<in> set (map mw_id (message_table st))" if "r \<in> set (part_table st)" for r
      using assms(2) that by (auto simp: store_ok_def)
    moreover have "msg_id c \<notin> set (map mw_id (message_table st))" using assms(3,6) by auto
    ultimately show ?thesis unfolding filter_empty_conv by metis
  qed
  then have "filter (\<lambda>r. pw_message r = msg_id c) (part_table st') =
      map (part_row_of now) (filter (\<lambda>p. pmessage p = msg_id c) (all_parts cs))"
    using assms(1) by (simp add: added_def filter_map o_def part_row_of_def)
  also have "\<dots> = map (part_row_of now) (wp_parts c)" using filter_own_parts[OF assms(4,6,7)] by simp
  finally have f: "filter (\<lambda>r. pw_message r = msg_id c) (part_table st') = map (part_row_of now) (wp_parts c)" .
  obtain xs ys where "cs = xs @ c # ys" using assms(6) by (meson split_list)
  then have "sorted (map pid (wp_parts c))" using assms(5) by (simp add: sorted_append)
  then have "sort_key pw_id (map (part_row_of now) (wp_parts c)) = map (part_row_of now) (wp_parts c)"
    by (intro sort_key_sorted) (simp only: pids_of_rows)
  then show ?thesis by (simp add: parts_def f o_def)
qed

lemma parts_kept:
  assumes "added now cs st st'" "i \<notin> set (map msg_id cs)" "list_all (\<lambda>c. list_all (\<lambda>p. pmessage p = msg_id c) (wp_parts c)) cs"
  shows "parts st' i = parts st i"
proof -
  have "filter (\<lambda>r. pw_message r = i) (map (part_row_of now) (all_parts cs)) = []"
    using assms(2,3) by (auto simp: filter_empty_conv list_all_iff part_row_of_def image_iff)
  then show ?thesis using assms(1) by (simp add: parts_def added_def)
qed

lemma hydrate_added:
  assumes add: "added now cs st st'" and ok: "store_ok st" "store_ok st'" and "s \<notin> set (map mw_session (message_table st))"
    and "set (map msg_id cs) \<inter> set (map mw_id (message_table st)) = {}"
    and ids: "sorted_wrt (<) (map msg_id cs)" "sorted (map pid (all_parts cs))"
    and time: "sorted (map (\<lambda>c. created (mdata (wp_info c))) cs)"
    and mem: "list_all (\<lambda>c. msession (wp_info c) = s \<and> list_all (\<lambda>p. pmessage p = msg_id c \<and> psession p = s) (wp_parts c)) cs"
  shows "messages st' s None = Inr cs" "s' \<noteq> s \<Longrightarrow> messages st' s' None = messages st s' None"
proof -
  have mem': "list_all (\<lambda>c. list_all (\<lambda>p. pmessage p = msg_id c) (wp_parts c)) cs"
    using mem by (auto simp: list_all_iff)
  have d: "distinct (map msg_id cs)" using ids(1) by (simp add: strict_sorted_iff)
  have rows: "filter (\<lambda>r. mw_session r = s) (message_table st') = map (\<lambda>c. msg_row_of (wp_info c)) cs"
    using add assms(4) mem by (auto simp: added_def filter_empty_conv filter_id_conv list_all_iff msg_row_of_def)
  have "sorted (map msg_key (map (\<lambda>c. msg_row_of (wp_info c)) cs))"
    using ids(1) time unfolding sorted_wrt_map sorted_map
    by (auto simp: sorted_wrt_iff_nth_less msg_row_of_def less_eq_prod_def order.order_iff_strict)
  then have "messages st' s None = Inr (hydrate st' (map (\<lambda>c. msg_row_of (wp_info c)) cs))"
    using messages_ordered[OF ok(2), of s] unfolding rows by (simp only: sort_key_sorted)
  also have "hydrate st' (map (\<lambda>c. msg_row_of (wp_info c)) cs) = cs"
    using parts_added[OF add ok(1) assms(5) d ids(2) _ mem']
    by (simp add: hydrate_def o_def map_idI msg_row_of_def[THEN arg_cong[where f = mw_id]])
  finally show "messages st' s None = Inr cs" .
  assume "s' \<noteq> s"
  then have r: "filter (\<lambda>r. mw_session r = s') (message_table st') = filter (\<lambda>r. mw_session r = s') (message_table st)"
    using add mem by (auto simp: added_def filter_empty_conv list_all_iff msg_row_of_def)
  have "hydrate st' xs = hydrate st xs" if "set xs \<subseteq> set (message_table st)" for xs
    using that parts_kept[OF add _ mem'] assms(5) unfolding hydrate_def by (intro map_cong) (auto simp: image_iff subset_iff)
  then show "messages st' s' None = messages st s' None"
    unfolding messages_ordered[OF ok(1)] messages_ordered[OF ok(2)] r by simp
qed

section \<open>The fork as a whole\<close>

lemma createNext_tables:
  assumes "se_id env \<notin> set (map sw_id (session_table st))"
  shows "\<exists>i st1. createNext env dir w p t pe st = Inr (i, st1) \<and> si_id i = se_id env \<and> si_parent i = p \<and>
    map sw_id (session_table st1) = map sw_id (session_table st) @ [se_id env] \<and> rustOwned st1 = rustOwned st \<and>
    message_table st1 = message_table st \<and> part_table st1 = part_table st"
  using assms by (simp add: createNext_def project_created_def Let_def toRow_def)

lemma messages_times:
  assumes "store_ok st" "list_all (\<lambda>r. mw_created r = created (mw_data r)) (message_table st)" "messages st s None = Inr ms"
  shows "sorted (map (\<lambda>c. created (mdata (wp_info c))) ms)"
proof -
  let ?rs = "sort_key msg_key (filter (\<lambda>r. mw_session r = s) (message_table st))"
  have ms: "ms = hydrate st ?rs" using assms(3) messages_ordered[OF assms(1)] by simp
  have "sorted (map msg_key ?rs)" by simp
  then have "sorted (map mw_created ?rs)"
    unfolding sorted_map by (rule sorted_wrt_mono_rel[rotated]) (auto simp: less_eq_prod_def)
  moreover have "map mw_created ?rs = map (\<lambda>r. created (mw_data r)) ?rs"
    using assms(2) by (auto simp: list_all_iff)
  ultimately show ?thesis unfolding ms hydrate_def by (simp add: o_def info_of_def)
qed

lemma sorted_wrt_upt_mono: "strict_mono f \<Longrightarrow> sorted_wrt (<) (map f [a..<b])" for f :: "nat \<Rightarrow> 'a::linorder"
  by (simp add: sorted_wrt_map sorted_wrt_iff_nth_less strict_mono_def)

text \<open>
  C32. Forking a session creates a child session with a copy of the messages before the given one, in
  the same order, each with its parts in the same order and with the parent of an answer replaced by
  the copy of that parent; the messages of all other sessions are as before. New identifiers have to
  be increasing and unused.
\<close>

theorem fork_copies_history:
  assumes ok: "store_ok st" and s: "s \<in> set (map sw_id (session_table st))"
    and new: "se_id env \<notin> set (map sw_id (session_table st))" "\<not> isRust (se_id env) st"
    and mono: "strict_mono (fk_message gen)" "strict_mono (fk_part gen)"
    and fresh: "range (fk_message gen) \<inter> set (map mw_id (message_table st)) = {}"
      "range (fk_part gen) \<inter> set (map pw_id (part_table st)) = {}"
    and times: "list_all (\<lambda>r. mw_created r = created (mw_data r)) (message_table st)"
  shows "\<exists>info st' ms. messages st s None = Inr ms \<and> fork env gen dir s until st = Inr (info, st') \<and>
    si_id info = se_id env \<and> si_parent info = Some s \<and>
    messages st' (se_id env) None =
      Inr (copies gen (se_id env) 0 0 [] (takeWhile (\<lambda>m. \<not> (truthy until \<and> the until \<le> msg_id m)) ms)) \<and>
    (\<forall>s'. s' \<noteq> se_id env \<longrightarrow> messages st' s' None = messages st s' None)"
proof -
  obtain x where "find (\<lambda>r. sw_id r = s) (session_table st) = Some x"
    using s by (cases "find (\<lambda>r. sw_id r = s) (session_table st)") (auto simp: find_None_iff)
  then obtain r where g: "get_session st s = Inr r" by (simp add: get_session_def)
  let ?t = "Some (getForkedTitle (si_title r))"
  obtain i st1 where st1: "createNext env dir (si_workspace r) (Some s) ?t None st = Inr (i, st1)"
    "si_id i = se_id env" "si_parent i = Some s" "map sw_id (session_table st1) = map sw_id (session_table st) @ [se_id env]"
    "rustOwned st1 = rustOwned st" "message_table st1 = message_table st" "part_table st1 = part_table st"
    using createNext_tables[OF new(1)] by blast
  have ok1: "store_ok st1" using createNext_ok[OF st1(1) ok] .
  obtain ms where ms: "messages st s None = Inr ms" using messages_ordered[OF ok] by blast
  have ms1: "messages st1 s' None = messages st s' None" for s'
    by (rule same_tables_messages[OF ok ok1 st1(6,7)])
  let ?ms = "takeWhile (\<lambda>m. \<not> (truthy until \<and> the until \<le> msg_id m)) ms"
  let ?cs = "copies gen (se_id env) 0 0 [] ?ms"
  obtain st2 where st2: "fork_loop (se_now env) gen (se_id env) until 0 0 [] ms st1 = Inr st2" "added (se_now env) ?cs st1 st2"
    using fork_loop_adds[of "se_id env" st1 gen 0 0 "se_now env" until "[]" ms] st1 new(2) fresh mono
    by (auto simp: isRust_def strict_mono_imp_inj_on)
  have ok2: "store_ok st2" using fork_loop_ok[OF st2(1) ok1] .
  have "se_id env \<notin> set (map mw_session (message_table st1))"
    using ok new(1) unfolding st1(6) store_ok_def by blast
  moreover have "set (map msg_id ?cs) \<inter> set (map mw_id (message_table st1)) = {}"
    using fresh(1) unfolding copies_ids st1(6) by auto
  moreover have "sorted_wrt (<) (map msg_id ?cs)" unfolding copies_ids by (rule sorted_wrt_upt_mono[OF mono(1)])
  moreover have "sorted (map pid (all_parts ?cs))"
    unfolding copies_part_ids using sorted_wrt_upt_mono[OF mono(2)] strict_sorted_imp_sorted by blast
  moreover have "sorted (map (\<lambda>c. created (mdata (wp_info c))) ?cs)"
    unfolding copies_created using messages_times[OF ok times ms]
    by (metis (no_types, lifting) map_append sorted_append takeWhile_dropWhile_id)
  ultimately have "messages st2 (se_id env) None = Inr ?cs" "s' \<noteq> se_id env \<Longrightarrow> messages st2 s' None = messages st1 s' None" for s'
    using hydrate_added[OF st2(2) ok1 ok2 _ _ _ _ _ copies_members] by blast+
  moreover have "fork env gen dir s until st = Inr (i, st2)"
    by (simp add: fork_def g st1(1,2) ms1 ms st2(1))
  ultimately show ?thesis using ms ms1 st1(2,3) by auto
qed

definition example_ids :: fork_ids where
  "example_ids = \<lparr>fk_message = (\<lambda>n. js ''msg_z'' @ replicate n 97), fk_part = (\<lambda>n. js ''prt_z'' @ replicate n 97)\<rparr>"

lemma replicate_less: "i < j \<Longrightarrow> xs @ replicate i 97 < xs @ replicate j (97::nat)"
proof -
  assume "i < j"
  then obtain k where "j = i + Suc k" by (auto dest: less_imp_Suc_add)
  then have "xs @ replicate j 97 = (xs @ replicate i 97) @ 97 # replicate k (97::nat)"
    by (simp only: replicate_add replicate_Suc append_assoc)
  then show ?thesis unfolding list_less_def by (metis lexord_append_rightI)
qed

theorem fork_copies_history_witness:
  "\<exists>info st' ms. messages example_store (js ''ses_1'') None = Inr ms \<and>
     fork (example_env\<lparr>se_id := js ''ses_2''\<rparr>) example_ids [] (js ''ses_1'') None example_store = Inr (info, st') \<and>
     messages st' (js ''ses_2'') None = Inr (copies example_ids (js ''ses_2'') 0 0 [] ms)"
proof -
  have m: "strict_mono (fk_message example_ids)" "strict_mono (fk_part example_ids)"
    by (simp_all add: strict_mono_def example_ids_def replicate_less)
  have f: "range (fk_message example_ids) \<inter> set (map mw_id (message_table example_store)) = {}"
    "range (fk_part example_ids) \<inter> set (map pw_id (part_table example_store)) = {}"
    unfolding example_store_rows example_store_sessions(4)
    by (auto simp: example_ids_def msg_row_of_def example_user_def js_def)
  have t: "list_all (\<lambda>r. mw_created r = created (mw_data r)) (message_table example_store)"
    unfolding example_store_rows by (simp add: msg_row_of_def)
  have n: "takeWhile (\<lambda>m. \<not> (truthy None \<and> the None \<le> msg_id m)) ms = ms" for ms by (simp add: truthy_def)
  show ?thesis
    using fork_copies_history[OF reachable_store_ok[OF example_store_reachable] _ _ _ m f t,
        of "js ''ses_1''" "example_env\<lparr>se_id := js ''ses_2''\<rparr>" "[]" None, unfolded n] example_store_sessions
    by (auto simp: isRust_def)
qed

section \<open>Forks of compacted sessions\<close>

lemma filter_loop_no_tail:
  assumes "\<And>r. retain = Some r \<Longrightarrow> r \<notin> set (map msg_id ms)"
    "list_all (\<lambda>m. case find_compaction (wp_parts m) of None \<Rightarrow> True
       | Some c \<Rightarrow> truthy (cp_tail_start_id c) \<and> the (cp_tail_start_id c) \<notin> T) ms" "set (map msg_id ms) \<subseteq> T"
  shows "filter_loop retain completed ms = ms"
  using assms
proof (induction retain completed ms rule: filter_loop.induct)
  case (3 completed m ms)
  have "y \<notin> set (map msg_id ms)" if "y \<notin> T" for y using that 3(6) by auto
  then show ?case using 3 by (auto simp: truthy_def split: option.splits)
qed auto

lemma clone_parts_compaction: "find_compaction (clone_parts gen s m k ps) = find_compaction ps"
  by (induction ps arbitrary: k) (auto simp: clone_part_def split: part_data.splits)

lemma copies_compaction:
  "map (\<lambda>m. find_compaction (wp_parts m)) (copies gen s n k idMap ms) = map (\<lambda>m. find_compaction (wp_parts m)) ms"
  by (induction ms arbitrary: n k idMap) (simp_all add: Let_def clone_parts_compaction)

text \<open>
  A fork undoes the compaction of its history: the copied marker still names the message at which
  the kept tail starts by its old identifier, which no copy has, so nothing of the copy is filtered.
\<close>

theorem fork_undoes_compaction:
  assumes "list_all (\<lambda>m. case find_compaction (wp_parts m) of None \<Rightarrow> True
       | Some c \<Rightarrow> truthy (cp_tail_start_id c) \<and> the (cp_tail_start_id c) \<notin> range (fk_message gen)) ms"
  shows "filterCompacted (rev (copies gen s 0 0 [] ms)) = copies gen s 0 0 [] ms"
proof -
  let ?P = "\<lambda>fc. case fc of None \<Rightarrow> True
       | Some c \<Rightarrow> truthy (cp_tail_start_id c) \<and> the (cp_tail_start_id c) \<notin> range (fk_message gen)"
  have "list_all ?P (map (\<lambda>m. find_compaction (wp_parts m)) ms)"
    using assms by (simp add: list_all_iff)
  then have "list_all (\<lambda>m. ?P (find_compaction (wp_parts m))) (copies gen s 0 0 [] ms)"
    unfolding copies_compaction[of gen s 0 0 "[]" ms, symmetric] by (simp add: list_all_iff)
  moreover have "set (map msg_id (copies gen s 0 0 [] ms)) \<subseteq> range (fk_message gen)" unfolding copies_ids by auto
  ultimately have "filter_loop None [] (rev (copies gen s 0 0 [] ms)) = rev (copies gen s 0 0 [] ms)"
    by (intro filter_loop_no_tail[where T = "range (fk_message gen)"]) auto
  then show ?thesis by (simp add: filterCompacted_def)
qed

definition example_marker :: with_parts where
  "example_marker = \<lparr>wp_info = example_user (js ''msg_2''),
     wp_parts = [\<lparr>pid = js ''prt_2'', pmessage = js ''msg_2'', psession = js ''ses_1'',
       pdata = CompactionData \<lparr>cp_auto = True, cp_overflow = None, cp_tail_start_id = Some (js ''msg_1'')\<rparr>\<rparr>]\<rparr>"

theorem fork_undoes_compaction_witness:
  "filterCompacted (rev (copies example_ids (js ''ses_2'') 0 0 [] [example_marker])) =
     copies example_ids (js ''ses_2'') 0 0 [] [example_marker]"
  by (rule fork_undoes_compaction) (auto simp: example_marker_def truthy_def example_ids_def js_def)

end
