(* ===== verification/Compaction.thy ===== *)
theory Compaction
  imports Session_Fork
begin

text \<open>
  Compaction of a session, \<open>session/compaction.ts\<close>: which part of the history is summarised and
  which is kept, the clearing of old tool outputs, and the handler that runs a compaction. The
  services the code is given (configuration, agents, providers, the processor that talks to the
  model) and generated identifiers are arguments.
\<close>

section \<open>Settings\<close>

record comp_cfg = compaction_cfg +
  cfg_tail_turns :: "int option"
  cfg_preserve_recent :: "int option"
  cfg_prune :: bool

definition PRUNE_MINIMUM :: int where "PRUNE_MINIMUM = 20000"
definition PRUNE_PROTECT :: int where "PRUNE_PROTECT = 40000"
definition TOOL_OUTPUT_MAX_CHARS :: nat where "TOOL_OUTPUT_MAX_CHARS = 2000"
definition PRUNE_PROTECTED_TOOLS :: "jstring list" where "PRUNE_PROTECTED_TOOLS = [js ''skill'']"
definition DEFAULT_TAIL_TURNS :: int where "DEFAULT_TAIL_TURNS = 2"
definition MIN_PRESERVE_RECENT_TOKENS :: int where "MIN_PRESERVE_RECENT_TOKENS = 2000"
definition MAX_PRESERVE_RECENT_TOKENS :: int where "MAX_PRESERVE_RECENT_TOKENS = 9007199254740991"

definition lines :: "string list \<Rightarrow> jstring" where
  "lines ls = join [newline] (map js ls)"

definition SUMMARY_TEMPLATE :: jstring where
  \<open>SUMMARY_TEMPLATE = lines
    [''Output exactly this Markdown structure and keep the section order unchanged:'', ''---'', ''## Goal'',
     ''- [single-sentence task summary]'', [], ''## Constraints & Preferences'',
     ''- [user constraints, preferences, specs, or "(none)"]'', [], ''## Progress'', ''### Done'',
     ''- [completed work or "(none)"]'', [], ''### In Progress'', ''- [current work or "(none)"]'', [], ''### Blocked'',
     ''- [blockers or "(none)"]'', [], ''## Key Decisions'', ''- [decision and why, or "(none)"]'', [], ''## Next Steps'',
     ''- [ordered next actions or "(none)"]'', [], ''## Critical Context'',
     ''- [important technical facts, errors, open questions, or "(none)"]'', [], ''## Relevant Files'',
     ''- [file or directory path: why it matters, or "(none)"]'', ''---'', [], ''Rules:'',
     ''- Keep every section, even when empty.'', ''- Use terse bullets, not prose paragraphs.'',
     ''- Preserve exact file paths, commands, error strings, and identifiers when known.'',
     ''- Do not mention the summary process or that context was compacted.'']\<close>

section \<open>Earlier compactions\<close>

definition summaryText :: "with_parts \<Rightarrow> jstring option" where
  "summaryText m =
     (let texts = concat (map (\<lambda>p. case pdata p of TextData t \<Rightarrow> [trim (tx_text t)] | _ \<Rightarrow> []) (wp_parts m));
          txt = trim (join [newline, newline] (filter (\<lambda>t. t \<noteq> []) texts))
      in if txt = [] then None else Some txt)"

definition has_marker :: "with_parts \<Rightarrow> bool" where
  "has_marker m \<longleftrightarrow> list_ex is_compaction (wp_parts m)"

record completed_compaction =
  cc_user :: nat
  cc_assistant :: nat
  cc_summary :: "jstring option"

text \<open>The indices of the messages with a marker, by identifier.\<close>

definition marker_users :: "with_parts list \<Rightarrow> (jstring \<times> nat) list" where
  "marker_users ms =
     fold (\<lambda>(i, m) us. if is_user m \<and> has_marker m then jmap_set (msg_id m) i us else us) (enumerate 0 ms) []"

definition completedCompactions :: "with_parts list \<Rightarrow> completed_compaction list" where
  "completedCompactions ms =
     concat (map (\<lambda>(i, m).
       case mdata (wp_info m) of
         UserData _ \<Rightarrow> []
       | AssistantData a \<Rightarrow>
           if a_summary a \<noteq> Some True \<or> \<not> truthy (a_finish a) \<or> a_error a \<noteq> None then []
           else (case map_of (marker_users ms) (a_parentID a) of
                   None \<Rightarrow> []
                 | Some u \<Rightarrow> [\<lparr>cc_user = u, cc_assistant = i, cc_summary = summaryText m\<rparr>])) (enumerate 0 ms))"

definition buildPrompt :: "jstring option \<Rightarrow> jstring list \<Rightarrow> jstring" where
  "buildPrompt previousSummary context =
     (let anchor =
        (if truthy previousSummary then
           join [newline]
             [js ''Update the anchored summary below using the conversation history above.'',
              js ''Preserve still-true details, remove stale details, and merge in the new facts.'',
              js ''<previous-summary>'', the previousSummary, js ''</previous-summary>'']
         else js ''Create a new anchored summary from the conversation history above.'')
      in join [newline, newline] (anchor # SUMMARY_TEMPLATE # context))"

section \<open>What is kept\<close>

definition preserveRecentBudget :: "env \<Rightarrow> comp_cfg \<Rightarrow> model \<Rightarrow> int" where
  "preserveRecentBudget e cfg m =
     (case cfg_preserve_recent cfg of
        Some n \<Rightarrow> n
      | None \<Rightarrow> min MAX_PRESERVE_RECENT_TOKENS
                  (max MIN_PRESERVE_RECENT_TOKENS (effectiveUsable e (compaction_cfg.truncate cfg) m div 4)))"

record turn =
  tn_start :: nat
  tn_end :: nat
  tn_id :: jstring

definition turn_starts :: "with_parts list \<Rightarrow> nat list" where
  "turn_starts ms = filter (\<lambda>i. is_user (ms ! i) \<and> \<not> has_marker (ms ! i)) [0..<length ms]"

definition turns :: "with_parts list \<Rightarrow> turn list" where
  "turns ms =
     map (\<lambda>(s, e). \<lparr>tn_start = s, tn_end = e, tn_id = msg_id (ms ! s)\<rparr>)
       (zip (turn_starts ms) (tl (turn_starts ms) @ [length ms]))"

abbreviation slice :: "nat \<Rightarrow> nat \<Rightarrow> 'a list \<Rightarrow> 'a list" where
  "slice i j xs \<equiv> drop i (take j xs)"

definition estimate_messages :: "with_parts list \<Rightarrow> int" where
  "estimate_messages ms = int (estimateFromParts (map (\<lambda>p. est_view (pdata p)) (concat (map wp_parts ms))))"

fun split_from :: "with_parts list \<Rightarrow> nat \<Rightarrow> int \<Rightarrow> nat list \<Rightarrow> (nat \<times> jstring) option" where
  "split_from ms e budget [] = None"
| "split_from ms e budget (start # starts) =
     (if estimate_messages (slice start e ms) > budget then split_from ms e budget starts
      else Some (start, msg_id (ms ! start)))"

definition splitTurn :: "with_parts list \<Rightarrow> turn \<Rightarrow> int \<Rightarrow> (nat \<times> jstring) option" where
  "splitTurn ms t budget =
     (if budget \<le> 0 then None
      else if tn_end t - tn_start t \<le> 1 then None
      else split_from ms (tn_end t) budget [tn_start t + 1..<tn_end t])"

text \<open>The turns come newest first.\<close>

fun select_loop :: "with_parts list \<Rightarrow> int \<Rightarrow> int \<Rightarrow> (nat \<times> jstring) option \<Rightarrow> turn list \<Rightarrow> (nat \<times> jstring) option" where
  "select_loop ms budget tot keep [] = keep"
| "select_loop ms budget tot keep (t # ts) =
     (let size = estimate_messages (slice (tn_start t) (tn_end t) ms)
      in if tot + size \<le> budget then select_loop ms budget (tot + size) (Some (tn_start t, tn_id t)) ts
         else (case splitTurn ms t (budget - tot) of Some s \<Rightarrow> Some s | None \<Rightarrow> keep))"

definition select :: "env \<Rightarrow> comp_cfg \<Rightarrow> model \<Rightarrow> with_parts list \<Rightarrow> with_parts list \<times> jstring option" where
  "select e cfg m ms =
     (let limit = (case cfg_tail_turns cfg of Some n \<Rightarrow> n | None \<Rightarrow> DEFAULT_TAIL_TURNS)
      in if limit \<le> 0 then (ms, None)
         else
           (let budget = preserveRecentBudget e cfg m; all = turns ms
            in if all = [] then (ms, None)
               else
                 (let recent = drop (length all - nat limit) all
                  in case select_loop ms budget 0 None (rev recent) of
                       None \<Rightarrow> (ms, None)
                     | Some (start, i) \<Rightarrow> if start = 0 then (ms, None) else (take start ms, Some i))))"

section \<open>Clearing old tool outputs\<close>

record prune_state =
  ps_total :: int
  ps_pruned :: int
  ps_parts :: "msg_part list"

text \<open>The parts of one message, last first; the flag tells that the search is over.\<close>

fun prune_parts :: "msg_part list \<Rightarrow> prune_state \<Rightarrow> bool \<times> prune_state" where
  "prune_parts [] s = (False, s)"
| "prune_parts (p # ps) s =
     (case pdata p of
        ToolData t \<Rightarrow>
          (case tl_state t of
             SCompleted c \<Rightarrow>
               if tl_tool t \<in> set PRUNE_PROTECTED_TOOLS then prune_parts ps s
               else if compacted c then (True, s)
               else
                 (let e = estimate (c_output c); s1 = s\<lparr>ps_total := ps_total s + e\<rparr>
                  in if ps_total s1 \<le> PRUNE_PROTECT then prune_parts ps s1
                     else prune_parts ps (s1\<lparr>ps_pruned := ps_pruned s + e, ps_parts := ps_parts s @ [p]\<rparr>))
           | _ \<Rightarrow> prune_parts ps s)
      | _ \<Rightarrow> prune_parts ps s)"

text \<open>The messages, newest first.\<close>

fun prune_messages :: "nat \<Rightarrow> with_parts list \<Rightarrow> prune_state \<Rightarrow> prune_state" where
  "prune_messages seen [] s = s"
| "prune_messages seen (m # ms) s =
     (let seen' = (if is_user m then Suc seen else seen)
      in if seen' < 2 then prune_messages seen' ms s
         else if (case mdata (wp_info m) of AssistantData a \<Rightarrow> a_summary a = Some True | UserData _ \<Rightarrow> False) then s
         else (case prune_parts (rev (wp_parts m)) s of
                 (True, s') \<Rightarrow> s'
               | (False, s') \<Rightarrow> prune_messages seen' ms s'))"

definition set_compacted :: "int \<Rightarrow> msg_part \<Rightarrow> msg_part" where
  "set_compacted now p =
     (case pdata p of
        ToolData t \<Rightarrow>
          (case tl_state t of
             SCompleted c \<Rightarrow> p\<lparr>pdata := ToolData (t\<lparr>tl_state := SCompleted (c\<lparr>c_compacted := Some now\<rparr>)\<rparr>)\<rparr>
           | _ \<Rightarrow> p)
      | _ \<Rightarrow> p)"

fun update_parts :: "int \<Rightarrow> msg_part list \<Rightarrow> store \<Rightarrow> store_error + store" where
  "update_parts now [] st = Inr st"
| "update_parts now (p # ps) st =
     (case updatePart now p st of Inl e \<Rightarrow> Inl e | Inr st' \<Rightarrow> update_parts now ps st')"

definition prune_found :: "with_parts list \<Rightarrow> prune_state" where
  "prune_found ms = prune_messages 0 (rev ms) \<lparr>ps_total = 0, ps_pruned = 0, ps_parts = []\<rparr>"

definition prune :: "comp_cfg \<Rightarrow> int \<Rightarrow> jstring \<Rightarrow> store \<Rightarrow> store_error + store" where
  "prune cfg now s st =
     (if \<not> cfg_prune cfg then Inr st
      else case messages st s None of
             Inl e \<Rightarrow> Inl e
           | Inr ms \<Rightarrow>
               (let r = prune_found ms
                in if ps_pruned r > PRUNE_MINIMUM
                   then update_parts now (map (set_compacted now) (ps_parts r)) st
                   else Inr st))"

section \<open>The kept tail fits its budget\<close>

definition turn_size :: "with_parts list \<Rightarrow> nat \<Rightarrow> turn \<Rightarrow> int" where
  "turn_size ms k t = estimate_messages (slice (max k (tn_start t)) (tn_end t) ms)"

text \<open>The size of what follows an index, estimated turn by turn.\<close>

definition kept_size :: "with_parts list \<Rightarrow> turn list \<Rightarrow> nat \<Rightarrow> int" where
  "kept_size ms ts k = sum_list (map (turn_size ms k) (filter (\<lambda>t. k < tn_end t) ts))"

definition turn_ok :: "with_parts list \<Rightarrow> turn \<Rightarrow> bool" where
  "turn_ok ms t \<longleftrightarrow> tn_start t < tn_end t \<and> tn_end t \<le> length ms \<and> tn_id t = msg_id (ms ! tn_start t)"

lemma starts_sorted: "sorted_wrt (<) (turn_starts ms)"
  unfolding turn_starts_def using sorted_wrt_filter[OF sorted_wrt_upt] by simp

lemma starts_less: "i \<in> set (turn_starts ms) \<Longrightarrow> i < length ms"
  by (simp add: turn_starts_def)

lemma turns_nth:
  assumes "i < length (turns ms)"
  shows "tn_start (turns ms ! i) = turn_starts ms ! i" "tn_id (turns ms ! i) = msg_id (ms ! (turn_starts ms ! i))"
    "tn_end (turns ms ! i) = (if Suc i < length (turn_starts ms) then turn_starts ms ! Suc i else length ms)"
  using assms by (auto simp: turns_def nth_append nth_tl)

lemma length_turns: "length (turns ms) = length (turn_starts ms)"
  by (simp add: turns_def)

lemma turns_ok: "list_all (turn_ok ms) (turns ms)"
  unfolding list_all_length turn_ok_def
proof (intro allI impI conjI)
  fix i
  assume i: "i < length (turns ms)"
  then have s: "turn_starts ms ! i < length ms" using starts_less length_turns by (metis nth_mem)
  show "tn_start (turns ms ! i) < tn_end (turns ms ! i)"
    using s sorted_wrt_nth_less[OF starts_sorted, of i "Suc i"] by (simp add: turns_nth[OF i])
  show "tn_end (turns ms ! i) \<le> length ms"
    using starts_less[of "turn_starts ms ! Suc i" ms] nth_mem[of "Suc i" "turn_starts ms"]
    by (auto simp: turns_nth[OF i] less_imp_le)
  show "tn_id (turns ms ! i) = msg_id (ms ! tn_start (turns ms ! i))" by (simp add: turns_nth[OF i])
qed

lemma turns_apart: "sorted_wrt (\<lambda>a b. tn_end a \<le> tn_start b) (turns ms)"
  unfolding sorted_wrt_iff_nth_less
proof (intro allI impI)
  fix i j
  assume ij: "i < j" "j < length (turns ms)"
  then have "turn_starts ms ! Suc i \<le> turn_starts ms ! j"
    using sorted_wrt_nth_less[OF starts_sorted[of ms], of "Suc i" j] length_turns[of ms] by (cases "Suc i = j") auto
  then show "tn_end (turns ms ! i) \<le> tn_start (turns ms ! j)"
    using ij length_turns[of ms] by (simp add: turns_nth)
qed

lemma split_from_sound:
  "split_from ms e budget is = Some (k, i) \<Longrightarrow> k \<in> set is \<and> i = msg_id (ms ! k) \<and> estimate_messages (slice k e ms) \<le> budget"
  by (induction "is") (auto split: if_splits)

lemma splitTurn_sound:
  "splitTurn ms t budget = Some (k, i) \<Longrightarrow>
   tn_start t < k \<and> k < tn_end t \<and> i = msg_id (ms ! k) \<and> turn_size ms k t \<le> budget"
  by (auto simp: splitTurn_def turn_size_def split: if_splits dest!: split_from_sound)

lemma kept_size_start:
  assumes "sorted_wrt (\<lambda>a b. tn_end a \<le> tn_start b) (pre @ t # post)" "list_all (turn_ok ms) (t # post)"
    "tn_start t \<le> k" "k < tn_end t"
  shows "kept_size ms (pre @ t # post) k = turn_size ms k t + sum_list (map (turn_size ms 0) post)"
proof -
  have "filter (\<lambda>t. k < tn_end t) pre = []"
    using assms(1,3) by (auto simp: sorted_wrt_append filter_empty_conv)
  moreover have "filter (\<lambda>t. k < tn_end t) post = post"
    using assms(1,2,4) by (fastforce simp: sorted_wrt_append filter_id_conv list_all_iff turn_ok_def)
  moreover have "map (turn_size ms k) post = map (turn_size ms 0) post"
    using assms(1,4) by (auto simp: sorted_wrt_append turn_size_def max_def)
  ultimately show ?thesis using assms(4) by (simp add: kept_size_def cong: map_cong)
qed

lemma select_loop_sound:
  assumes "sorted_wrt (\<lambda>a b. tn_end a \<le> tn_start b) (pre @ rev rs @ post)" "list_all (turn_ok ms) (rev rs @ post)"
    "tot = sum_list (map (turn_size ms 0) post)"
    "case post of [] \<Rightarrow> keep = None | t # _ \<Rightarrow> keep = Some (tn_start t, tn_id t) \<and> tot \<le> budget"
    "select_loop ms budget tot keep rs = Some (k, i)"
  shows "k < length ms \<and> i = msg_id (ms ! k) \<and> kept_size ms (pre @ rev rs @ post) k \<le> budget \<and>
    (\<exists>t\<in>set (rev rs @ post). tn_start t \<le> k)"
  using assms
proof (induction rs arbitrary: post tot keep)
  case Nil
  then obtain t ts where post: "post = t # ts" "k = tn_start t" "i = tn_id t" "tot \<le> budget" by (cases post) auto
  have t: "turn_ok ms t" using Nil.prems(2) post by simp
  have "kept_size ms (pre @ t # ts) k = turn_size ms k t + sum_list (map (turn_size ms 0) ts)"
    using Nil.prems(1,2) post t by (intro kept_size_start) (auto simp: turn_ok_def[of ms t])
  moreover have "turn_size ms k t = turn_size ms 0 t" by (simp add: turn_size_def post)
  ultimately show ?case using Nil.prems(3) post t by (auto simp: turn_ok_def)
next
  case (Cons t rs)
  have t: "turn_ok ms t" using Cons.prems(2) by simp
  have sz: "estimate_messages (slice (tn_start t) (tn_end t) ms) = turn_size ms 0 t" by (simp add: turn_size_def)
  show ?case
  proof (cases "tot + turn_size ms 0 t \<le> budget")
    case True
    then have "select_loop ms budget (tot + turn_size ms 0 t) (Some (tn_start t, tn_id t)) rs = Some (k, i)"
      using Cons.prems(5) by (simp add: sz)
    from Cons.IH[OF _ _ _ _ this, of "t # post"] show ?thesis using Cons.prems(1-3) True by simp
  next
    case False
    show ?thesis
    proof (cases "splitTurn ms t (budget - tot)")
      case None
      then obtain t' ts where post: "post = t' # ts" "k = tn_start t'" "i = tn_id t'" "tot \<le> budget"
        using Cons.prems(4,5) False by (cases post) (auto simp: sz)
      have t': "turn_ok ms t'" using Cons.prems(2) post by simp
      have "kept_size ms ((pre @ rev (t # rs)) @ t' # ts) k = turn_size ms k t' + sum_list (map (turn_size ms 0) ts)"
        using Cons.prems(1,2) post t' by (intro kept_size_start) (auto simp: turn_ok_def[of ms t'])
      moreover have "turn_size ms k t' = turn_size ms 0 t'" by (simp add: turn_size_def post)
      ultimately show ?thesis using Cons.prems(3) post t' by (auto simp: turn_ok_def)
    next
      case (Some ki)
      then have sp: "splitTurn ms t (budget - tot) = Some (k, i)" using Cons.prems(5) False by (simp add: sz)
      note spl = splitTurn_sound[OF sp]
      have "kept_size ms ((pre @ rev rs) @ t # post) k = turn_size ms k t + sum_list (map (turn_size ms 0) post)"
        using Cons.prems(1,2) spl by (intro kept_size_start) auto
      then show ?thesis using spl t Cons.prems(3) by (auto simp: turn_ok_def)
    qed
  qed
qed

lemma select_cut:
  "case select e cfg m ms of (head, tail) \<Rightarrow> (head = ms \<and> tail = None) \<or>
    (\<exists>k. 0 < k \<and> k < length ms \<and> head = take k ms \<and> tail = Some (msg_id (ms ! k)) \<and>
         kept_size ms (turns ms) k \<le> preserveRecentBudget e cfg m \<and>
         (\<exists>t\<in>set (drop (length (turns ms) - nat (case cfg_tail_turns cfg of Some n \<Rightarrow> n | None \<Rightarrow> DEFAULT_TAIL_TURNS)) (turns ms)).
            tn_start t \<le> k))"
proof -
  obtain head tail where sel: "select e cfg m ms = (head, tail)" by fastforce
  show ?thesis
  proof (cases tail)
    case None
    then show ?thesis using sel by (auto simp: select_def Let_def split: if_splits option.splits)
  next
    case (Some i)
    let ?n = "length (turns ms) - nat (case cfg_tail_turns cfg of Some n \<Rightarrow> n | None \<Rightarrow> DEFAULT_TAIL_TURNS)"
    let ?recent = "drop ?n (turns ms)"
    obtain k where k: "select_loop ms (preserveRecentBudget e cfg m) 0 None (rev ?recent) = Some (k, i)" "k \<noteq> 0" "head = take k ms"
      using sel Some by (auto simp: select_def Let_def split: if_splits option.splits)
    have "k < length ms \<and> i = msg_id (ms ! k) \<and> kept_size ms (take ?n (turns ms) @ rev (rev ?recent) @ []) k \<le> preserveRecentBudget e cfg m \<and>
        (\<exists>t\<in>set (rev (rev ?recent) @ []). tn_start t \<le> k)"
      by (rule select_loop_sound[OF _ _ _ _ k(1)]) (use turns_apart turns_ok in \<open>auto simp: list_all_iff dest: in_set_dropD\<close>)
    then show ?thesis using k(2,3) Some sel by auto
  qed
qed

text \<open>
  C33. What a compaction summarises and what it keeps: either everything is summarised, or the history
  is cut at a message after the first one, whose identifier is recorded; the part from there on
  belongs to the last turns allowed, and estimated turn by turn it fits the budget.
\<close>

theorem select_sound:
  "case select e cfg m ms of (head, tail) \<Rightarrow> (head = ms \<and> tail = None) \<or>
    (\<exists>k. 0 < k \<and> k < length ms \<and> head = take k ms \<and> tail = Some (msg_id (ms ! k)) \<and>
         kept_size ms (turns ms) k \<le> preserveRecentBudget e cfg m \<and>
         (\<exists>t\<in>set (drop (length (turns ms) - nat (case cfg_tail_turns cfg of Some n \<Rightarrow> n | None \<Rightarrow> DEFAULT_TAIL_TURNS)) (turns ms)).
            tn_start t \<le> k))"
  by (rule select_cut)

section \<open>Old outputs are cleared once\<close>

definition prunable :: "msg_part \<Rightarrow> completed_state option" where
  "prunable p =
     (case pdata p of
        ToolData t \<Rightarrow>
          (case tl_state t of
             SCompleted c \<Rightarrow> if tl_tool t \<in> set PRUNE_PROTECTED_TOOLS then None else Some c
           | _ \<Rightarrow> None)
      | _ \<Rightarrow> None)"

definition out_size :: "msg_part \<Rightarrow> int" where
  "out_size p = (case prunable p of Some c \<Rightarrow> estimate (c_output c) | None \<Rightarrow> 0)"

text \<open>The outputs the search meets, newest first, up to one that is already cleared.\<close>

fun cand_parts :: "msg_part list \<Rightarrow> msg_part list \<times> bool" where
  "cand_parts [] = ([], False)"
| "cand_parts (p # ps) =
     (case prunable p of
        None \<Rightarrow> cand_parts ps
      | Some c \<Rightarrow> if compacted c then ([], True) else apfst ((#) p) (cand_parts ps))"

definition is_summary :: "with_parts \<Rightarrow> bool" where
  "is_summary m = (case mdata (wp_info m) of AssistantData a \<Rightarrow> a_summary a = Some True | UserData _ \<Rightarrow> False)"

fun cand_messages :: "nat \<Rightarrow> with_parts list \<Rightarrow> msg_part list" where
  "cand_messages seen [] = []"
| "cand_messages seen (m # ms) =
     (let seen' = (if is_user m then Suc seen else seen)
      in if seen' < 2 then cand_messages seen' ms
         else if is_summary m then []
         else fst (cand_parts (rev (wp_parts m))) @
              (if snd (cand_parts (rev (wp_parts m))) then [] else cand_messages seen' ms))"

definition take_part :: "msg_part \<Rightarrow> prune_state \<Rightarrow> prune_state" where
  "take_part p s =
     (let s1 = s\<lparr>ps_total := ps_total s + out_size p\<rparr>
      in if ps_total s1 \<le> PRUNE_PROTECT then s1
         else s1\<lparr>ps_pruned := ps_pruned s + out_size p, ps_parts := ps_parts s @ [p]\<rparr>)"

lemma prune_parts_fold: "prune_parts ps s = (snd (cand_parts ps), fold take_part (fst (cand_parts ps)) s)"
proof (induction ps arbitrary: s)
  case (Cons p ps)
  then show ?case
    by (auto simp: prunable_def take_part_def out_size_def Let_def split: part_data.splits part_state.splits)
qed simp

lemma prune_messages_fold: "prune_messages seen ms s = fold take_part (cand_messages seen ms) s"
proof (induction ms arbitrary: seen s)
  case (Cons m ms)
  then show ?case
    by (auto simp: Let_def prune_parts_fold is_summary_def split: prod.splits bool.splits)
qed simp

lemma estimate_nonneg: "0 \<le> estimate s"
  by (simp add: estimate_def Let_def)

lemma out_size_nonneg: "0 \<le> out_size p"
  by (simp add: out_size_def estimate_nonneg split: option.splits)

lemma fold_take_over:
  "PRUNE_PROTECT < ps_total s \<Longrightarrow>
   fold take_part cs s = s\<lparr>ps_total := ps_total s + sum_list (map out_size cs),
     ps_pruned := ps_pruned s + sum_list (map out_size cs), ps_parts := ps_parts s @ cs\<rparr>"
proof (induction cs arbitrary: s)
  case (Cons p cs)
  have "PRUNE_PROTECT < ps_total s + out_size p" using Cons.prems out_size_nonneg[of p] by linarith
  then show ?case using Cons.IH[of "take_part p s"] by (simp add: take_part_def Let_def)
qed simp

lemma fold_take_split:
  assumes "ps_total s \<le> PRUNE_PROTECT"
  shows "\<exists>kept rest. cs = kept @ rest \<and> ps_total s + sum_list (map out_size kept) \<le> PRUNE_PROTECT \<and>
    (rest \<noteq> [] \<longrightarrow> PRUNE_PROTECT < ps_total s + sum_list (map out_size kept) + out_size (hd rest)) \<and>
    fold take_part cs s = s\<lparr>ps_total := ps_total s + sum_list (map out_size cs),
      ps_pruned := ps_pruned s + sum_list (map out_size rest), ps_parts := ps_parts s @ rest\<rparr>"
  using assms
proof (induction cs arbitrary: s)
  case (Cons p cs)
  show ?case
  proof (cases "ps_total s + out_size p \<le> PRUNE_PROTECT")
    case True
    then have t: "take_part p s = s\<lparr>ps_total := ps_total s + out_size p\<rparr>" by (simp add: take_part_def Let_def)
    have "\<exists>kept rest. cs = kept @ rest \<and> ps_total s + out_size p + sum_list (map out_size kept) \<le> PRUNE_PROTECT \<and>
      (rest \<noteq> [] \<longrightarrow> PRUNE_PROTECT < ps_total s + out_size p + sum_list (map out_size kept) + out_size (hd rest)) \<and>
      fold take_part cs (take_part p s) = s\<lparr>ps_total := ps_total s + out_size p + sum_list (map out_size cs),
         ps_pruned := ps_pruned s + sum_list (map out_size rest), ps_parts := ps_parts s @ rest\<rparr>"
      using Cons.IH[of "take_part p s"] True unfolding t by simp
    then obtain kept rest where "cs = kept @ rest"
      "ps_total s + out_size p + sum_list (map out_size kept) \<le> PRUNE_PROTECT"
      "rest \<noteq> [] \<longrightarrow> PRUNE_PROTECT < ps_total s + out_size p + sum_list (map out_size kept) + out_size (hd rest)"
      "fold take_part cs (take_part p s) = s\<lparr>ps_total := ps_total s + out_size p + sum_list (map out_size cs),
         ps_pruned := ps_pruned s + sum_list (map out_size rest), ps_parts := ps_parts s @ rest\<rparr>" by blast
    then show ?thesis by (intro exI[of _ "p # kept"] exI[of _ rest]) (auto simp: add.assoc)
  next
    case False
    then have t: "take_part p s = s\<lparr>ps_total := ps_total s + out_size p, ps_pruned := ps_pruned s + out_size p,
        ps_parts := ps_parts s @ [p]\<rparr>" by (simp add: take_part_def Let_def)
    have "fold take_part cs (take_part p s) = s\<lparr>ps_total := ps_total s + out_size p + sum_list (map out_size cs),
        ps_pruned := ps_pruned s + out_size p + sum_list (map out_size cs), ps_parts := ps_parts s @ p # cs\<rparr>"
      using False fold_take_over[of "take_part p s" cs] unfolding t by simp
    then show ?thesis using False Cons.prems by (intro exI[of _ "[]"] exI[of _ "p # cs"]) (auto simp: add.assoc)
  qed
qed simp

section \<open>The effect on the store\<close>

definition put_data :: "msg_part list \<Rightarrow> part_row \<Rightarrow> part_row" where
  "put_data ps r = (case find (\<lambda>p. pid p = pw_id r) ps of Some p \<Rightarrow> r\<lparr>pw_data := pdata p\<rparr> | None \<Rightarrow> r)"

lemma put_data_keys [simp]:
  "pw_id (put_data ps r) = pw_id r" "pw_message (put_data ps r) = pw_message r" "pw_session (put_data ps r) = pw_session r"
  by (auto simp: put_data_def split: option.splits)

lemma updatePart_existing:
  assumes "pid p \<in> set (map pw_id (part_table st))" "\<not> isRust (psession p) st"
  shows "\<exists>st'. updatePart now p st = Inr st' \<and> session_table st' = session_table st \<and> message_table st' = message_table st \<and>
    rustOwned st' = rustOwned st \<and> part_table st' = map (put_data [p]) (part_table st)"
  using assms by (auto simp: updatePart_def project_part_def upsert_part_def part_row_of_def put_data_def)

lemma put_data_Cons: "pid p \<notin> set (map pid ps) \<Longrightarrow> put_data ps (put_data [p] r) = put_data (p # ps) r"
proof (cases "pid p = pw_id r")
  case True
  assume "pid p \<notin> set (map pid ps)"
  then have "find (\<lambda>q. pid q = pw_id r) ps = None" using True by (auto simp: find_None_iff image_iff)
  then show ?thesis using True by (simp add: put_data_def)
qed (simp add: put_data_def)

lemma update_parts_existing:
  assumes "distinct (map pid ps)" "set (map pid ps) \<subseteq> set (map pw_id (part_table st))" "list_all (\<lambda>p. \<not> isRust (psession p) st) ps"
  shows "\<exists>st'. update_parts now ps st = Inr st' \<and> session_table st' = session_table st \<and> message_table st' = message_table st \<and>
    rustOwned st' = rustOwned st \<and> part_table st' = map (put_data ps) (part_table st)"
  using assms
proof (induction ps arbitrary: st)
  case Nil
  have "put_data [] = (\<lambda>r. r)" by (simp add: fun_eq_iff put_data_def)
  then show ?case by simp
next
  case (Cons p ps)
  obtain st1 where st1: "updatePart now p st = Inr st1" "session_table st1 = session_table st" "message_table st1 = message_table st"
    "rustOwned st1 = rustOwned st" "part_table st1 = map (put_data [p]) (part_table st)"
    using updatePart_existing[of p st now] Cons.prems by auto
  have "map pw_id (part_table st1) = map pw_id (part_table st)" by (simp add: st1(5))
  then obtain st2 where "update_parts now ps st1 = Inr st2" "session_table st2 = session_table st1" "message_table st2 = message_table st1"
    "rustOwned st2 = rustOwned st1" "part_table st2 = map (put_data ps) (part_table st1)"
    using Cons.IH[of st1] Cons.prems st1(4) by (auto simp: isRust_def)
  moreover have "map (put_data ps) (map (put_data [p]) (part_table st)) = map (put_data (p # ps)) (part_table st)"
    using Cons.prems(1) by (simp add: put_data_Cons)
  ultimately show ?case using st1 by simp
qed

lemma insort_key_map: "insort_key f (g x) (map g xs) = map g (insort_key (\<lambda>x. f (g x)) x xs)"
  by (induction xs) auto

lemma sort_key_map: "sort_key f (map g xs) = map g (sort_key (\<lambda>x. f (g x)) xs)"
  by (induction xs) (simp_all add: insort_key_map)

text \<open>A part with its new data, if it is among the written ones.\<close>

definition new_part :: "msg_part list \<Rightarrow> msg_part \<Rightarrow> msg_part" where
  "new_part ps q = (case find (\<lambda>p. pid p = pid q) ps of Some p \<Rightarrow> q\<lparr>pdata := pdata p\<rparr> | None \<Rightarrow> q)"

lemma part_of_put_data: "part_of (put_data ps r) = new_part ps (part_of r)"
  by (auto simp: part_of_def put_data_def new_part_def split: option.splits)

lemma parts_put_data:
  assumes "part_table st' = map (put_data ps) (part_table st)"
  shows "parts st' m = map (new_part ps) (parts st m)"
  by (simp add: parts_def assms filter_map o_def sort_key_map part_of_put_data)

lemma messages_put_data:
  assumes "store_ok st" "store_ok st'" "message_table st' = message_table st" "part_table st' = map (put_data ps) (part_table st)"
    "messages st s None = Inr ms"
  shows "messages st' s None = Inr (map (\<lambda>m. m\<lparr>wp_parts := map (new_part ps) (wp_parts m)\<rparr>) ms)"
proof -
  have "hydrate st' rs = map (\<lambda>m. m\<lparr>wp_parts := map (new_part ps) (wp_parts m)\<rparr>) (hydrate st rs)" for rs
    by (simp add: hydrate_def parts_put_data[OF assms(4)])
  then show ?thesis using assms(5) unfolding messages_ordered[OF assms(1)] messages_ordered[OF assms(2)] assms(3) by auto
qed

section \<open>Clearing twice is clearing once\<close>

lemma cand_parts_subset: "set (fst (cand_parts ps)) \<subseteq> {p \<in> set ps. prunable p \<noteq> None}"
  by (induction ps) (auto split: option.splits)

lemma cand_messages_subset: "set (cand_messages seen ms) \<subseteq> {p \<in> set (all_parts ms). prunable p \<noteq> None}"
proof (induction ms arbitrary: seen)
  case (Cons m ms)
  show ?case
  proof
    fix p
    assume "p \<in> set (cand_messages seen (m # ms))"
    then have "p \<in> set (fst (cand_parts (rev (wp_parts m)))) \<or> (\<exists>n. p \<in> set (cand_messages n ms))"
      by (auto simp: Let_def split: if_splits)
    then show "p \<in> {p \<in> set (all_parts (m # ms)). prunable p \<noteq> None}"
      using Cons.IH cand_parts_subset[of "rev (wp_parts m)"] by auto
  qed
qed simp

lemma cand_parts_distinct: "distinct ps \<Longrightarrow> distinct (fst (cand_parts ps))"
proof (induction ps)
  case (Cons p ps)
  then show ?case using cand_parts_subset[of ps] by (auto split: option.splits)
qed simp

lemma cand_messages_distinct: "distinct (all_parts ms) \<Longrightarrow> distinct (cand_messages seen ms)"
proof (induction ms arbitrary: seen)
  case (Cons m ms)
  have "set (fst (cand_parts (rev (wp_parts m)))) \<inter> set (cand_messages n ms) = {}" for n
    using Cons.prems cand_parts_subset[of "rev (wp_parts m)"] cand_messages_subset[of n ms] by fastforce
  then show ?case using Cons cand_parts_distinct[of "rev (wp_parts m)"] by (auto simp: Let_def)
qed simp

text \<open>A candidate is older than the last two turns.\<close>

lemma cand_messages_old:
  assumes "p \<in> set (cand_messages seen ms)"
  shows "\<exists>newer m older. ms = newer @ m # older \<and> p \<in> set (wp_parts m) \<and> 2 \<le> seen + length (filter is_user (newer @ [m]))"
  using assms
proof (induction ms arbitrary: seen)
  case (Cons m ms)
  let ?seen = "if is_user m then Suc seen else seen"
  show ?case
  proof (cases "p \<in> set (fst (cand_parts (rev (wp_parts m)))) \<and> \<not> ?seen < 2")
    case True
    then have "p \<in> set (wp_parts m)" using cand_parts_subset[of "rev (wp_parts m)"] by auto
    then show ?thesis using True by (intro exI[of _ "[]"] exI[of _ m] exI[of _ ms]) auto
  next
    case False
    then have "p \<in> set (cand_messages ?seen ms)" using Cons.prems by (auto simp: Let_def split: if_splits)
    from Cons.IH[OF this] obtain newer m' older where
      "ms = newer @ m' # older" "p \<in> set (wp_parts m')" "2 \<le> ?seen + length (filter is_user (newer @ [m']))" by blast
    then show ?thesis by (intro exI[of _ "m # newer"] exI[of _ m'] exI[of _ older]) (auto split: if_splits)
  qed
qed simp

lemma prunable_cleared: "prunable p = Some c \<Longrightarrow> prunable (set_compacted now p) = Some (c\<lparr>c_compacted := Some now\<rparr>)"
  by (auto simp: prunable_def set_compacted_def split: part_data.splits part_state.splits if_splits)

abbreviation clear :: "int \<Rightarrow> msg_part set \<Rightarrow> msg_part \<Rightarrow> msg_part" where
  "clear now R p \<equiv> (if p \<in> R then set_compacted now p else p)"

lemma cand_parts_cleared:
  assumes "now \<noteq> 0"
  shows "cand_parts (map (clear now R) ps) =
    (takeWhile (\<lambda>p. p \<notin> R) (fst (cand_parts ps)), snd (cand_parts ps) \<or> (\<exists>p\<in>set (fst (cand_parts ps)). p \<in> R))"
proof (induction ps)
  case (Cons p ps)
  show ?case
  proof (cases "prunable p")
    case None
    have "prunable (set_compacted now p) = None" using None
      by (auto simp: prunable_def set_compacted_def split: part_data.splits part_state.splits if_splits)
    then show ?thesis using Cons None by simp
  next
    case (Some c)
    have "compacted (c\<lparr>c_compacted := Some now\<rparr>)" using assms by (simp add: compacted_def)
    then show ?thesis using Cons Some prunable_cleared[OF Some, of now] by (auto simp: apfst_def map_prod_def split: prod.splits)
  qed
qed simp

lemma takeWhile_append_if: "takeWhile P (xs @ ys) = (if list_all P xs then xs @ takeWhile P ys else takeWhile P xs)"
  by (induction xs) auto

lemma cand_messages_cleared:
  assumes "now \<noteq> 0"
  shows "cand_messages seen (map (\<lambda>m. m\<lparr>wp_parts := map (clear now R) (wp_parts m)\<rparr>) ms) =
    takeWhile (\<lambda>p. p \<notin> R) (cand_messages seen ms)"
proof (induction ms arbitrary: seen)
  case (Cons m ms)
  have same: "is_user (m\<lparr>wp_parts := ps\<rparr>) = is_user m" "is_summary (m\<lparr>wp_parts := ps\<rparr>) = is_summary m" for ps
    by (simp_all add: is_user_def is_summary_def)
  show ?case
    unfolding list.map cand_messages.simps Let_def same with_parts.simps
    using Cons.IH cand_parts_cleared[OF assms, of R "rev (wp_parts m)"]
    by (auto simp: rev_map takeWhile_append_if list_all_iff)
qed simp

lemma set_compacted_keys [simp]:
  "pid (set_compacted now p) = pid p" "psession (set_compacted now p) = psession p"
  "p\<lparr>pdata := pdata (set_compacted now p)\<rparr> = set_compacted now p"
  by (auto simp: set_compacted_def split: part_data.splits part_state.splits)

lemma new_part_clear:
  assumes "distinct (map pid ps)" "set rest \<subseteq> set ps" "q \<in> set ps"
  shows "new_part (map (set_compacted now) rest) q = clear now (set rest) q"
proof (cases "q \<in> set rest")
  case True
  have "\<exists>p. find (\<lambda>p. pid p = pid q) (map (set_compacted now) rest) = Some p"
    using True by (cases "find (\<lambda>p. pid p = pid q) (map (set_compacted now) rest)") (auto simp: find_None_iff)
  then obtain p where f: "find (\<lambda>p. pid p = pid q) (map (set_compacted now) rest) = Some p" by blast
  then have "p \<in> set (map (set_compacted now) rest) \<and> pid p = pid q" unfolding find_Some_iff by (metis nth_mem)
  then obtain p' where "p' \<in> set rest" "p = set_compacted now p'" "pid p' = pid q" by auto
  then have "p = set_compacted now q" using assms by (metis distinct_map inj_on_def subsetD)
  then show ?thesis using True f by (simp add: new_part_def)
next
  case False
  have "find (\<lambda>p. pid p = pid q) (map (set_compacted now) rest) = None"
  proof -
    have "pid p \<noteq> pid q" if "p \<in> set rest" for p
      using that False assms by (metis distinct_map inj_on_def subsetD)
    then show ?thesis by (auto simp: find_None_iff)
  qed
  then show ?thesis using False by (simp add: new_part_def)
qed

abbreviation outputs :: "with_parts list \<Rightarrow> msg_part list" where
  "outputs ms \<equiv> cand_messages 0 (rev ms)"

lemma prune_found_split:
  "\<exists>kept rest. outputs ms = kept @ rest \<and> sum_list (map out_size kept) \<le> PRUNE_PROTECT \<and>
     (rest \<noteq> [] \<longrightarrow> PRUNE_PROTECT < sum_list (map out_size kept) + out_size (hd rest)) \<and>
     ps_parts (prune_found ms) = rest \<and> ps_pruned (prune_found ms) = sum_list (map out_size rest)"
proof -
  have "ps_total \<lparr>ps_total = 0, ps_pruned = 0, ps_parts = []\<rparr> \<le> PRUNE_PROTECT" by (simp add: PRUNE_PROTECT_def)
  from fold_take_split[OF this, of "outputs ms"] show ?thesis
    unfolding prune_found_def prune_messages_fold by auto
qed

lemma prune_run:
  assumes ok: "store_ok st" and own: "list_all (\<lambda>r. \<not> isRust (pw_session r) st) (part_table st)"
    and ms: "messages st s None = Inr ms" and "cfg_prune cfg" "PRUNE_MINIMUM < ps_pruned (prune_found ms)"
  shows "\<exists>st'. prune cfg now s st = Inr st' \<and> store_ok st' \<and>
    messages st' s None = Inr (map (\<lambda>m. m\<lparr>wp_parts := map (clear now (set (ps_parts (prune_found ms)))) (wp_parts m)\<rparr>) ms)"
proof -
  let ?rest = "ps_parts (prune_found ms)" and ?ps = "map (set_compacted now) (ps_parts (prune_found ms))"
  obtain kept where "outputs ms = kept @ ?rest" using prune_found_split[of ms] by blast
  then have sub: "set ?rest \<subseteq> set (all_parts ms)" using cand_messages_subset[of 0 "rev ms"] by auto
  have d: "distinct (map pid (all_parts ms))" and rows: "\<And>p. p \<in> set (all_parts ms) \<Longrightarrow> \<exists>r\<in>set (part_table st). p = part_of r"
    using messages_parts[OF ok ms] by auto
  have "distinct (outputs ms)"
  proof (rule cand_messages_distinct)
    have "distinct (all_parts ms)" using d by (simp add: distinct_map)
    moreover have "mset (all_parts (rev ms)) = mset (all_parts ms)" by (induction ms) (auto simp: ac_simps)
    ultimately show "distinct (all_parts (rev ms))" by (metis mset_eq_imp_distinct_iff)
  qed
  then have "distinct ?rest" using \<open>outputs ms = kept @ ?rest\<close> by simp
  moreover have "inj_on pid (set ?rest)" using d sub by (meson distinct_map inj_on_subset)
  ultimately have "distinct (map pid ?ps)" by (simp add: distinct_map o_def)
  moreover have "set (map pid ?ps) \<subseteq> set (map pw_id (part_table st))"
    using sub rows by (fastforce simp: part_of_def)
  moreover have "list_all (\<lambda>p. \<not> isRust (psession p) st) ?ps"
    using sub rows own by (fastforce simp: list_all_iff part_of_def)
  ultimately obtain st' where st': "update_parts now ?ps st = Inr st'" "session_table st' = session_table st"
    "message_table st' = message_table st" "rustOwned st' = rustOwned st" "part_table st' = map (put_data ?ps) (part_table st)"
    using update_parts_existing by blast
  have ok': "store_ok st'" using ok unfolding store_ok_def st'(2,3,5) by (simp add: o_def)
  have "map (new_part ?ps) (wp_parts m) = map (clear now (set ?rest)) (wp_parts m)" if "m \<in> set ms" for m
    using that by (intro map_cong refl new_part_clear[OF d sub]) auto
  then have "messages st' s None = Inr (map (\<lambda>m. m\<lparr>wp_parts := map (clear now (set ?rest)) (wp_parts m)\<rparr>) ms)"
    unfolding messages_put_data[OF ok ok' st'(3,5) ms] by (intro arg_cong[where f = Inr] map_cong) auto
  then show ?thesis using assms(4,5) st'(1) ok' by (auto simp: prune_def ms Let_def)
qed

lemma takeWhile_before: "takeWhile (\<lambda>p. p \<notin> set r) (k @ r) = takeWhile (\<lambda>p. p \<notin> set r) k"
  by (induction k) (cases r; simp)+


definition example_cfg :: comp_cfg where
  "example_cfg = \<lparr>cfg_auto = None, cfg_reserved = None, cfg_tail_turns = None, cfg_preserve_recent = None, cfg_prune = True\<rparr>"

lemma example_store_messages:
  "messages example_store (js ''ses_1'') None = Inr [\<lparr>wp_info = example_user (js ''msg_1''), wp_parts = []\<rparr>]"
  unfolding messages_ordered[OF reachable_store_ok[OF example_store_reachable]]
  by (simp add: example_store_rows hydrate_def parts_def example_store_sessions(4) msg_row_of_def example_user_def info_of_def)


text \<open>
  Clearing is idempotent: a second run, at any later time, finds nothing to clear and leaves the
  store as it is.
\<close>

theorem prune_idempotent:
  assumes "store_ok st" "list_all (\<lambda>r. \<not> isRust (pw_session r) st) (part_table st)" "now \<noteq> 0"
    "prune cfg now s st = Inr st'"
  shows "prune cfg now' s st' = Inr st'"
proof (cases "cfg_prune cfg")
  case True
  obtain ms where ms: "messages st s None = Inr ms" using messages_ordered[OF assms(1)] by blast
  show ?thesis
  proof (cases "PRUNE_MINIMUM < ps_pruned (prune_found ms)")
    case False
    then have "st' = st" using assms(4) True by (simp add: prune_def ms)
    then show ?thesis using False True by (simp add: prune_def ms)
  next
    case change: True
    let ?R = "set (ps_parts (prune_found ms))"
    let ?ms = "map (\<lambda>m. m\<lparr>wp_parts := map (clear now ?R) (wp_parts m)\<rparr>) ms"
    from prune_run[OF assms(1,2) ms True change, of now] obtain st2 where
      "prune cfg now s st = Inr st2" "messages st2 s None = Inr ?ms" by blast
    moreover from this(1) have "st2 = st'" using assms(4) by simp
    ultimately have ms': "messages st' s None = Inr ?ms" by simp
    obtain kept rest where "outputs ms = kept @ rest" "sum_list (map out_size kept) \<le> PRUNE_PROTECT"
      "ps_parts (prune_found ms) = rest" using prune_found_split[of ms] by (elim exE conjE) (rule that)
    then have kept: "outputs ms = kept @ ps_parts (prune_found ms)" "sum_list (map out_size kept) \<le> PRUNE_PROTECT" by simp_all
    have "outputs ?ms = takeWhile (\<lambda>p. p \<notin> ?R) (outputs ms)"
      unfolding rev_map cand_messages_cleared[OF assms(3)] by simp
    also have "\<dots> = takeWhile (\<lambda>p. p \<notin> ?R) kept"
      unfolding kept(1) by (rule takeWhile_before)
    finally have out: "outputs ?ms = takeWhile (\<lambda>p. p \<notin> ?R) kept" .
    have nn: "0 \<le> sum_list (map out_size xs)" for xs using out_size_nonneg by (intro sum_list_nonneg) auto
    have "sum_list (map out_size (takeWhile P xs)) \<le> sum_list (map out_size xs)" for P xs
      unfolding takeWhile_dropWhile_id[of P xs, THEN arg_cong[where f = "\<lambda>ys. sum_list (map out_size ys)"], symmetric] map_append sum_list_append
      using nn[of "dropWhile P xs"] by simp
    then have small: "sum_list (map out_size (outputs ?ms)) \<le> PRUNE_PROTECT"
      using kept(2) unfolding out by (meson order_trans)
    obtain k r where kr: "outputs ?ms = k @ r" "r \<noteq> [] \<longrightarrow> PRUNE_PROTECT < sum_list (map out_size k) + out_size (hd r)"
      "ps_pruned (prune_found ?ms) = sum_list (map out_size r)"
      using prune_found_split[of ?ms] by (elim exE conjE) (rule that)
    have "r = []"
    proof (rule ccontr)
      assume "r \<noteq> []"
      then obtain x xs where r: "r = x # xs" by (cases r) auto
      have "0 \<le> sum_list (map out_size xs)" using out_size_nonneg by (intro sum_list_nonneg) auto
      then show False using small kr(1,2) r by simp
    qed
    then have "ps_pruned (prune_found ?ms) = 0" using kr(3) by simp
    then show ?thesis using True by (simp add: prune_def ms' PRUNE_MINIMUM_def)
  qed
next
  case False
  then show ?thesis using assms(4) by (simp add: prune_def)
qed

theorem prune_idempotent_witness:
  "prune example_cfg 6 (js ''ses_1'') example_store = Inr example_store"
proof -
  have "prune example_cfg 5 (js ''ses_1'') example_store = Inr example_store"
    by (simp add: prune_def example_store_messages prune_found_def Let_def PRUNE_MINIMUM_def)
  then show ?thesis
    using prune_idempotent[OF reachable_store_ok[OF example_store_reachable], of 5 example_cfg "js ''ses_1''" example_store 6]
    by (simp add: example_store_sessions(4))
qed

end
