(* ===== verification/Summary.thy ===== *)
theory Summary
  imports Session_Store Encode
begin

text \<open>
  Summaries of the changes of a session, \<open>session/summary.ts\<close>: the range of snapshots that is
  compared, the totals kept with a session and a message, and the names of files as git prints them.

  Snapshots (calls of git), the stored list of changes and the indexes refreshed after a rollback
  are services on a world outside the tables; a record holds what the code calls. An error of a
  service is its message.
\<close>

section \<open>Services\<close>

record file_diff =
  fd_file :: jstring
  fd_patch :: jstring
  fd_additions :: int
  fd_deletions :: int
  fd_status :: "jstring option"

record 'w services =
  track :: "'w \<Rightarrow> jstring option \<times> 'w"
  hasUncommitted :: "jstring option \<Rightarrow> 'w \<Rightarrow> bool"
  restore :: "jstring \<Rightarrow> 'w \<Rightarrow> (jstring + jstring list) \<times> 'w"
  snap_revert :: "(jstring \<times> jstring list) list \<Rightarrow> 'w \<Rightarrow> (jstring + jstring list) \<times> 'w"
  snap_diff :: "jstring \<Rightarrow> 'w \<Rightarrow> jstring"
  diffFull :: "jstring \<Rightarrow> jstring \<Rightarrow> 'w \<Rightarrow> jstring + file_diff list"
  write_diffs :: "jstring \<Rightarrow> file_diff list \<Rightarrow> 'w \<Rightarrow> 'w"
  read_diffs :: "jstring \<Rightarrow> 'w \<Rightarrow> file_diff list option"
  refresh :: "jstring list \<Rightarrow> 'w \<Rightarrow> 'w"

definition diff_json :: "file_diff \<Rightarrow> json" where
  "diff_json d = JObj
     ([(js ''file'', JStr (fd_file d)), (js ''patch'', JStr (fd_patch d)), (js ''additions'', JNum (fd_additions d)),
       (js ''deletions'', JNum (fd_deletions d))] @
      (case fd_status d of Some s \<Rightarrow> [(js ''status'', JStr s)] | None \<Rightarrow> []))"

section \<open>File names\<close>

definition octal :: "nat \<Rightarrow> bool" where
  "octal c \<longleftrightarrow> 48 \<le> c \<and> c \<le> 55"

definition parse_octal :: "jstring \<Rightarrow> nat" where
  "parse_octal ds = foldl (\<lambda>n c. 8 * n + (c - 48)) 0 ds"

definition escaped :: "nat \<Rightarrow> nat" where
  "escaped c = (if c = 110 then 10 else if c = 114 then 13 else if c = 116 then 9 else if c = 98 then 8
     else if c = 102 then 12 else if c = 118 then 11 else c)"

function unquote_loop :: "jstring \<Rightarrow> nat list" where
  "unquote_loop [] = []"
| "unquote_loop (c # s) =
     (if c \<noteq> 92 then c # unquote_loop s
      else if s = [] then [92]
      else if octal (hd s) then
        (let m = takeWhile octal (take 3 s) in parse_octal m # unquote_loop (drop (length m) s))
      else escaped (hd s) # unquote_loop (tl s))"
  by pat_completeness auto
termination by (relation "measure length") (auto simp: less_Suc_eq_le)

text \<open>\<open>Buffer.from(bytes).toString()\<close>: values are taken modulo 256, a byte order mark is kept.\<close>

definition buffer_string :: "nat list \<Rightarrow> jstring" where
  "buffer_string bs = concat (map utf16 (utf8_decode 0 0 128 191 (map (\<lambda>b. b mod 256) bs)))"

definition unquoteGitPath :: "jstring \<Rightarrow> jstring" where
  "unquoteGitPath input =
     (if \<not> startsWith input [34] then input
      else if \<not> endsWith input [34] then input
      else buffer_string (unquote_loop (dropEnd 1 (drop 1 input))))"

section \<open>Changes between snapshots\<close>

fun find_start :: "msg_part list \<Rightarrow> jstring option" where
  "find_start [] = None"
| "find_start (p # ps) =
     (case pdata p of StepStartData snap \<Rightarrow> if truthy snap then snap else find_start ps | _ \<Rightarrow> find_start ps)"

definition last_finish :: "jstring option \<Rightarrow> msg_part list \<Rightarrow> jstring option" where
  "last_finish to ps =
     foldl (\<lambda>to p. case pdata p of StepFinishData _ snap \<Rightarrow> if truthy snap then snap else to | _ \<Rightarrow> to) to ps"

fun diff_range :: "with_parts list \<Rightarrow> jstring option \<Rightarrow> jstring option \<Rightarrow> jstring option \<times> jstring option" where
  "diff_range [] from to = (from, to)"
| "diff_range (m # ms) from to =
     diff_range ms (if truthy from then from else find_start (wp_parts m)) (last_finish to (wp_parts m))"

definition computeDiff :: "'w services \<Rightarrow> with_parts list \<Rightarrow> 'w \<Rightarrow> jstring + file_diff list" where
  "computeDiff svc ms w =
     (case diff_range ms None None of
        (Some from, Some to) \<Rightarrow> diffFull svc from to w
      | _ \<Rightarrow> Inr [])"

definition totals :: "file_diff list \<Rightarrow> summary_patch" where
  "totals ds = \<lparr>sp_additions = sum_list (map fd_additions ds), sp_deletions = sum_list (map fd_deletions ds),
                sp_files = int (length ds), sp_diffs = Absent\<rparr>"

definition summary_with :: "file_diff list \<Rightarrow> json option \<Rightarrow> json" where
  "summary_with ds old =
     JObj (jmap_set (js ''diffs'') (JArr (map diff_json ds)) (case old of Some (JObj kvs) \<Rightarrow> kvs | _ \<Rightarrow> []))"

definition summarize ::
  "'w services \<Rightarrow> int \<Rightarrow> jstring \<Rightarrow> jstring \<Rightarrow> store \<times> 'w \<Rightarrow> (store_error + unit) \<times> store \<times> 'w" where
  "summarize svc now s m = (\<lambda>(st, w).
     case messages st s None of
       Inl e \<Rightarrow> (Inl e, st, w)
     | Inr all \<Rightarrow>
         if all = [] then (Inr (), st, w)
         else case computeDiff svc all w of
           Inl _ \<Rightarrow> (Inr (), st, w)
         | Inr diffs \<Rightarrow>
             (case setSummary now s (Some (totals diffs)) st of
                Inl e \<Rightarrow> (Inl e, st, w)
              | Inr st1 \<Rightarrow>
                  (let w1 = write_diffs svc s diffs w;
                       st2 = publish (SessionDiff s (JArr (map diff_json diffs))) st1;
                       ms = filter (\<lambda>x. msg_id x = m \<or>
                         (case mdata (wp_info x) of AssistantData a \<Rightarrow> a_parentID a = m | UserData _ \<Rightarrow> False)) all
                   in case find (\<lambda>x. msg_id x = m) ms of
                        None \<Rightarrow> (Inr (), st2, w1)
                      | Some target \<Rightarrow>
                          (case mdata (wp_info target) of
                             AssistantData _ \<Rightarrow> (Inr (), st2, w1)
                           | UserData u \<Rightarrow>
                               (let msgDiffs = (case computeDiff svc ms w1 of Inl _ \<Rightarrow> [] | Inr ds \<Rightarrow> ds);
                                    i = (wp_info target)\<lparr>mdata := UserData (u\<lparr>u_summary := Some (summary_with msgDiffs (u_summary u))\<rparr>)\<rparr>
                                in case updateMessage i st2 of
                                     Inl e \<Rightarrow> (Inl e, st2, w1)
                                   | Inr st3 \<Rightarrow> (Inr (), st3, w1))))))"

definition session_diff :: "'w services \<Rightarrow> jstring \<Rightarrow> 'w \<Rightarrow> file_diff list \<times> 'w" where
  "session_diff svc s w =
     (let diffs = (case read_diffs svc s w of Some ds \<Rightarrow> ds | None \<Rightarrow> []);
          nxt = map (\<lambda>d. d\<lparr>fd_file := unquoteGitPath (fd_file d)\<rparr>) diffs
      in (nxt, if map fd_file nxt \<noteq> map fd_file diffs then write_diffs svc s nxt w else w))"

section \<open>The range covers the messages\<close>

text \<open>The snapshots at the starts and at the ends of steps, in order.\<close>

definition starts :: "with_parts list \<Rightarrow> jstring list" where
  "starts ms = concat (map (\<lambda>p. case pdata p of StepStartData (Some s) \<Rightarrow> if s = [] then [] else [s] | _ \<Rightarrow> []) (concat (map wp_parts ms)))"

definition finishes :: "with_parts list \<Rightarrow> jstring list" where
  "finishes ms = concat (map (\<lambda>p. case pdata p of StepFinishData _ (Some s) \<Rightarrow> if s = [] then [] else [s] | _ \<Rightarrow> []) (concat (map wp_parts ms)))"

definition first :: "'a list \<Rightarrow> 'a option" where
  "first xs = (case xs of [] \<Rightarrow> None | x # _ \<Rightarrow> Some x)"

lemma find_start_first: "find_start ps = first (starts [\<lparr>wp_info = i, wp_parts = ps\<rparr>])"
  by (induction ps) (auto simp: starts_def first_def truthy_def split: part_data.splits option.splits)

lemma starts_Cons: "starts (m # ms) = starts [m] @ starts ms"
  by (simp add: starts_def)

lemma finishes_Cons: "finishes (m # ms) = finishes [m] @ finishes ms"
  by (simp add: finishes_def)

lemma last_finish_last:
  "last_finish to ps = (case rev (finishes [\<lparr>wp_info = i, wp_parts = ps\<rparr>]) of [] \<Rightarrow> to | s # _ \<Rightarrow> Some s)"
proof (induction ps rule: rev_induct)
  case (snoc p ps)
  then show ?case
    by (auto simp: last_finish_def finishes_def truthy_def split: part_data.splits option.splits)
qed (simp add: last_finish_def finishes_def)

lemma starts_truthy: "s \<in> set (starts ms) \<Longrightarrow> s \<noteq> []"
  by (auto simp: starts_def split: part_data.splits option.splits if_splits)

lemma diff_range_eq:
  "diff_range ms a b =
     ((if truthy a then a else case first (starts ms) of Some s \<Rightarrow> Some s | None \<Rightarrow> if ms = [] then a else None),
      (case rev (finishes ms) of [] \<Rightarrow> b | s # _ \<Rightarrow> Some s))"
proof (induction ms arbitrary: a b)
  case (Cons m ms)
  have f: "find_start (wp_parts m) = first (starts [m])" "last_finish b (wp_parts m) = (case rev (finishes [m]) of [] \<Rightarrow> b | s # _ \<Rightarrow> Some s)"
    using find_start_first[of "wp_parts m" "wp_info m"] last_finish_last[of b "wp_parts m" "wp_info m"]
    by (simp_all add: starts_def finishes_def)
  have t: "truthy (first (starts [m])) \<longleftrightarrow> starts [m] \<noteq> []"
    using starts_truthy[of _ "[m]"] by (cases "starts [m]") (auto simp: first_def truthy_def)
  show ?case
    unfolding diff_range.simps Cons.IH f starts_Cons[of m ms] finishes_Cons[of m ms] rev_append using t
    by (auto simp: first_def split: list.splits)
qed (simp add: starts_def finishes_def first_def truthy_def)

text \<open>
  The changes of a list of messages are those between the snapshot at the first start of a step in
  them and the one at the last end of a step; without both there are none.
\<close>

lemma computeDiff_range:
  "computeDiff svc ms w =
     (if starts ms = [] \<or> finishes ms = [] then Inr [] else diffFull svc (hd (starts ms)) (last (finishes ms)) w)"
proof -
  obtain xs ys where s: "starts ms = xs" "finishes ms = ys" by simp
  show ?thesis
    unfolding computeDiff_def diff_range_eq s
    by (cases xs; cases ys rule: rev_cases) (auto simp: first_def truthy_def)
qed

section \<open>Names are read back\<close>

text \<open>
  How git prints a name that needs quoting, with \<open>core.quotepath\<close> on: bytes outside printable ASCII
  as three octal digits, unless they have a letter of their own.
\<close>

definition git_escape :: "nat \<Rightarrow> jstring" where
  "git_escape b =
     (if b = 34 \<or> b = 92 then [92, b] else if b = 7 then [92, 97] else if b = 8 then [92, 98]
      else if b = 9 then [92, 116] else if b = 10 then [92, 110] else if b = 11 then [92, 118]
      else if b = 12 then [92, 102] else if b = 13 then [92, 114]
      else if b < 32 \<or> 127 \<le> b then [92, 48 + b div 64, 48 + b div 8 mod 8, 48 + b mod 8] else [b])"

definition git_quote :: "jstring \<Rightarrow> jstring" where
  "git_quote p = [34] @ concat (map git_escape (text_encode p)) @ [34]"

lemma octal_digits: "b < 256 \<Longrightarrow> b div 64 * 64 + b div 8 mod 8 * 8 + b mod 8 = b" for b :: nat
proof -
  have "b div 8 = b div 64 * 8 + b div 8 mod 8" using div_mult_mod_eq[of "b div 8" 8] by (simp add: div_mult2_eq[symmetric])
  then show ?thesis using div_mult_mod_eq[of b 8] by linarith
qed

lemma unquote_octal:
  assumes "b < 256"
  shows "unquote_loop (92 # (48 + b div 64) # (48 + b div 8 mod 8) # (48 + b mod 8) # s) = b # unquote_loop s"
proof -
  have "b div 64 \<le> 7" "b div 8 mod 8 \<le> 7" "b mod 8 \<le> 7" using assms by (auto simp: less_Suc_eq_le[symmetric])
  then have "takeWhile octal (take 3 ((48 + b div 64) # (48 + b div 8 mod 8) # (48 + b mod 8) # s)) =
      [48 + b div 64, 48 + b div 8 mod 8, 48 + b mod 8]" "octal (48 + b div 64)"
    by (simp_all add: octal_def numeral_3_eq_3)
  moreover have "parse_octal [48 + b div 64, 48 + b div 8 mod 8, 48 + b mod 8] = b"
    using octal_digits[OF assms] by (simp add: parse_octal_def algebra_simps)
  ultimately show ?thesis by (simp add: Let_def numeral_3_eq_3)
qed

lemma unquote_escape: "b < 256 \<Longrightarrow> b \<noteq> 7 \<Longrightarrow> unquote_loop (git_escape b @ s) = b # unquote_loop s"
  using unquote_octal[of b s]
  by (auto simp: git_escape_def escaped_def octal_def)

lemma unquote_all: "list_all (\<lambda>b. b < 256 \<and> b \<noteq> 7) bs \<Longrightarrow> unquote_loop (concat (map git_escape bs)) = bs"
  by (induction bs) (auto simp: unquote_escape)

lemma utf8_no_bell: "p \<noteq> 7 \<Longrightarrow> 7 \<notin> set (utf8 p)"
  by (auto simp: utf8_def)

lemma code_points_no_bell: "7 \<notin> set s \<Longrightarrow> 7 \<notin> set (code_points s)"
  by (induction s rule: code_points.induct) auto



text \<open>
  Snapshots run git with \<open>core.quotepath\<close> off: only names with quotes or control characters are
  quoted, and other characters in them are printed as they are. Such a name is not read back. Nor is
  the escape for the bell character.
\<close>

lemma unquote_plain_character_lost: "unquoteGitPath [34, 25991, 92, 116, 34] = [65533, 9]"
  by (simp add: unquoteGitPath_def startsWith_def endsWith_def dropEnd_def buffer_string_def octal_def escaped_def utf16_def)

lemma unquote_bell_lost: "unquoteGitPath [34, 92, 97, 34] = [97]"
  by (simp add: unquoteGitPath_def startsWith_def endsWith_def dropEnd_def buffer_string_def octal_def escaped_def utf16_def)

end
