(* ===== verification/Revert.thy ===== *)
theory Revert
  imports Summary
begin

text \<open>
  Rolling a session back, \<open>session/revert.ts\<close>: the point to go back to and the changes after it,
  the rollback of the worktree, its undoing, and the removal of what was rolled back before the next
  prompt. Snapshots, stored changes and indexes are the services of theory \<open>Summary\<close>; whether the
  session is running comes from the runner.
\<close>

section \<open>The point to go back to\<close>

definition is_text_or_tool :: "msg_part \<Rightarrow> bool" where
  "is_text_or_tool p = (case pdata p of TextData _ \<Rightarrow> True | ToolData _ \<Rightarrow> True | _ \<Rightarrow> False)"

definition patch_of :: "msg_part \<Rightarrow> (jstring \<times> jstring list) list" where
  "patch_of p = (case pdata p of PatchData hash fs \<Rightarrow> [(hash, fs)] | _ \<Rightarrow> [])"

record scan =
  sc_rev :: "revert_info option"
  sc_patches :: "(jstring \<times> jstring list) list"
  sc_lastUser :: "jstring option"

definition hits :: "jstring \<Rightarrow> jstring option \<Rightarrow> jstring \<Rightarrow> msg_part \<Rightarrow> bool" where
  "hits messageID partID m p \<longleftrightarrow> (m = messageID \<and> \<not> truthy partID) \<or> Some (pid p) = partID"

fun scan_parts :: "jstring \<Rightarrow> jstring option \<Rightarrow> jstring \<Rightarrow> msg_part list \<Rightarrow> msg_part list \<Rightarrow> scan \<Rightarrow> scan" where
  "scan_parts messageID partID m seen [] s = s"
| "scan_parts messageID partID m seen (p # ps) s =
     (if sc_rev s \<noteq> None then scan_parts messageID partID m seen ps (s\<lparr>sc_patches := sc_patches s @ patch_of p\<rparr>)
      else
        (let s' = (if hits messageID partID m p then
                     (let part = (if list_ex is_text_or_tool seen then partID else None)
                      in s\<lparr>sc_rev := Some \<lparr>rv_message =
                            (case sc_lastUser s of Some u \<Rightarrow> if \<not> truthy part then u else m | None \<Rightarrow> m),
                            rv_part = part, rv_snapshot = None, rv_diff = None\<rparr>\<rparr>)
                   else s)
         in scan_parts messageID partID m (seen @ [p]) ps s'))"

definition scan_message :: "jstring \<Rightarrow> jstring option \<Rightarrow> with_parts \<Rightarrow> scan \<Rightarrow> scan" where
  "scan_message messageID partID m s =
     scan_parts messageID partID (msg_id m) [] (wp_parts m) (if is_user m then s\<lparr>sc_lastUser := Some (msg_id m)\<rparr> else s)"

definition revert_scan :: "jstring \<Rightarrow> jstring option \<Rightarrow> with_parts list \<Rightarrow> scan" where
  "revert_scan messageID partID all =
     fold (scan_message messageID partID) all \<lparr>sc_rev = None, sc_patches = [], sc_lastUser = None\<rparr>"

section \<open>Files named by a change\<close>

text \<open>\<open>/^diff --git a\/(.+?) b\//gm\<close>: on every line that starts so, the shortest name before \<open> b/\<close>.\<close>

fun lines_of :: "jstring \<Rightarrow> jstring list" where
  "lines_of [] = [[]]"
| "lines_of (c # s) = (if line_end c then [] # lines_of s
     else case lines_of s of l # ls \<Rightarrow> (c # l) # ls | [] \<Rightarrow> [[c]])"

fun upto_target :: "jstring \<Rightarrow> jstring \<Rightarrow> jstring option" where
  "upto_target acc [] = None"
| "upto_target acc (c # s) =
     (if acc \<noteq> [] \<and> startsWith (c # s) (js '' b/'') then Some acc else upto_target (acc @ [c]) s)"

definition diff_files :: "jstring \<Rightarrow> jstring list" where
  "diff_files d =
     concat (map (\<lambda>l. if startsWith l (js ''diff --git a/'')
                      then (case upto_target [] (drop 13 l) of Some f \<Rightarrow> [f] | None \<Rightarrow> []) else [])
       (lines_of d))"

definition affected_files :: "(jstring \<times> jstring list) list \<Rightarrow> jstring option \<Rightarrow> jstring list" where
  "affected_files patches d =
     rev (remdups (rev (concat (map snd patches) @ (case d of Some t \<Rightarrow> if t = [] then [] else diff_files t | None \<Rightarrow> []))))"

definition refreshAuxIndexesAfterRevert :: "'w services \<Rightarrow> jstring list \<Rightarrow> 'w \<Rightarrow> 'w" where
  "refreshAuxIndexesAfterRevert svc fs w = (if fs = [] then w else refresh svc fs w)"

section \<open>Operations\<close>

datatype revert_error = Busy jstring | Uncommitted | ServiceFailed jstring | StoreFailed store_error

text \<open>The result of a rollback is the session and the files that could not be rolled back.\<close>

type_synonym 'w revert_result = "(revert_error + session_info \<times> jstring list) \<times> store \<times> 'w"

definition session_snapshot :: "session_info \<Rightarrow> jstring option" where
  "session_snapshot i = (case si_revert i of Some r \<Rightarrow> rv_snapshot r | None \<Rightarrow> None)"

definition rollback :: "'w services \<Rightarrow> jstring option \<Rightarrow> (jstring \<times> jstring list) list \<Rightarrow> 'w \<Rightarrow> (jstring + jstring list) \<times> 'w" where
  "rollback svc baseline patches w =
     (case (if truthy baseline then restore svc (the baseline) w else (Inr [], w)) of
        (Inl e, w1) \<Rightarrow> (Inl e, w1)
      | (Inr failed, w1) \<Rightarrow>
          (case snap_revert svc patches w1 of
             (Inl e, w2) \<Rightarrow> (Inl e, w2)
           | (Inr failed', w2) \<Rightarrow> (Inr (failed @ failed'), w2)))"

definition finish_revert ::
  "'w services \<Rightarrow> int \<Rightarrow> jstring \<Rightarrow> with_parts list \<Rightarrow> (jstring \<times> jstring list) list \<Rightarrow> revert_info \<Rightarrow> jstring list \<Rightarrow>
   store \<Rightarrow> 'w \<Rightarrow> 'w revert_result" where
  "finish_revert svc now s all patches rv failed st w =
     (case computeDiff svc (filter (\<lambda>m. msg_id m \<ge> rv_message rv) all) w of
        Inl e \<Rightarrow> (Inl (ServiceFailed e), st, w)
      | Inr diffs \<Rightarrow>
          (let w1 = write_diffs svc s diffs w;
               st1 = publish (SessionDiff s (JArr (map diff_json diffs))) st;
               w2 = refreshAuxIndexesAfterRevert svc (affected_files patches (rv_diff rv)) w1
           in case setRevert now s (Some rv) (Some (totals diffs)) st1 of
                Inl e \<Rightarrow> (Inl (StoreFailed e), st1, w2)
              | Inr st2 \<Rightarrow>
                  (case get_session st2 s of
                     Inl e \<Rightarrow> (Inl (StoreFailed e), st2, w2)
                   | Inr i \<Rightarrow> (Inr (i, failed), st2, w2))))"

definition revert ::
  "'w services \<Rightarrow> bool \<Rightarrow> int \<Rightarrow> jstring \<Rightarrow> jstring \<Rightarrow> jstring option \<Rightarrow> store \<Rightarrow> 'w \<Rightarrow> 'w revert_result" where
  "revert svc busy now s messageID partID st w =
     (if busy then (Inl (Busy s), st, w)
      else case messages st s None of
        Inl e \<Rightarrow> (Inl (StoreFailed e), st, w)
      | Inr all \<Rightarrow>
          (case get_session st s of
             Inl e \<Rightarrow> (Inl (StoreFailed e), st, w)
           | Inr session \<Rightarrow>
               (let sc = revert_scan messageID partID all; patches = sc_patches sc; baseline = session_snapshot session
                in case sc_rev sc of
                     None \<Rightarrow> (Inr (session, []), st, w)
                   | Some rv \<Rightarrow>
                       (let (snap, w1) = (case baseline of Some h \<Rightarrow> (Some h, w) | None \<Rightarrow> track svc w)
                        in if (truthy baseline \<or> patches \<noteq> []) \<and> hasUncommitted svc snap w1
                           then (Inl Uncommitted, st, w1)
                           else case rollback svc baseline patches w1 of
                             (Inl e, w2) \<Rightarrow> (Inl (ServiceFailed e), st, w2)
                           | (Inr failed, w2) \<Rightarrow>
                               finish_revert svc now s all patches
                                 (rv\<lparr>rv_snapshot := snap, rv_diff := (if truthy snap then Some (snap_diff svc (the snap) w2) else None)\<rparr>)
                                 failed st w2))))"

definition unrevert :: "'w services \<Rightarrow> bool \<Rightarrow> int \<Rightarrow> jstring \<Rightarrow> store \<Rightarrow> 'w \<Rightarrow> 'w revert_result" where
  "unrevert svc busy now s st w =
     (if busy then (Inl (Busy s), st, w)
      else case get_session st s of
        Inl e \<Rightarrow> (Inl (StoreFailed e), st, w)
      | Inr session \<Rightarrow>
          (if si_revert session = None then (Inr (session, []), st, w)
           else case (if truthy (session_snapshot session) then restore svc (the (session_snapshot session)) w else (Inr [], w)) of
             (Inl e, w1) \<Rightarrow> (Inl (ServiceFailed e), st, w1)
           | (Inr failed, w1) \<Rightarrow>
               (case clearRevert now s st of
                  Inl e \<Rightarrow> (Inl (StoreFailed e), st, w1)
                | Inr st1 \<Rightarrow>
                    (case get_session st1 s of
                       Inl e \<Rightarrow> (Inl (StoreFailed e), st1, w1)
                     | Inr i \<Rightarrow> (Inr (i, failed), st1, w1)))))"

text \<open>The messages to remove, and the one to cut.\<close>

definition removed_messages :: "revert_info \<Rightarrow> with_parts list \<Rightarrow> with_parts list" where
  "removed_messages r ms =
     filter (\<lambda>m. msg_id m > rv_message r \<or> (msg_id m = rv_message r \<and> \<not> truthy (rv_part r))) ms"

definition cut_message :: "revert_info \<Rightarrow> with_parts list \<Rightarrow> with_parts option" where
  "cut_message r ms = findLast (\<lambda>m. msg_id m = rv_message r \<and> truthy (rv_part r)) ms"

definition removed_parts :: "jstring option \<Rightarrow> msg_part list \<Rightarrow> msg_part list" where
  "removed_parts partID ps = dropWhile (\<lambda>p. Some (pid p) \<noteq> partID) ps"

definition cleanup :: "(jstring \<Rightarrow> store \<Rightarrow> store) \<Rightarrow> int \<Rightarrow> session_info \<Rightarrow> store \<Rightarrow> store_error + store" where
  "cleanup sidecar now session st =
     (case si_revert session of
        None \<Rightarrow> Inr st
      | Some r \<Rightarrow>
          (case messages st (si_id session) None of
             Inl e \<Rightarrow> Inl e
           | Inr ms \<Rightarrow>
               (let st1 = fold (\<lambda>m st. removeMessage sidecar (si_id session) (msg_id m) st) (removed_messages r ms) st;
                    st2 = (case cut_message r ms of
                             None \<Rightarrow> st1
                           | Some t \<Rightarrow> fold (\<lambda>p st. removePart sidecar (si_id session) (msg_id t) (pid p) st)
                                         (removed_parts (rv_part r) (wp_parts t)) st1)
                in clearRevert now (si_id session) st2)))"

section \<open>What the removal leaves\<close>

definition gone :: "jstring set \<Rightarrow> jstring \<Rightarrow> store \<Rightarrow> jstring set" where
  "gone I s st = set (map mw_id (filter (\<lambda>r. mw_id r \<in> I \<and> mw_session r = s) (message_table st)))"

lemma gone_iff: "i \<in> gone I s st \<longleftrightarrow> (\<exists>r\<in>set (message_table st). mw_id r = i \<and> i \<in> I \<and> mw_session r = s)"
  by (auto simp: gone_def)

abbreviation remove_messages :: "(jstring \<Rightarrow> store \<Rightarrow> store) \<Rightarrow> jstring \<Rightarrow> with_parts list \<Rightarrow> store \<Rightarrow> store" where
  "remove_messages sidecar s ms \<equiv> fold (\<lambda>m st. removeMessage sidecar s (msg_id m) st) ms"

abbreviation remove_parts :: "(jstring \<Rightarrow> store \<Rightarrow> store) \<Rightarrow> jstring \<Rightarrow> jstring \<Rightarrow> msg_part list \<Rightarrow> store \<Rightarrow> store" where
  "remove_parts sidecar s m ps \<equiv> fold (\<lambda>p st. removePart sidecar s m (pid p) st) ps"

lemma remove_messages_tables:
  assumes "\<not> isRust s st"
  shows "message_table (remove_messages sc s ms st) =
      filter (\<lambda>r. \<not> (mw_id r \<in> set (map msg_id ms) \<and> mw_session r = s)) (message_table st)"
    "part_table (remove_messages sc s ms st) = filter (\<lambda>p. pw_message p \<notin> gone (set (map msg_id ms)) s st) (part_table st)"
    "session_table (remove_messages sc s ms st) = session_table st" "rustOwned (remove_messages sc s ms st) = rustOwned st"
proof -
  have "message_table (remove_messages sc s ms st) =
      filter (\<lambda>r. \<not> (mw_id r \<in> set (map msg_id ms) \<and> mw_session r = s)) (message_table st) \<and>
    part_table (remove_messages sc s ms st) = filter (\<lambda>p. pw_message p \<notin> gone (set (map msg_id ms)) s st) (part_table st) \<and>
    session_table (remove_messages sc s ms st) = session_table st \<and> rustOwned (remove_messages sc s ms st) = rustOwned st"
    using assms
  proof (induction ms arbitrary: st)
    case (Cons m ms)
    let ?st = "removeMessage sc s (msg_id m) st"
    have st: "message_table ?st = filter (\<lambda>r. \<not> (mw_id r = msg_id m \<and> mw_session r = s)) (message_table st)"
      "part_table ?st = filter (\<lambda>p. pw_message p \<notin> gone {msg_id m} s st) (part_table st)"
      "session_table ?st = session_table st" "rustOwned ?st = rustOwned st"
      using Cons.prems by (simp_all add: removeMessage_def project_message_removed_def delete_messages_def gone_def)
    have g: "gone (set (map msg_id (m # ms))) s st = gone {msg_id m} s st \<union> gone (set (map msg_id ms)) s ?st"
      by (intro set_eqI) (auto simp: gone_iff st(1))
    have "\<not> isRust s ?st" using Cons.prems by (simp add: isRust_def st(4))
    from Cons.IH[OF this] show ?case unfolding g by (auto simp: st intro: filter_cong)
  qed (simp add: gone_def)
  then show "message_table (remove_messages sc s ms st) =
      filter (\<lambda>r. \<not> (mw_id r \<in> set (map msg_id ms) \<and> mw_session r = s)) (message_table st)"
    "part_table (remove_messages sc s ms st) = filter (\<lambda>p. pw_message p \<notin> gone (set (map msg_id ms)) s st) (part_table st)"
    "session_table (remove_messages sc s ms st) = session_table st" "rustOwned (remove_messages sc s ms st) = rustOwned st"
    by blast+
qed

lemma remove_messages_ok: "\<not> isRust s st \<Longrightarrow> store_ok st \<Longrightarrow> store_ok (remove_messages sc s ms st)"
proof (induction ms arbitrary: st)
  case (Cons m ms)
  then have "store_ok (removeMessage sc s (msg_id m) st)" by (simp add: removeMessage_def project_message_removed_ok)
  moreover have "\<not> isRust s (removeMessage sc s (msg_id m) st)"
    using remove_messages_tables(4)[OF Cons.prems(1), of sc "[m]"] Cons.prems(1) by (simp add: isRust_def)
  ultimately show ?case using Cons.IH by simp
qed simp

lemma removed_messages_read:
  assumes "store_ok st" "\<not> isRust s st" "messages st s' None = Inr ms"
  shows "messages (remove_messages sc s xs st) s' None =
    Inr (if s' = s then filter (\<lambda>m. msg_id m \<notin> set (map msg_id xs)) ms else ms)"
proof -
  let ?st = "remove_messages sc s xs st" and ?I = "set (map msg_id xs)"
  let ?rs = "sort_key msg_key (filter (\<lambda>r. mw_session r = s') (message_table st))"
  have ms: "ms = hydrate st ?rs" using assms(1,3) messages_ordered by auto
  have rows: "sort_key msg_key (filter (\<lambda>r. mw_session r = s') (message_table ?st)) =
      filter (\<lambda>r. \<not> (mw_id r \<in> ?I \<and> s' = s)) ?rs"
    unfolding remove_messages_tables[OF assms(2)] filter_sort by (auto simp: conj_commute intro!: arg_cong[where f = "sort_key msg_key"] filter_cong)
  have "parts ?st (mw_id r) = parts st (mw_id r)" if r: "r \<in> set ?rs" "\<not> (mw_id r \<in> ?I \<and> s' = s)" for r
  proof -
    have "mw_id r \<notin> gone ?I s st"
    proof
      assume "mw_id r \<in> gone ?I s st"
      then obtain r' where "r' \<in> set (message_table st)" "mw_id r' = mw_id r" "mw_id r \<in> ?I" "mw_session r' = s"
        by (auto simp: gone_def)
      moreover have "r \<in> set (message_table st)" "mw_session r = s'" using r(1) by auto
      ultimately show False using assms(1) r(2) by (auto simp: store_ok_def distinct_map inj_on_def)
    qed
    then have "filter (\<lambda>p. pw_message p = mw_id r) (part_table ?st) = filter (\<lambda>p. pw_message p = mw_id r) (part_table st)"
      unfolding remove_messages_tables[OF assms(2)] by (auto intro: filter_cong)
    then show ?thesis by (simp add: parts_def)
  qed
  then have "messages ?st s' None = Inr (hydrate st (filter (\<lambda>r. \<not> (mw_id r \<in> ?I \<and> s' = s)) ?rs))"
    unfolding messages_ordered[OF remove_messages_ok[OF assms(2,1)]] rows by (auto simp: hydrate_def)
  then show ?thesis unfolding ms by (auto simp: hydrate_def filter_map o_def info_of_def)
qed

lemma remove_parts_tables:
  "\<not> isRust s st \<Longrightarrow> message_table (remove_parts sc s m ps st) = message_table st \<and>
    part_table (remove_parts sc s m ps st) = filter (\<lambda>r. \<not> (pw_id r \<in> set (map pid ps) \<and> pw_session r = s)) (part_table st) \<and>
    session_table (remove_parts sc s m ps st) = session_table st \<and> rustOwned (remove_parts sc s m ps st) = rustOwned st"
proof (induction ps arbitrary: st)
  case (Cons p ps)
  let ?st = "removePart sc s m (pid p) st"
  have st: "message_table ?st = message_table st" "session_table ?st = session_table st" "rustOwned ?st = rustOwned st"
    "part_table ?st = filter (\<lambda>r. \<not> (pw_id r = pid p \<and> pw_session r = s)) (part_table st)"
    using Cons.prems by (simp_all add: removePart_def project_part_removed_def)
  have "\<not> isRust s ?st" using Cons.prems by (simp add: isRust_def st(3))
  from Cons.IH[OF this] show ?case by (auto simp: st intro: filter_cong)
qed simp

lemma remove_parts_ok: "\<not> isRust s st \<Longrightarrow> store_ok st \<Longrightarrow> store_ok (remove_parts sc s m ps st)"
  using remove_parts_tables[of s st sc m ps] by (auto simp: store_ok_def distinct_map_filter')

lemma removed_parts_read:
  assumes "store_ok st" "\<not> isRust s st" "messages st s' None = Inr ms"
  shows "messages (remove_parts sc s m ps st) s' None =
    Inr (map (\<lambda>x. x\<lparr>wp_parts := filter (\<lambda>p. \<not> (pid p \<in> set (map pid ps) \<and> psession p = s)) (wp_parts x)\<rparr>) ms)"
proof -
  let ?st = "remove_parts sc s m ps st"
  note t = remove_parts_tables[OF assms(2), of sc m ps]
  have "parts ?st i = filter (\<lambda>p. \<not> (pid p \<in> set (map pid ps) \<and> psession p = s)) (parts st i)" for i
    unfolding parts_def filter_map filter_sort using t
    by (auto simp: part_of_def o_def conj_commute intro!: arg_cong[where f = "\<lambda>xs. map part_of (sort_key pw_id xs)"] filter_cong)
  moreover have "ms = hydrate st (sort_key msg_key (filter (\<lambda>r. mw_session r = s') (message_table st)))"
    using assms(1,3) messages_ordered by auto
  ultimately show ?thesis
    unfolding messages_ordered[OF remove_parts_ok[OF assms(2,1)]] using t by (simp add: hydrate_def o_def)
qed

definition kept :: "revert_info \<Rightarrow> with_parts list \<Rightarrow> with_parts list" where
  "kept r ms =
     map (\<lambda>m. if msg_id m = rv_message r then m\<lparr>wp_parts := takeWhile (\<lambda>p. Some (pid p) \<noteq> rv_part r) (wp_parts m)\<rparr> else m)
       (filter (\<lambda>m. msg_id m < rv_message r \<or> (msg_id m = rv_message r \<and> truthy (rv_part r))) ms)"

lemma patch_run:
  assumes "toPartialRow p = Inr pr" "find (\<lambda>r. sw_id r = s) (session_table st) = Some r"
  shows "\<exists>st'. patch_session now s p st = Inr st' \<and> message_table st' = message_table st \<and> part_table st' = part_table st \<and>
    rustOwned st' = rustOwned st \<and> get_session st' s = Inr (fromRow (set_columns now pr r))"
proof -
  let ?st = "publish (SessionUpdated s) (st\<lparr>session_table := map (\<lambda>r. if sw_id r = s then set_columns now pr r else r) (session_table st)\<rparr>)"
  have r: "r \<in> set (session_table st)" "sw_id r = s" using assms(2) by (auto simp: find_Some_iff)
  then have "patch_session now s p st = Inr ?st" using assms(1) by (auto simp: patch_session_def project_updated_def)
  moreover have "find (\<lambda>r. sw_id r = s) (session_table ?st) =
      map_option (\<lambda>r. if sw_id r = s then set_columns now pr r else r) (find (\<lambda>r. sw_id r = s) (session_table st))"
    unfolding publish_tables by (simp, rule find_map_upd) (simp add: set_columns_def)
  ultimately show ?thesis using r assms(2) by (intro exI[of _ ?st]) (simp add: get_session_def)
qed

lemma clearRevert_session:
  assumes "get_session st s = Inr i0"
  shows "\<exists>st'. clearRevert now s st = Inr st' \<and> message_table st' = message_table st \<and> part_table st' = part_table st \<and>
    (\<exists>i. get_session st' s = Inr i \<and> si_revert i = None)"
proof -
  let ?pr = "\<lparr>pr_title = None, pr_additions = None, pr_deletions = None, pr_files = None, pr_diffs = None, pr_revert = Some None,
      pr_permission = None, pr_updated = Some (Some now), pr_archived = None\<rparr>"
  have p: "toPartialRow (no_patch\<lparr>pt_time := updated_at now, pt_revert := Null\<rparr>) = Inr ?pr"
    by (simp add: toPartialRow_def no_patch_def updated_at_def grab_def grab_in_def)
  obtain r where "find (\<lambda>r. sw_id r = s) (session_table st) = Some r"
    using assms by (auto simp: get_session_def split: option.splits)
  from patch_run[OF p this, of now] show ?thesis
    by (auto simp: clearRevert_def fromRow_def set_columns_def change_def)
qed

lemma setRevert_session:
  assumes "get_session st s = Inr i0"
  shows "\<exists>st'. setRevert now s (Some r) (Some (totals ds)) st = Inr st' \<and> message_table st' = message_table st \<and>
    part_table st' = part_table st \<and> rustOwned st' = rustOwned st \<and>
    (\<exists>i. get_session st' s = Inr i \<and> si_revert i = Some r \<and> si_id i = s)"
proof -
  let ?pr = "\<lparr>pr_title = None, pr_additions = Some (Some (sp_additions (totals ds))), pr_deletions = Some (Some (sp_deletions (totals ds))),
      pr_files = Some (Some (sp_files (totals ds))), pr_diffs = None, pr_revert = Some (Some r),
      pr_permission = None, pr_updated = Some (Some now), pr_archived = None\<rparr>"
  have p: "toPartialRow (no_patch\<lparr>pt_summary := optional (Some (totals ds)), pt_time := updated_at now, pt_revert := optional (Some r)\<rparr>) = Inr ?pr"
    by (simp add: toPartialRow_def no_patch_def updated_at_def grab_def grab_in_def optional_def totals_def)
  obtain row where "find (\<lambda>r. sw_id r = s) (session_table st) = Some row" "sw_id row = s"
    using assms by (auto simp: get_session_def find_Some_iff split: option.splits)
  from patch_run[OF p this(1), of now] this(2) show ?thesis
    by (auto simp: setRevert_def fromRow_def set_columns_def change_def)
qed

lemma clearRevert_ok: "clearRevert now s st = Inr st' \<Longrightarrow> store_ok st \<Longrightarrow> store_ok st'"
  unfolding clearRevert_def by (rule patch_session_ok)

lemma filter_key_prefix: "distinct (map f (a @ b)) \<Longrightarrow> filter (\<lambda>p. f p \<notin> set (map f b)) (a @ b) = a"
  by (auto simp: filter_empty_conv filter_id_conv)

lemma dropWhile_ids:
  "distinct (map pid ps) \<Longrightarrow> filter (\<lambda>p. pid p \<notin> set (map pid (dropWhile P ps))) ps = takeWhile P ps"
  using filter_key_prefix[of pid "takeWhile P ps" "dropWhile P ps"] by (simp only: takeWhile_dropWhile_id)

lemma parts_disjoint:
  assumes "distinct (map pid (all_parts ms))" "m \<in> set ms" "t \<in> set ms" "m \<noteq> t" "p \<in> set (wp_parts m)" "q \<in> set (wp_parts t)"
  shows "pid p \<noteq> pid q"
  using assms(1-3)
proof (induction ms)
  case (Cons y ys)
  have "pid a \<noteq> pid b" if "a \<in> set (wp_parts y)" "z \<in> set ys" "b \<in> set (wp_parts z)" for a b z
  proof -
    have "b \<in> set (all_parts ys)" using that by auto
    then show ?thesis using that(1) Cons.prems(1) by auto
  qed
  then show ?case using Cons assms(4-6) by (metis distinct_append concat.simps(2) list.simps(9) map_append set_ConsD)
qed simp

lemma cut_kept:
  assumes "distinct (map msg_id ms)" "distinct (map pid (all_parts ms))" "list_all (\<lambda>p. psession p = s) (all_parts ms)"
    "m \<in> set ms" "t \<in> set ms"
  shows "filter (\<lambda>p. \<not> (pid p \<in> set (map pid (removed_parts x (wp_parts t))) \<and> psession p = s)) (wp_parts m) =
    (if msg_id m = msg_id t then takeWhile (\<lambda>p. Some (pid p) \<noteq> x) (wp_parts m) else wp_parts m)"
proof -
  have s: "psession p = s" if "p \<in> set (wp_parts m)" for p using that assms(3,4) by (auto simp: list_all_iff)
  show ?thesis
  proof (cases "m = t")
    case True
    have "distinct (map pid (wp_parts m))"
      using assms(2,4) by (induction ms) auto
    from dropWhile_ids[OF this, of "\<lambda>p. Some (pid p) \<noteq> x"] show ?thesis
      using s True by (auto simp: removed_parts_def cong: filter_cong)
  next
    case False
    have "pid p \<noteq> pid q" if "p \<in> set (wp_parts m)" "q \<in> set (wp_parts t)" for p q
      using parts_disjoint[OF assms(2,4,5) False that] .
    moreover have "msg_id m \<noteq> msg_id t" using False assms(1,4,5) by (auto simp: distinct_map inj_on_def)
    ultimately show ?thesis
      by (auto simp: filter_id_conv removed_parts_def dest!: set_dropWhileD)
  qed
qed

lemma messages_ids:
  assumes "store_ok st" "messages st s None = Inr ms"
  shows "distinct (map msg_id ms)" "set (map msg_id ms) \<subseteq> set (map mw_id (filter (\<lambda>r. mw_session r = s) (message_table st)))"
proof -
  have ms: "ms = hydrate st (sort_key msg_key (filter (\<lambda>r. mw_session r = s) (message_table st)))"
    using assms messages_ordered by auto
  have "distinct (map mw_id (filter (\<lambda>r. mw_session r = s) (message_table st)))"
    using assms(1) by (intro distinct_map_filter') (simp add: store_ok_def)
  then show "distinct (map msg_id ms)" unfolding ms by (auto simp: hydrate_def o_def info_of_def distinct_map)
  show "set (map msg_id ms) \<subseteq> set (map mw_id (filter (\<lambda>r. mw_session r = s) (message_table st)))"
    unfolding ms by (auto simp: hydrate_def info_of_def)
qed

lemma cleanup_run:
  assumes ok: "store_ok st" and own: "\<not> isRust s st" and ms: "messages st s None = Inr ms"
    and "list_all (\<lambda>p. psession p = s) (all_parts ms)"
  shows "messages (case cut_message r ms of None \<Rightarrow> remove_messages sc s (removed_messages r ms) st
      | Some t \<Rightarrow> remove_parts sc s (msg_id t) (removed_parts (rv_part r) (wp_parts t)) (remove_messages sc s (removed_messages r ms) st)) s None =
    Inr (kept r ms)" (is "messages ?st2 s None = _")
proof -
  let ?st1 = "remove_messages sc s (removed_messages r ms) st"
  let ?keep = "\<lambda>m. msg_id m < rv_message r \<or> (msg_id m = rv_message r \<and> truthy (rv_part r))"
  note ids = messages_ids(1)[OF ok ms] and pids = messages_parts(1)[OF ok ms]
  have ok1: "store_ok ?st1" "\<not> isRust s ?st1"
    using remove_messages_ok[OF own ok] own remove_messages_tables(4)[OF own] by (auto simp: isRust_def)
  have "msg_id m \<notin> set (map msg_id (removed_messages r ms)) \<longleftrightarrow> ?keep m" if "m \<in> set ms" for m
    using that by (auto simp: removed_messages_def image_iff)
  then have m1: "messages ?st1 s None = Inr (filter ?keep ms)"
    using removed_messages_read[OF ok own ms, of sc "removed_messages r ms"] by (auto cong: filter_cong)
  show ?thesis
  proof (cases "cut_message r ms")
    case None
    then have "msg_id m \<noteq> rv_message r" if "m \<in> set ms" "?keep m" for m
      using that by (auto simp: cut_message_def findLast_None)
    then have "kept r ms = filter ?keep ms" unfolding kept_def by (intro map_idI) auto
    then show ?thesis using None m1 by simp
  next
    case (Some t)
    then have t: "t \<in> set ms" "msg_id t = rv_message r" "truthy (rv_part r)"
      by (auto simp: cut_message_def dest: findLast_SomeD)
    have "filter (\<lambda>p. \<not> (pid p \<in> set (map pid (removed_parts (rv_part r) (wp_parts t))) \<and> psession p = s)) (wp_parts m) =
        (if msg_id m = rv_message r then takeWhile (\<lambda>p. Some (pid p) \<noteq> rv_part r) (wp_parts m) else wp_parts m)" if "m \<in> set ms" for m
      using cut_kept[OF ids pids assms(4) that t(1)] t(2) by simp
    then show ?thesis
      using Some removed_parts_read[OF ok1 m1, of sc "msg_id t"] by (auto simp: kept_def)
  qed
qed

lemma cleanup_ok_rust:
  assumes ok: "store_ok st" and own: "\<not> isRust s st"
  shows "store_ok (case c of None \<Rightarrow> remove_messages sc s xs st | Some t \<Rightarrow> remove_parts sc s (msg_id t) (f t) (remove_messages sc s xs st))"
    "session_table (case c of None \<Rightarrow> remove_messages sc s xs st | Some t \<Rightarrow> remove_parts sc s (msg_id t) (f t) (remove_messages sc s xs st)) = session_table st"
proof -
  have "\<not> isRust s (remove_messages sc s xs st)" using own remove_messages_tables(4)[OF own] by (simp add: isRust_def)
  then show "store_ok (case c of None \<Rightarrow> remove_messages sc s xs st | Some t \<Rightarrow> remove_parts sc s (msg_id t) (f t) (remove_messages sc s xs st))"
    "session_table (case c of None \<Rightarrow> remove_messages sc s xs st | Some t \<Rightarrow> remove_parts sc s (msg_id t) (f t) (remove_messages sc s xs st)) = session_table st"
    using remove_messages_ok[OF own ok] remove_parts_ok remove_parts_tables remove_messages_tables(3)[OF own]
    by (auto split: option.splits)
qed

lemma messages_part_row:
  assumes "store_ok st" "messages st s None = Inr ms" "m \<in> set ms" "p \<in> set (wp_parts m)"
  shows "\<exists>r\<in>set (part_table st). p = part_of r \<and> pw_message r = msg_id m"
proof -
  obtain r where "m = \<lparr>wp_info = info_of r, wp_parts = parts st (mw_id r)\<rparr>"
    using assms(2,3) messages_ordered[OF assms(1), of s] by (auto simp: hydrate_def)
  then have "p \<in> set (parts st (msg_id m))" using assms(4) by (simp add: info_of_def)
  then show ?thesis by (auto simp: parts_def)
qed

lemma messages_msg_row:
  "store_ok st \<Longrightarrow> messages st s None = Inr ms \<Longrightarrow> m \<in> set ms \<Longrightarrow> \<exists>r\<in>set (message_table st). mw_id r = msg_id m \<and> mw_session r = s"
  using messages_ids(2)[of st s ms] by (auto simp: image_subset_iff image_iff) metis

lemma cleanup_other_sessions:
  assumes ok: "store_ok st" and own: "\<not> isRust s st" and ms: "messages st s None = Inr ms" and "s' \<noteq> s"
    and c: "\<And>t. c = Some t \<Longrightarrow> t \<in> set ms \<and> set (f t) \<subseteq> set (wp_parts t)"
  shows "messages (case c of None \<Rightarrow> remove_messages sc s xs st | Some t \<Rightarrow> remove_parts sc s (msg_id t) (f t) (remove_messages sc s xs st)) s' None =
    messages st s' None"
proof -
  let ?st1 = "remove_messages sc s xs st"
  obtain ms' where ms': "messages st s' None = Inr ms'" using messages_ordered[OF ok] by blast
  have m1: "messages ?st1 s' None = Inr ms'" using removed_messages_read[OF ok own ms'] assms(4) by simp
  show ?thesis
  proof (cases c)
    case None
    then show ?thesis using m1 ms' by simp
  next
    case (Some t)
    have ok1: "store_ok ?st1" "\<not> isRust s ?st1"
      using remove_messages_ok[OF own ok] own remove_messages_tables(4)[OF own] by (auto simp: isRust_def)
    have "pid p \<notin> set (map pid (f t))" if m: "m \<in> set ms'" "p \<in> set (wp_parts m)" for m p
    proof
      assume "pid p \<in> set (map pid (f t))"
      then obtain q where q: "q \<in> set (wp_parts t)" "pid q = pid p" using c[OF Some] by auto
      obtain a b where "a \<in> set (part_table st)" "p = part_of a" "pw_message a = msg_id m"
        "b \<in> set (part_table st)" "q = part_of b" "pw_message b = msg_id t"
        using messages_part_row[OF ok ms' m] messages_part_row[OF ok ms _ q(1)] c[OF Some] by blast
      then have "msg_id m = msg_id t" using q(2) ok by (auto simp: part_of_def store_ok_def distinct_map inj_on_def)
      moreover obtain x where "x \<in> set (message_table st)" "mw_id x = msg_id t" "mw_session x = s"
        using messages_msg_row[OF ok ms] c[OF Some] by blast
      moreover obtain y where "y \<in> set (message_table st)" "mw_id y = msg_id m" "mw_session y = s'"
        using messages_msg_row[OF ok ms' m(1)] by blast
      ultimately show False using assms(4) ok by (metis (mono_tags) distinct_map inj_on_def store_ok_def)
    qed
    then have "map (\<lambda>x. x\<lparr>wp_parts := filter (\<lambda>p. \<not> (pid p \<in> set (map pid (f t)) \<and> psession p = s)) (wp_parts x)\<rparr>) ms' = ms'"
      by (intro map_idI) (simp add: filter_id_conv)
    then show ?thesis using Some removed_parts_read[OF ok1 m1, of sc "msg_id t" "f t"] ms' by simp
  qed
qed

text \<open>
  C37. Before the next prompt the rolled back end of a session is removed: of its messages exactly
  those before the recorded one are left and, if a part is recorded, that message with the parts
  before it; the record is cleared and other sessions are as before.
\<close>

theorem cleanup_keeps_prefix:
  assumes ok: "store_ok st" and own: "\<not> isRust (si_id i) st" and i: "get_session st (si_id i) = Inr i" "si_revert i = Some r"
    and ms: "messages st (si_id i) None = Inr ms" and ps: "list_all (\<lambda>p. psession p = si_id i) (all_parts ms)"
  shows "\<exists>st'. cleanup sidecar now i st = Inr st' \<and> messages st' (si_id i) None = Inr (kept r ms) \<and>
    (\<forall>s. s \<noteq> si_id i \<longrightarrow> messages st' s None = messages st s None) \<and>
    (\<exists>i'. get_session st' (si_id i) = Inr i' \<and> si_revert i' = None)"
proof -
  let ?s = "si_id i"
  define st2 where "st2 = (case cut_message r ms of None \<Rightarrow> remove_messages sidecar ?s (removed_messages r ms) st
      | Some t \<Rightarrow> remove_parts sidecar ?s (msg_id t) (removed_parts (rv_part r) (wp_parts t)) (remove_messages sidecar ?s (removed_messages r ms) st))"
  have ok2: "store_ok st2" "session_table st2 = session_table st"
    unfolding st2_def by (rule cleanup_ok_rust[OF ok own])+
  have "get_session st2 ?s = Inr i" using i(1) by (simp add: ok2 get_session_def)
  then obtain st' where st': "clearRevert now ?s st2 = Inr st'" "message_table st' = message_table st2" "part_table st' = part_table st2"
    "\<exists>i. get_session st' ?s = Inr i \<and> si_revert i = None" using clearRevert_session by blast
  have "cleanup sidecar now i st = Inr st'"
    using st'(1) by (simp add: cleanup_def i(2) ms st2_def Let_def)
  moreover note same = same_tables_messages[OF ok2(1) clearRevert_ok[OF st'(1) ok2(1)] st'(2,3)]
  moreover have "messages st2 ?s None = Inr (kept r ms)" unfolding st2_def by (rule cleanup_run[OF ok own ms ps])
  moreover have "messages st2 s None = messages st s None" if "s \<noteq> ?s" for s
    unfolding st2_def
    by (rule cleanup_other_sessions[OF ok own ms that])
      (auto simp: cut_message_def removed_parts_def dest: findLast_SomeD set_dropWhileD)
  ultimately show ?thesis using st'(4) by auto
qed

definition example_point :: revert_info where
  "example_point = \<lparr>rv_message = js ''msg_2'', rv_part = None, rv_snapshot = Some (js ''abc''), rv_diff = None\<rparr>"

definition example_two :: store where
  "example_two = (case updateMessage (example_user (js ''msg_2'')) example_store of Inr st \<Rightarrow> st | Inl _ \<Rightarrow> example_store)"

lemma example_two_tables:
  "store_ok example_two" "message_table example_two = [msg_row_of (example_user (js ''msg_1'')), msg_row_of (example_user (js ''msg_2''))]"
  "part_table example_two = []" "rustOwned example_two = []" "session_table example_two = session_table example_store"
proof -
  have u: "updateMessage (example_user (js ''msg_2'')) example_store = Inr (publish (MessageUpdated (example_user (js ''msg_2'')))
      (example_store\<lparr>message_table := message_table example_store @ [msg_row_of (example_user (js ''msg_2''))]\<rparr>))"
    using example_store_sessions(1,3) example_store_rows
    by (auto simp: updateMessage_def isRust_def project_message_def upsert_message_def msg_row_of_def example_user_def)
  show "store_ok example_two" using u updateMessage_ok[OF u reachable_store_ok[OF example_store_reachable]] by (simp add: example_two_def)
  show "message_table example_two = [msg_row_of (example_user (js ''msg_1'')), msg_row_of (example_user (js ''msg_2''))]"
    "part_table example_two = []" "rustOwned example_two = []" "session_table example_two = session_table example_store"
    using u by (simp_all add: example_two_def example_store_rows example_store_sessions)
qed

lemma example_two_messages:
  "messages example_two (js ''ses_1'') None =
     Inr [\<lparr>wp_info = example_user (js ''msg_1''), wp_parts = []\<rparr>, \<lparr>wp_info = example_user (js ''msg_2''), wp_parts = []\<rparr>]"
  unfolding messages_ordered[OF example_two_tables(1)]
  by (simp add: example_two_tables hydrate_def parts_def msg_row_of_def example_user_def info_of_def created_def js_def)

lemma example_two_session: "\<exists>i. get_session example_two (js ''ses_1'') = Inr i \<and> si_revert i = None \<and> si_id i = js ''ses_1''"
  by (simp add: get_session_def example_two_tables(5) example_store_def createNext_def project_created_def empty_store_def Let_def updateMessage_def
      isRust_def project_message_def upsert_message_def example_user_def msg_row_of_def toRow_def fromRow_def example_env_def)

theorem cleanup_keeps_prefix_witness:
  "\<exists>st i st'. messages st (js ''ses_1'') None =
       Inr [\<lparr>wp_info = example_user (js ''msg_1''), wp_parts = []\<rparr>, \<lparr>wp_info = example_user (js ''msg_2''), wp_parts = []\<rparr>] \<and>
     get_session st (js ''ses_1'') = Inr i \<and> cleanup (\<lambda>_ st. st) 6 i st = Inr st' \<and>
     messages st' (js ''ses_1'') None = Inr [\<lparr>wp_info = example_user (js ''msg_1''), wp_parts = []\<rparr>]"
proof -
  obtain i0 where "get_session example_two (js ''ses_1'') = Inr i0" using example_two_session by blast
  from setRevert_session[OF this, of 5 example_point "[]"] obtain st i where
    st: "setRevert 5 (js ''ses_1'') (Some example_point) (Some (totals [])) example_two = Inr st" "message_table st = message_table example_two"
      "part_table st = part_table example_two" "rustOwned st = rustOwned example_two"
    and i: "get_session st (js ''ses_1'') = Inr i" "si_revert i = Some example_point" "si_id i = js ''ses_1''" by blast
  have ok: "store_ok st" using st(1) example_two_tables(1) unfolding setRevert_def by (rule patch_session_ok)
  note ms = same_tables_messages[OF example_two_tables(1) ok st(2,3), of "js ''ses_1''", unfolded example_two_messages]
  have k: "kept example_point [\<lparr>wp_info = example_user (js ''msg_1''), wp_parts = []\<rparr>, \<lparr>wp_info = example_user (js ''msg_2''), wp_parts = []\<rparr>] =
      [\<lparr>wp_info = example_user (js ''msg_1''), wp_parts = []\<rparr>]"
    by (simp add: kept_def example_point_def example_user_def truthy_def js_def)
  have "\<exists>st'. cleanup (\<lambda>_ st. st) 6 i st = Inr st' \<and> messages st' (js ''ses_1'') None = Inr [\<lparr>wp_info = example_user (js ''msg_1''), wp_parts = []\<rparr>]"
    using cleanup_keeps_prefix[OF ok, of i example_point _ "\<lambda>_ st. st" 6, unfolded i(3), OF _ i(1,2) ms] st(4) example_two_tables(4)
    by (auto simp: isRust_def k)
  then show ?thesis using ms i(1) by blast
qed

section \<open>The point and the changes after it\<close>

abbreviation flat :: "with_parts list \<Rightarrow> (with_parts \<times> msg_part) list" where
  "flat ms \<equiv> concat (map (\<lambda>m. map (Pair m) (wp_parts m)) ms)"

definition point_at :: "jstring option \<Rightarrow> jstring option \<Rightarrow> jstring \<Rightarrow> msg_part list \<Rightarrow> revert_info" where
  "point_at partID lastUser m before =
     (let part = (if list_ex is_text_or_tool before then partID else None)
      in \<lparr>rv_message = (case lastUser of Some u \<Rightarrow> if \<not> truthy part then u else m | None \<Rightarrow> m), rv_part = part,
          rv_snapshot = None, rv_diff = None\<rparr>)"

lemma scan_parts_done:
  "sc_rev s \<noteq> None \<Longrightarrow> scan_parts a b m seen ps s = s\<lparr>sc_patches := sc_patches s @ concat (map patch_of ps)\<rparr>"
  by (induction ps arbitrary: s) auto

lemma scan_parts_search:
  "sc_rev s = None \<Longrightarrow> scan_parts a b m seen ps s =
     (case dropWhile (\<lambda>p. \<not> hits a b m p) ps of
        [] \<Rightarrow> s
      | p # rest \<Rightarrow> s\<lparr>sc_rev := Some (point_at b (sc_lastUser s) m (seen @ takeWhile (\<lambda>p. \<not> hits a b m p) ps)),
                       sc_patches := sc_patches s @ concat (map patch_of rest)\<rparr>)"
proof (induction ps arbitrary: seen)
  case (Cons p ps)
  show ?case
  proof (cases "hits a b m p")
    case True
    then show ?thesis using Cons.prems by (simp add: scan_parts_done point_at_def Let_def)
  next
    case False
    then show ?thesis using Cons.prems Cons.IH[of "seen @ [p]"]
      by (cases "dropWhile (\<lambda>p. \<not> hits a b m p) ps") (simp_all del: dropWhile_eq_Nil_conv)
  qed
qed simp

lemma fold_scan_done:
  "sc_rev s = Some r \<Longrightarrow> sc_rev (fold (scan_message a b) ms s) = Some r \<and>
     sc_patches (fold (scan_message a b) ms s) = sc_patches s @ concat (map (\<lambda>x. patch_of (snd x)) (flat ms))"
proof (induction ms arbitrary: s)
  case (Cons m ms)
  have "scan_message a b m s = (if is_user m then s\<lparr>sc_lastUser := Some (msg_id m)\<rparr> else s)\<lparr>sc_patches := sc_patches s @ concat (map patch_of (wp_parts m))\<rparr>"
    unfolding scan_message_def using Cons.prems by (subst scan_parts_done) auto
  then have "sc_rev (scan_message a b m s) = Some r" "sc_patches (scan_message a b m s) = sc_patches s @ concat (map patch_of (wp_parts m))"
    using Cons.prems by auto
  then show ?case using Cons.IH by (simp add: o_def)
qed simp

definition user_upto :: "with_parts list \<Rightarrow> with_parts \<Rightarrow> jstring option \<Rightarrow> jstring option" where
  "user_upto ms m u = (case findLast is_user (takeWhile (\<lambda>x. x \<noteq> m) ms @ [m]) of Some x \<Rightarrow> Some (msg_id x) | None \<Rightarrow> u)"

lemma user_upto_Cons:
  "user_upto (x # ms) m u = (if x = m then (if is_user m then Some (msg_id m) else u)
     else user_upto ms m (if is_user x then Some (msg_id x) else u))"
  using findLast_append[of is_user "[x]" "takeWhile (\<lambda>x. x \<noteq> m) ms @ [m]"] findLast_append[of is_user "[]" "[x]"]
  by (auto simp: user_upto_def findLast_def split: option.splits)

lemma fold_scan_search:
  assumes "sc_rev s = None" "sc_patches s = []"
  shows "case dropWhile (\<lambda>(m, p). \<not> hits a b (msg_id m) p) (flat ms) of
      [] \<Rightarrow> sc_rev (fold (scan_message a b) ms s) = None
    | (m, p) # rest \<Rightarrow> sc_rev (fold (scan_message a b) ms s) =
          Some (point_at b (user_upto ms m (sc_lastUser s)) (msg_id m) (takeWhile (\<lambda>p. \<not> hits a b (msg_id m) p) (wp_parts m))) \<and>
        sc_patches (fold (scan_message a b) ms s) = concat (map (\<lambda>x. patch_of (snd x)) rest)"
  using assms
proof (induction ms arbitrary: s)
  case (Cons x ms)
  let ?s = "if is_user x then s\<lparr>sc_lastUser := Some (msg_id x)\<rparr> else s"
  have s: "sc_rev ?s = None" "sc_patches ?s = []" using Cons.prems by auto
  have sp: "scan_message a b x s = (case dropWhile (\<lambda>p. \<not> hits a b (msg_id x) p) (wp_parts x) of
        [] \<Rightarrow> ?s
      | p # rest \<Rightarrow> ?s\<lparr>sc_rev := Some (point_at b (sc_lastUser ?s) (msg_id x) (takeWhile (\<lambda>p. \<not> hits a b (msg_id x) p) (wp_parts x))),
                       sc_patches := concat (map patch_of rest)\<rparr>)"
    unfolding scan_message_def scan_parts_search[OF s(1)] s(2) append_Nil ..
  have dw: "dropWhile (\<lambda>(m, p). \<not> hits a b (msg_id m) p) (map (Pair x) ps) = map (Pair x) (dropWhile (\<lambda>p. \<not> hits a b (msg_id x) p) ps)" for ps
    by (induction ps) auto
  show ?case
  proof (cases "dropWhile (\<lambda>p. \<not> hits a b (msg_id x) p) (wp_parts x)")
    case Nil
    then have no: "\<forall>p\<in>set (wp_parts x). \<not> hits a b (msg_id x) p" by (simp add: dropWhile_eq_Nil_conv)
    then have "dropWhile (\<lambda>(m, p). \<not> hits a b (msg_id m) p) (flat (x # ms)) = dropWhile (\<lambda>(m, p). \<not> hits a b (msg_id m) p) (flat ms)"
      by (simp, subst dropWhile_append2) auto
    moreover have "x \<noteq> m" if "dropWhile (\<lambda>(m, p). \<not> hits a b (msg_id m) p) (flat ms) = (m, p) # rest" for m p rest
    proof -
      have "(m, p) \<in> set (dropWhile (\<lambda>(m, p). \<not> hits a b (msg_id m) p) (flat ms))" unfolding that by simp
      then have "(m, p) \<in> set (flat ms)" by (rule set_dropWhileD)
      moreover have "hits a b (msg_id m) p" using hd_dropWhile[of "\<lambda>(m, p). \<not> hits a b (msg_id m) p" "flat ms"] that by simp
      ultimately show ?thesis using no by auto
    qed
    moreover note Cons.IH[OF s]
    ultimately show ?thesis using Nil
      by (cases "dropWhile (\<lambda>(m, p). \<not> hits a b (msg_id m) p) (flat ms)")
        (auto simp: sp user_upto_Cons simp del: dropWhile_eq_Nil_conv split: if_splits)
  next
    case (Cons p rest)
    then have "\<not> (\<forall>p\<in>set (wp_parts x). \<not> hits a b (msg_id x) p)" by (metis dropWhile_eq_Nil_conv list.distinct(1))
    then have "dropWhile (\<lambda>(m, p). \<not> hits a b (msg_id m) p) (flat (x # ms)) = (x, p) # map (Pair x) rest @ flat ms"
      using Cons dw[of "wp_parts x"] by (auto simp: dropWhile_append)
    moreover have "sc_lastUser ?s = user_upto (x # ms) x (sc_lastUser s)" by (simp add: user_upto_Cons)
    ultimately show ?thesis using Cons fold_scan_done[of "scan_message a b x s" _ a b ms]
      by (auto simp: sp o_def)
  qed
qed simp

text \<open>
  C39. The point of a rollback: the first part that is meant, in the order of the history, decides.
  The changes to undo are those of all parts after it. The recorded message is that of the part if
  text or tools precede the part in it and a part was asked for, and otherwise the last message of
  the user up to it. If no part is meant nothing happens.
\<close>

theorem revert_point:
  "case dropWhile (\<lambda>(m, p). \<not> hits messageID partID (msg_id m) p) (flat ms) of
      [] \<Rightarrow> sc_rev (revert_scan messageID partID ms) = None
    | (m, p) # rest \<Rightarrow>
        sc_rev (revert_scan messageID partID ms) = Some (point_at partID (user_upto ms m None) (msg_id m)
          (takeWhile (\<lambda>p. \<not> hits messageID partID (msg_id m) p) (wp_parts m))) \<and>
        sc_patches (revert_scan messageID partID ms) = concat (map (\<lambda>x. patch_of (snd x)) rest)"
  using fold_scan_search[of "\<lparr>sc_rev = None, sc_patches = [], sc_lastUser = None\<rparr>" messageID partID ms]
  unfolding revert_scan_def
  by (cases "dropWhile (\<lambda>(m, p). \<not> hits messageID partID (msg_id m) p) (flat ms)") (auto simp del: dropWhile_eq_Nil_conv)

text \<open>
  Going back to the second of two answers records the message of the user, so that the first answer
  is removed as well; but its changes to files are not among those undone.
\<close>

lemma revert_skips_changes:
  assumes "is_user u" "\<not> is_user a" "\<not> is_user b" "msg_id b \<noteq> msg_id u" "msg_id b \<noteq> msg_id a" "wp_parts b = [p]"
  shows "sc_patches (revert_scan (msg_id b) None [u, a, b]) = [] \<and>
    map_option rv_message (sc_rev (revert_scan (msg_id b) None [u, a, b])) = Some (msg_id u)"
proof -
  have "hits (msg_id b) None (msg_id m) q \<longleftrightarrow> msg_id m = msg_id b" for m q by (auto simp: hits_def truthy_def)
  then have "dropWhile (\<lambda>(m, q). \<not> hits (msg_id b) None (msg_id m) q) (flat [u, a, b]) = [(b, p)]"
    using assms(4-6) by (auto simp: dropWhile_append2 dropWhile_append)
  moreover have "user_upto [u, a, b] b None = Some (msg_id u)" using assms by (auto simp: user_upto_def findLast_def)
  ultimately show ?thesis using fold_scan_search[of "\<lparr>sc_rev = None, sc_patches = [], sc_lastUser = None\<rparr>" "msg_id b" None "[u, a, b]"]
    by (simp add: revert_scan_def point_at_def truthy_def)
qed

section \<open>Undoing a rollback\<close>

lemma finish_revert_result:
  assumes "finish_revert svc now s all patches rv failed st w = (Inr (i, failed'), st', w')" "store_ok st"
  shows "si_revert i = Some rv" "get_session st' s = Inr i" "store_ok st'" "message_table st' = message_table st" "part_table st' = part_table st"
proof -
  obtain diffs st2 where d: "setRevert now s (Some rv) (Some (totals diffs)) (publish (SessionDiff s (JArr (map diff_json diffs))) st) = Inr st2"
    "get_session st2 s = Inr i" "st' = st2"
    using assms(1) by (auto simp: finish_revert_def Let_def split: sum.splits)
  let ?st = "publish (SessionDiff s (JArr (map diff_json diffs))) st"
  have "get_session ?st s = Inr i0 \<or> get_session ?st s = Inl (SessionNotFound s)" if "i0 = fromRow (the (find (\<lambda>r. sw_id r = s) (session_table st)))" for i0
    using that by (auto simp: get_session_def split: option.splits)
  moreover have "get_session ?st s \<noteq> Inl (SessionNotFound s)"
  proof
    assume "get_session ?st s = Inl (SessionNotFound s)"
    then have "s \<notin> set (map sw_id (session_table st))" by (auto simp: get_session_def find_None_iff split: option.splits)
    then show False using d(1) by (auto simp: setRevert_def patch_session_def project_updated_def split: sum.splits if_splits)
  qed
  ultimately obtain i0 where "get_session ?st s = Inr i0" by blast
  from setRevert_session[OF this, of now rv diffs] d show "si_revert i = Some rv" "get_session st' s = Inr i"
    "message_table st' = message_table st" "part_table st' = part_table st" by auto
  show "store_ok st'" using d(1,3) assms(2) unfolding setRevert_def by (auto dest: patch_session_ok)
qed


text \<open>A worktree that is a number, with snapshots that are numerals in the unary system.\<close>

definition example_services :: "nat services" where
  "example_services = \<lparr>track = (\<lambda>w. (Some (97 # replicate w 97), w)), hasUncommitted = (\<lambda>_ _. False),
     restore = (\<lambda>h w. (Inr [], length h - 1)), snap_revert = (\<lambda>ps w. (Inr [], w + 1)), snap_diff = (\<lambda>_ _. []),
     diffFull = (\<lambda>_ _ _. Inr []), write_diffs = (\<lambda>_ _ w. w), read_diffs = (\<lambda>_ _. None), refresh = (\<lambda>_ w. w)\<rparr>"

lemma example_services_ops:
  "track example_services w = (Some (97 # replicate w 97), w)" "hasUncommitted example_services sn w = False"
  "restore example_services h w = (Inr [], length h - 1)" "snap_revert example_services ps w = (Inr [], w + 1)"
  "snap_diff example_services h w = []" "write_diffs example_services s ds w = w" "refresh example_services fs w = w"
  by (simp_all add: example_services_def)

definition example_part :: msg_part where
  "example_part = \<lparr>pid = js ''prt_1'', pmessage = js ''msg_2'', psession = js ''ses_1'', pdata = StepStartData None\<rparr>"

lemma example_with_part:
  assumes "pmessage p = js ''msg_2''"
  shows "\<exists>st. updatePart 3 p example_two = Inr st \<and> store_ok st \<and> session_table st = session_table example_two \<and>
     message_table st = message_table example_two \<and> rustOwned st = [] \<and>
     messages st (js ''ses_1'') None = Inr [\<lparr>wp_info = example_user (js ''msg_1''), wp_parts = []\<rparr>,
       \<lparr>wp_info = example_user (js ''msg_2''), wp_parts = [p]\<rparr>]"
proof -
  let ?st = "publish (PartUpdated p 3) (example_two\<lparr>part_table := [part_row_of 3 p]\<rparr>)"
  have u: "updatePart 3 p example_two = Inr ?st"
    using assms by (simp add: updatePart_def isRust_def project_part_def upsert_part_def example_two_tables part_row_of_def
        msg_row_of_def example_user_def)
  have ok: "store_ok ?st" using updatePart_ok[OF u example_two_tables(1)] .
  moreover have "messages ?st (js ''ses_1'') None = Inr [\<lparr>wp_info = example_user (js ''msg_1''), wp_parts = []\<rparr>,
       \<lparr>wp_info = example_user (js ''msg_2''), wp_parts = [p]\<rparr>]"
    unfolding messages_ordered[OF ok] using assms
    by (simp add: example_two_tables hydrate_def parts_def msg_row_of_def example_user_def info_of_def created_def js_def
        part_row_of_def part_of_def)
  ultimately show ?thesis using u by (intro exI[of _ ?st]) (simp add: example_two_tables)
qed


text \<open>A rollback that would touch files refuses to run over changes made by hand, and then touches none.\<close>

lemma revert_refuses_uncommitted:
  assumes "messages st s None = Inr all" "get_session st s = Inr i0" "sc_rev (revert_scan messageID partID all) \<noteq> None"
    and "(case session_snapshot i0 of Some h \<Rightarrow> (Some h, w) | None \<Rightarrow> track svc w) = (snap, w1)"
    and "truthy (session_snapshot i0) \<or> sc_patches (revert_scan messageID partID all) \<noteq> []" "hasUncommitted svc snap w1"
  shows "revert svc False now s messageID partID st w = (Inl Uncommitted, st, w1)"
  using assms by (auto simp: revert_def Let_def)

end
