(* ===== verification/Compaction_Run.thy ===== *)
theory Compaction_Run
  imports Compaction Revert
begin

text \<open>
  The run of a compaction, \<open>process\<close> and \<open>create\<close> of \<open>session/compaction.ts\<close>: the marker, the
  choice of model, the summary as a message of its own, the messages that follow it, and what
  happens when the summary does not fit or is interrupted.

  The processor that streams the model's answer into the store is an argument: it gets the request
  and the message to fill and returns how it ended. So are the agent's model, the providers,
  generated identifiers and the clock, whose readings are numbered in the order the code takes them.
\<close>

section \<open>Data\<close>

record full_model = model +
  md_npm :: jstring

definition target_model :: "full_model \<Rightarrow> conv_model" where
  "target_model m = \<lparr>cm_provider = providerID m, cm_id = model_id m, cm_npm = md_npm m\<rparr>"

definition limits :: "full_model \<Rightarrow> model" where
  "limits m = model.truncate m"

datatype flow = FContinue | FStop | FCompact

record run_state =
  rn_env :: env
  rn_store :: store

record 'r summary_req =
  rq_user :: user_fields
  rq_messages :: "'r list"
  rq_prompt :: jstring
  rq_model :: full_model

datatype proc_exit = ProcDone flow assistant_fields | ProcInterrupted | ProcDied jstring

datatype comp_error = BadParent jstring | NoModel jstring jstring | WriteFailed store_error | RunInterrupted | RunDied jstring

record 'r comp_env =
  ce_cfg :: comp_cfg
  ce_agent_model :: "model_ref option"
  ce_getModel :: "jstring \<Rightarrow> jstring \<Rightarrow> full_model option"
  ce_providers :: "full_model list list"
  ce_convert :: "ui_message list \<Rightarrow> (jstring \<times> (ui_output \<Rightarrow> model_output)) list \<Rightarrow> 'r list"
  ce_processor :: "'r summary_req \<Rightarrow> msg_info \<Rightarrow> run_state \<Rightarrow> proc_exit \<times> run_state"
  ce_message :: "nat \<Rightarrow> jstring"
  ce_part :: "nat \<Rightarrow> jstring"
  ce_clock :: "nat \<Rightarrow> int"
  ce_cwd :: jstring
  ce_root :: jstring
  ce_fold :: "nat \<Rightarrow> nat"
  ce_sidecar :: "jstring \<Rightarrow> store \<Rightarrow> store"

text \<open>Steps that write or fail, one after the other.\<close>

type_synonym 'a comp_run = "run_state \<Rightarrow> (comp_error + 'a) \<times> run_state"

definition bind_run :: "'a comp_run \<Rightarrow> ('a \<Rightarrow> 'b comp_run) \<Rightarrow> 'b comp_run" where
  "bind_run m f s = (case m s of (Inl e, s') \<Rightarrow> (Inl e, s') | (Inr a, s') \<Rightarrow> f a s')"

definition return_run :: "'a \<Rightarrow> 'a comp_run" where
  "return_run a s = (Inr a, s)"

definition store_run :: "(store \<Rightarrow> store_error + store) \<Rightarrow> unit comp_run" where
  "store_run f s = (case f (rn_store s) of Inl e \<Rightarrow> (Inl (WriteFailed e), s) | Inr st \<Rightarrow> (Inr (), s\<lparr>rn_store := st\<rparr>))"

section \<open>Errors as text\<close>

definition hex4 :: "nat \<Rightarrow> jstring" where
  "hex4 c = map (\<lambda>n. if n < 10 then 48 + n else 87 + n) [c div 4096, c div 256 mod 16, c div 16 mod 16, c mod 16]"

definition json_unit :: "nat \<Rightarrow> jstring" where
  "json_unit c =
     (if c = 34 \<or> c = 92 then [92, c] else if c = 8 then [92, 98] else if c = 9 then [92, 116] else if c = 10 then [92, 110]
      else if c = 12 then [92, 102] else if c = 13 then [92, 114] else if c < 32 then [92, 117] @ hex4 c else [c])"

text \<open>A surrogate without its partner is written as an escape.\<close>

fun json_units :: "jstring \<Rightarrow> jstring" where
  "json_units [] = []"
| "json_units [c] = (if is_high c \<or> is_low c then [92, 117] @ hex4 c else json_unit c)"
| "json_units (c # d # s) =
     (if is_high c \<and> is_low d then c # d # json_units s
      else (if is_high c \<or> is_low c then [92, 117] @ hex4 c else json_unit c) @ json_units (d # s))"

definition json_string :: "jstring \<Rightarrow> jstring" where
  "json_string s = [34] @ json_units s @ [34]"

lemma size_json_field: "(k, v) \<in> set kvs \<Longrightarrow> size v < Suc (size_list (size_prod (\<lambda>_. 0) size) kvs)"
  by (induction kvs) auto

function json_stringify :: "json \<Rightarrow> jstring" where
  "json_stringify JNull = js ''null''"
| "json_stringify (JBool b) = (if b then js ''true'' else js ''false'')"
| "json_stringify (JNum n) = num_str n"
| "json_stringify (JStr s) = json_string s"
| "json_stringify (JArr vs) = [91] @ join [44] (map json_stringify vs) @ [93]"
| "json_stringify (JObj kvs) = [123] @ join [44] (map (\<lambda>(k, v). json_string k @ [58] @ json_stringify v) kvs) @ [125]"
  by pat_completeness auto
termination
  by (relation "measure size") (auto simp: less_Suc_eq_le size_list_estimation' dest: size_json_field)

definition error_json :: "named_error \<Rightarrow> json" where
  "error_json e = JObj [(js ''name'', JStr (ne_name e)), (js ''data'', JObj (ne_data e))]"

definition overflow_error :: named_error where
  "overflow_error = \<lparr>ne_name = js ''ContextOverflowError'', ne_data = [(js ''message'', JStr
     [24403, 21069, 20250, 35805, 36807, 22823, 65292, 24314, 35758, 65306, 9312, 20999, 25442, 21040, 26356, 22823, 19978, 19979,
      25991, 27169, 22411, 32, 9313, 24320, 21551, 26032, 20250, 35805, 32, 9314, 21024, 38500, 26089, 26399, 23545, 35805])]\<rparr>"

section \<open>Preparation\<close>

text \<open>
  After an overflow the last message of the user before the marker is to be sent again, and what
  precedes it is summarised, if there is anything to summarise.
\<close>

definition plain_user :: "with_parts \<Rightarrow> bool" where
  "plain_user m \<longleftrightarrow> is_user m \<and> \<not> has_marker m"

definition overflow_replay :: "jstring \<Rightarrow> with_parts list \<Rightarrow> with_parts option \<times> with_parts list" where
  "overflow_replay parentID input =
     (case findIndex (\<lambda>m. msg_id m = parentID) input of
        None \<Rightarrow> (None, input)
      | Some idx \<Rightarrow>
          (case find (\<lambda>i. plain_user (input ! i)) (rev [0..<idx]) of
             None \<Rightarrow> (None, input)
           | Some i \<Rightarrow> if list_ex plain_user (take i input) then (Some (input ! i), take i input) else (None, input)))"

definition largest_model :: "env \<Rightarrow> full_model list list \<Rightarrow> full_model \<Rightarrow> full_model" where
  "largest_model e providers m =
     (let window = (\<lambda>x. resolveContextWindow (e_lower e) (e_found e) (limits x))
      in fst (foldl (\<lambda>(best, ctx) x. if window x > ctx then (x, window x) else (best, ctx)) (m, window m) (concat providers)))"

definition choose_model :: "'r comp_env \<Rightarrow> env \<Rightarrow> user_fields \<Rightarrow> bool \<Rightarrow> comp_error + full_model" where
  "choose_model ce e u overflow =
     (let r = (case ce_agent_model ce of Some r \<Rightarrow> r | None \<Rightarrow> u_model u)
      in case ce_getModel ce (mr_provider r) (mr_model r) of
           None \<Rightarrow> Inl (NoModel (mr_provider r) (mr_model r))
         | Some m \<Rightarrow> Inr (if ce_agent_model ce = None \<and> overflow then largest_model e (ce_providers ce) m else m))"

definition visible_history :: "with_parts list \<Rightarrow> with_parts list" where
  "visible_history h =
     (let hidden = concat (map (\<lambda>c. [cc_user c, cc_assistant c]) (completedCompactions h))
      in map snd (filter (\<lambda>(i, m). i \<notin> set hidden) (enumerate 0 h)))"

definition previous_summary :: "with_parts list \<Rightarrow> jstring option" where
  "previous_summary h = (case rev (completedCompactions h) of [] \<Rightarrow> None | c # _ \<Rightarrow> cc_summary c)"

definition marker_part :: "with_parts \<Rightarrow> msg_part option" where
  "marker_part m = find is_compaction (wp_parts m)"

definition compaction_history :: "with_parts \<Rightarrow> with_parts list \<Rightarrow> with_parts list" where
  "compaction_history parent ms =
     (if marker_part parent \<noteq> None \<and> ms \<noteq> [] \<and> msg_id (last ms) = msg_id parent then butlast ms else ms)"

definition placeholder :: "'r comp_env \<Rightarrow> jstring \<Rightarrow> jstring \<Rightarrow> user_fields \<Rightarrow> full_model \<Rightarrow> msg_info" where
  "placeholder ce parentID s u m =
     \<lparr>mid = ce_message ce 0, msession = s, mdata = AssistantData
        \<lparr>a_created = ce_clock ce 0, a_completed = None, a_error = None, a_parentID = parentID, a_modelID = model_id m,
         a_providerID = providerID m, a_mode = js ''compaction'', a_agent = js ''compaction'', a_cwd = ce_cwd ce, a_root = ce_root ce,
         a_summary = Some True,
         a_tokens = \<lparr>t_total = None, t_input = 0, t_output = 0, t_cache_read = 0, t_cache_write = 0, t_reasoning = 0\<rparr>,
         a_structured = None, a_variant = mr_variant (u_model u), a_finish = None\<rparr>\<rparr>"

definition summary_request :: "'r comp_env \<Rightarrow> user_fields \<Rightarrow> full_model \<Rightarrow> with_parts list \<Rightarrow> with_parts list \<Rightarrow> 'r summary_req" where
  "summary_request ce u m head history =
     \<lparr>rq_user = u,
      rq_messages = toModelMessages (ce_convert ce) (ce_message ce)
        \<lparr>stripMedia = True, toolOutputMaxChars = Some TOOL_OUTPUT_MAX_CHARS\<rparr> (target_model m) head,
      rq_prompt = buildPrompt (previous_summary history) [], rq_model = m\<rparr>"

section \<open>The marker's tail\<close>

definition tail_of :: "msg_part \<Rightarrow> jstring option" where
  "tail_of p = (case pdata p of CompactionData c \<Rightarrow> cp_tail_start_id c | _ \<Rightarrow> None)"

definition set_tail :: "jstring option \<Rightarrow> msg_part \<Rightarrow> msg_part" where
  "set_tail t p = (case pdata p of CompactionData c \<Rightarrow> p\<lparr>pdata := CompactionData (c\<lparr>cp_tail_start_id := t\<rparr>)\<rparr> | _ \<Rightarrow> p)"

definition update_tail :: "int \<Rightarrow> msg_part option \<Rightarrow> jstring option \<Rightarrow> unit comp_run" where
  "update_tail now part tail =
     (case part of
        None \<Rightarrow> return_run ()
      | Some p \<Rightarrow> if truthy tail \<and> tail_of p \<noteq> tail then store_run (updatePart now (set_tail tail p)) else return_run ())"

section \<open>When the summary does not fit\<close>

function truncate_loop :: "int \<Rightarrow> with_parts list \<Rightarrow> with_parts list" where
  "truncate_loop limit ms =
     (if estimate_messages ms > limit \<and> length ms > 2 then
        (case findIndex plain_user ms of
           None \<Rightarrow> ms
         | Some i \<Rightarrow> truncate_loop limit (drop (if i + 1 < length ms \<and> \<not> is_user (ms ! (i + 1)) then 2 else 1) ms))
      else ms)"
  by pat_completeness auto
termination by (relation "measure (\<lambda>(limit, ms). length ms)") auto

declare truncate_loop.simps [simp del]

definition compaction_overflow ::
  "'r comp_env \<Rightarrow> full_model \<Rightarrow> with_parts list \<Rightarrow> msg_part option \<Rightarrow> msg_info \<Rightarrow> assistant_fields \<Rightarrow> flow comp_run" where
  "compaction_overflow ce m ms part info msg s =
     (let errText = (case a_error msg of Some e \<Rightarrow> json_stringify (error_json e) | None \<Rightarrow> []);
          e = (case extractContextWindowFromError (ce_fold ce) errText of
                 Some n \<Rightarrow> if limit_context m = 0
                   then (rn_env s)\<lparr>e_found := snd (persistDiscoveredContextWindow (limits m) n (e_found (rn_env s)))\<rparr> else rn_env s
               | None \<Rightarrow> rn_env s);
          s1 = s\<lparr>rn_env := e\<rparr>;
          limit = effectiveUsable e (compaction_cfg.truncate (ce_cfg ce)) (limits m);
          trunc = truncate_loop limit ms
      in if limit > 0 \<and> length ms > 2 \<and> estimate_messages trunc \<le> limit then
           bind_run (update_tail (ce_clock ce 1) part (snd (select e (ce_cfg ce) (limits m) trunc))) (\<lambda>_.
           bind_run (store_run (updateMessage (info\<lparr>mdata := AssistantData
             (msg\<lparr>a_summary := Some True, a_tokens := (a_tokens msg)\<lparr>t_input := estimate_messages trunc\<rparr>\<rparr>)\<rparr>))) (\<lambda>_.
           return_run FContinue)) s1
         else
           bind_run (store_run (updateMessage (info\<lparr>mdata := AssistantData
             (msg\<lparr>a_error := Some overflow_error, a_finish := Some (js ''error'')\<rparr>)\<rparr>))) (\<lambda>_.
           return_run FStop) s1)"

section \<open>What follows the summary\<close>

definition replay_data :: "part_data \<Rightarrow> part_data" where
  "replay_data d =
     (case d of
        FileData f \<Rightarrow> if isMedia (f_mime f)
          then TextData \<lparr>tx_text = attached f, tx_synthetic = None, tx_ignored = None, tx_time = None, tx_metadata = None\<rparr> else d
      | _ \<Rightarrow> d)"

fun replay_parts :: "'r comp_env \<Rightarrow> jstring \<Rightarrow> nat \<Rightarrow> msg_part list \<Rightarrow> unit comp_run" where
  "replay_parts ce s k [] = return_run ()"
| "replay_parts ce s k (p # ps) =
     (if is_compaction p then replay_parts ce s k ps
      else bind_run (store_run (updatePart (ce_clock ce (3 + k))
             \<lparr>pid = ce_part ce k, pmessage = ce_message ce 1, psession = s, pdata = replay_data (pdata p)\<rparr>))
             (\<lambda>_. replay_parts ce s (Suc k) ps))"

definition follow_user :: "'r comp_env \<Rightarrow> jstring \<Rightarrow> user_fields \<Rightarrow> msg_info" where
  "follow_user ce s u = \<lparr>mid = ce_message ce 1, msession = s, mdata = UserData u\<rparr>"

definition replay_message :: "'r comp_env \<Rightarrow> jstring \<Rightarrow> user_fields \<Rightarrow> msg_part list \<Rightarrow> unit comp_run" where
  "replay_message ce s original ps =
     bind_run (store_run (updateMessage (follow_user ce s
       \<lparr>u_created = ce_clock ce 2, u_format = u_format original, u_summary = None, u_agent = u_agent original,
        u_model = u_model original, u_system = u_system original, u_locale = None, u_tools = u_tools original\<rparr>)))
     (\<lambda>_. replay_parts ce s 0 ps)"

definition continue_text :: "bool \<Rightarrow> jstring" where
  "continue_text overflow =
     (if overflow then js ''The previous request exceeded the provider's size limit due to large media attachments. The conversation was compacted and media files were removed from context. If the user was asking about attached images or files, explain that the attachments were too large to process and suggest they try again with smaller or fewer files.'' @ [newline, newline]
      else []) @
     js ''Continue if you have next steps, or stop and ask for clarification if you are unsure how to proceed.''"

definition continue_message :: "'r comp_env \<Rightarrow> jstring \<Rightarrow> user_fields \<Rightarrow> bool \<Rightarrow> unit comp_run" where
  "continue_message ce s u overflow =
     bind_run (store_run (updateMessage (follow_user ce s
       \<lparr>u_created = ce_clock ce 2, u_format = None, u_summary = None, u_agent = u_agent u, u_model = u_model u,
        u_system = None, u_locale = None, u_tools = None\<rparr>)))
     (\<lambda>_. store_run (updatePart (ce_clock ce 5)
       \<lparr>pid = ce_part ce 0, pmessage = ce_message ce 1, psession = s, pdata = TextData
          \<lparr>tx_text = continue_text overflow, tx_synthetic = Some True, tx_ignored = None,
           tx_time = Some (JObj [(js ''start'', JNum (ce_clock ce 3)), (js ''end'', JNum (ce_clock ce 4))]),
           tx_metadata = Some [(js ''compaction_continue'', JBool True)]\<rparr>\<rparr>))"

definition finish_compaction ::
  "'r comp_env \<Rightarrow> jstring \<Rightarrow> user_fields \<Rightarrow> bool \<Rightarrow> bool \<Rightarrow> with_parts option \<Rightarrow> msg_part option \<Rightarrow> jstring option \<Rightarrow>
   flow \<Rightarrow> assistant_fields \<Rightarrow> flow comp_run" where
  "finish_compaction ce s u auto overflow replay part tail result msg =
     bind_run (update_tail (ce_clock ce 1) part tail) (\<lambda>_.
     bind_run (if result = FContinue \<and> auto then
                 (case replay of
                    Some r \<Rightarrow> (case mdata (wp_info r) of
                       UserData original \<Rightarrow> replay_message ce s original (wp_parts r) | AssistantData _ \<Rightarrow> return_run ())
                  | None \<Rightarrow> continue_message ce s u overflow)
               else return_run ()) (\<lambda>_.
     if a_error msg \<noteq> None then return_run FStop
     else bind_run (if result = FContinue then store_run (\<lambda>st. Inr (publish (SessionCompacted s) st)) else return_run ()) (\<lambda>_.
     return_run result)))"

section \<open>The run\<close>

definition run_processor :: "'r comp_env \<Rightarrow> 'r summary_req \<Rightarrow> msg_info \<Rightarrow> (flow \<times> assistant_fields) comp_run" where
  "run_processor ce req info s =
     (case ce_processor ce req info s of
        (ProcDone f m, s') \<Rightarrow> (Inr (f, m), s')
      | (ProcInterrupted, s') \<Rightarrow> (Inl RunInterrupted, s')
      | (ProcDied e, s') \<Rightarrow> (Inl (RunDied e), s'))"

text \<open>\<open>onExit\<close>: an interrupted run takes its message back.\<close>

definition on_interrupt :: "(store \<Rightarrow> store) \<Rightarrow> 'a comp_run \<Rightarrow> 'a comp_run" where
  "on_interrupt undo m s =
     (case m s of (Inl RunInterrupted, s') \<Rightarrow> (Inl RunInterrupted, s'\<lparr>rn_store := undo (rn_store s')\<rparr>) | r \<Rightarrow> r)"

definition processCompaction :: "'r comp_env \<Rightarrow> jstring \<Rightarrow> with_parts list \<Rightarrow> jstring \<Rightarrow> bool \<Rightarrow> bool \<Rightarrow> flow comp_run" where
  "processCompaction ce parentID input s auto overflow st =
     (case findLast (\<lambda>m. msg_id m = parentID) input of
        None \<Rightarrow> (Inl (BadParent parentID), st)
      | Some parent \<Rightarrow>
          (case mdata (wp_info parent) of
             AssistantData _ \<Rightarrow> (Inl (BadParent parentID), st)
           | UserData u \<Rightarrow>
               (let part = marker_part parent;
                    (replay, ms) = (if overflow then overflow_replay parentID input else (None, input))
                in case choose_model ce (rn_env st) u overflow of
                     Inl e \<Rightarrow> (Inl e, st)
                   | Inr m \<Rightarrow>
                       (let history = compaction_history parent ms;
                            (head, tail) = select (rn_env st) (ce_cfg ce) (limits m) (visible_history history);
                            info = placeholder ce parentID s u m
                        in bind_run (store_run (updateMessage info)) (\<lambda>_.
                           on_interrupt (removeMessage (ce_sidecar ce) s (mid info))
                             (bind_run (run_processor ce (summary_request ce u m head history) info) (\<lambda>(result, msg).
                              if result = FCompact then compaction_overflow ce m ms part info msg
                              else finish_compaction ce s u auto overflow replay part tail result msg))) st))))"

definition create_compaction :: "'r comp_env \<Rightarrow> jstring \<Rightarrow> jstring \<Rightarrow> model_ref \<Rightarrow> bool \<Rightarrow> bool option \<Rightarrow> unit comp_run" where
  "create_compaction ce s agent m auto overflow =
     bind_run (store_run (updateMessage \<lparr>mid = ce_message ce 0, msession = s, mdata = UserData
       \<lparr>u_created = ce_clock ce 0, u_format = None, u_summary = None, u_agent = agent, u_model = m, u_system = None,
        u_locale = None, u_tools = None\<rparr>\<rparr>))
     (\<lambda>_. store_run (updatePart (ce_clock ce 1)
       \<lparr>pid = ce_part ce 0, pmessage = ce_message ce 0, psession = s,
        pdata = CompactionData \<lparr>cp_auto = auto, cp_overflow = overflow, cp_tail_start_id = None\<rparr>\<rparr>))"

section \<open>What a compaction leaves\<close>

lemma filter_loop_until: "r \<notin> set (map msg_id xs) \<Longrightarrow> msg_id x = r \<Longrightarrow> filter_loop (Some r) C (xs @ x # ys) = xs @ [x]"
  by (induction xs) auto

text \<open>The history as a later request sees it: from the kept message on, then the marker, the summary and what follows.\<close>

definition kept_tail :: "jstring option \<Rightarrow> with_parts list \<Rightarrow> with_parts list" where
  "kept_tail tail hist = (case tail of None \<Rightarrow> [] | Some t \<Rightarrow> dropWhile (\<lambda>m. msg_id m \<noteq> t) hist)"

lemma filterCompacted_tail:
  assumes "completes summary = Some (msg_id marker)" "is_user marker" "\<not> is_user summary" "find_compaction (wp_parts marker) = Some c"
    "distinct (map msg_id (hist @ [marker]))"
    "cp_tail_start_id c = None \<or> (\<exists>x\<in>set hist. cp_tail_start_id c = Some (msg_id x) \<and> msg_id x \<noteq> [])"
  shows "filterCompacted (rev (hist @ [marker, summary])) = kept_tail (cp_tail_start_id c) hist @ [marker, summary]"
proof (cases "cp_tail_start_id c")
  case None
  then show ?thesis using assms(1-4) by (simp add: filterCompacted_def kept_tail_def truthy_def)
next
  case (Some t)
  then obtain x where x: "x \<in> set hist" "msg_id x = t" "t \<noteq> []" using assms(6) by auto
  then obtain a b where h: "hist = a @ x # b" by (meson split_list)
  have t: "t \<noteq> msg_id marker" "t \<notin> set (map msg_id a)" "t \<notin> set (map msg_id b)" using assms(5) x(2) h by auto
  have "filter_loop (Some t) [msg_id marker] (rev b @ x # rev a) = rev b @ [x]"
    using t(3) x(2) by (intro filter_loop_until) auto
  moreover have "dropWhile (\<lambda>m. msg_id m \<noteq> t) hist = x # b"
    unfolding h using t(2) x(2) by (subst dropWhile_append2) (auto simp: image_iff)
  ultimately show ?thesis using assms(1-4) x(3) t(1) Some
    by (simp add: filterCompacted_def kept_tail_def truthy_def h)
qed

lemma stream_of_messages: "messages st s None = Inr ms \<Longrightarrow> stream st s = Inr (rev ms)"
  by (auto simp: messages_def split: sum.splits)

lemma updateMessage_append:
  assumes ok: "store_ok st" and own: "\<not> isRust (msession i) st" and s: "msession i \<in> set (map sw_id (session_table st))"
    and new: "mid i \<notin> set (map mw_id (message_table st))"
    and last: "\<And>r. r \<in> set (message_table st) \<Longrightarrow> mw_session r = msession i \<Longrightarrow> msg_key r < (created (mdata i), mid i)"
    and ms: "messages st (msession i) None = Inr ms"
  shows "\<exists>st'. updateMessage i st = Inr st' \<and> store_ok st' \<and> session_table st' = session_table st \<and> rustOwned st' = rustOwned st \<and>
    part_table st' = part_table st \<and> message_table st' = message_table st @ [msg_row_of i] \<and>
    messages st' (msession i) None = Inr (ms @ [\<lparr>wp_info = i, wp_parts = []\<rparr>])"
proof -
  let ?st = "publish (MessageUpdated i) (st\<lparr>message_table := message_table st @ [msg_row_of i]\<rparr>)"
  let ?rs = "filter (\<lambda>r. mw_session r = msession i) (message_table st)"
  have u: "updateMessage i st = Inr ?st"
    using own s new by (auto simp: updateMessage_def project_message_def upsert_message_def msg_row_of_def)
  have ok': "store_ok ?st" by (rule updateMessage_ok[OF u ok])
  have "sort_key msg_key (?rs @ [msg_row_of i]) = sort_key msg_key ?rs @ [msg_row_of i]"
  proof (rule properties_for_sort_key)
    show "sorted (map msg_key (sort_key msg_key ?rs @ [msg_row_of i]))"
      using last by (auto simp: sorted_append msg_row_of_def less_le simp del: less_prod_simp)
    show "filter (\<lambda>x. msg_key k = msg_key x) (sort_key msg_key ?rs @ [msg_row_of i]) = filter (\<lambda>x. msg_key k = msg_key x) (?rs @ [msg_row_of i])" for k
      by (simp only: filter_append eq_commute[of "msg_key k"] sort_key_stable)
  qed simp
  moreover have "filter (\<lambda>r. mw_session r = msession i) (message_table ?st) = ?rs @ [msg_row_of i]" by (simp add: msg_row_of_def)
  moreover have "parts ?st = parts st" by (simp add: fun_eq_iff parts_def)
  moreover have none: "filter (\<lambda>r. pw_message r = mid i) (part_table st) = []"
  proof -
    have "pw_message ` set (part_table st) \<subseteq> mw_id ` set (message_table st)" using ok by (simp add: store_ok_def)
    then have "pw_message r \<noteq> mid i" if "r \<in> set (part_table st)" for r
      using new that unfolding set_map by (metis imageI subsetD)
    then show ?thesis by (simp add: filter_empty_conv)
  qed
  moreover have "parts st (mid i) = []" by (simp add: parts_def none)
  ultimately have "messages ?st (msession i) None = Inr (ms @ [\<lparr>wp_info = i, wp_parts = []\<rparr>])"
    using ms messages_ordered[OF ok] unfolding messages_ordered[OF ok'] by (auto simp: hydrate_def msg_row_of_def info_of_def)
  then show ?thesis using u ok' by (intro exI[of _ ?st]) simp
qed

lemma find_compaction_find: "find is_compaction ps = Some p \<Longrightarrow> \<exists>c. pdata p = CompactionData c \<and> find_compaction ps = Some c \<and> p \<in> set ps"
  by (induction ps) (auto split: part_data.splits if_splits)

lemma find_compaction_update:
  assumes "find is_compaction ps = Some p" "distinct (map pid ps)" "pid q = pid p" "pdata q = CompactionData c"
  shows "find_compaction (map (new_part [q]) ps) = Some c"
  using assms(1,2)
proof (induction ps)
  case (Cons x xs)
  show ?case
  proof (cases "is_compaction x")
    case True
    then show ?thesis using Cons.prems(1) assms(3,4) by (simp add: new_part_def)
  next
    case False
    then have "p \<in> set xs" "find is_compaction xs = Some p" using Cons.prems(1) find_compaction_find[of xs p] by (auto simp del: is_compaction.simps)
    then have "pid x \<noteq> pid q" using Cons.prems(2) assms(3) by auto
    then show ?thesis using Cons False \<open>find is_compaction xs = Some p\<close>
      by (auto simp: new_part_def split: part_data.splits)
  qed
qed simp

lemma set_tail_keys: "pid (set_tail t p) = pid p" "psession (set_tail t p) = psession p" "pmessage (set_tail t p) = pmessage p"
  by (auto simp: set_tail_def split: part_data.splits)

lemma tail_written:
  assumes ok: "store_ok st" and own: "\<not> isRust s st" and ms: "messages st s None = Inr (hist @ parent # rest)"
    and p: "marker_part parent = Some p" "psession p = s"
  shows "\<exists>st'. updatePart now (set_tail t p) st = Inr st' \<and>
    messages st' s None = Inr (hist @ parent\<lparr>wp_parts := map (new_part [set_tail t p]) (wp_parts parent)\<rparr> # rest)"
proof -
  let ?q = "set_tail t p" and ?ms = "hist @ parent # rest"
  have pin: "p \<in> set (wp_parts parent)" using p(1) find_compaction_find unfolding marker_part_def by blast
  then obtain r where r: "r \<in> set (part_table st)" "p = part_of r" using messages_parts(2)[OF ok ms] by auto
  then have "set (map pid [?q]) \<subseteq> set (map pw_id (part_table st))" by (simp add: set_tail_keys part_of_def)
  moreover have "list_all (\<lambda>p. \<not> isRust (psession p) st) [?q]" using own p(2) by (simp add: set_tail_keys)
  ultimately obtain st' where st': "update_parts now [?q] st = Inr st'" "message_table st' = message_table st"
    "part_table st' = map (put_data [?q]) (part_table st)"
    using update_parts_existing[of "[?q]" st now] by auto
  then have u: "updatePart now ?q st = Inr st'" by (auto split: sum.splits)
  have "map (new_part [?q]) (wp_parts m) = wp_parts m" if "m \<in> set hist \<or> m \<in> set rest" for m
  proof (rule map_idI)
    fix x
    assume x: "x \<in> set (wp_parts m)"
    have "m \<noteq> parent" using messages_ids(1)[OF ok ms] that by auto
    then have "pid x \<noteq> pid p"
      using parts_disjoint[OF messages_parts(1)[OF ok ms], of m parent x p] that x pin by auto
    then show "new_part [?q] x = x" by (simp add: new_part_def set_tail_keys)
  qed
  then show ?thesis
    using u messages_put_data[OF ok updatePart_ok[OF u ok] st'(2,3) ms] by (auto intro!: map_idI)
qed

lemma visible_subset: "set (visible_history h) \<subseteq> set h"
  by (auto simp: visible_history_def in_set_enumerate_eq)

definition summarises :: "'r comp_env \<Rightarrow> jstring \<Rightarrow> msg_info \<Rightarrow> assistant_fields \<Rightarrow> msg_part list \<Rightarrow> bool" where
  "summarises ce s info final ps \<longleftrightarrow>
     (\<forall>req st ms. store_ok (rn_store st) \<longrightarrow> \<not> isRust s (rn_store st) \<longrightarrow> messages (rn_store st) s None = Inr (ms @ [\<lparr>wp_info = info, wp_parts = []\<rparr>]) \<longrightarrow>
       (\<exists>st'. ce_processor ce req info st = (ProcDone FContinue final, st') \<and> store_ok (rn_store st') \<and>
         rustOwned (rn_store st') = rustOwned (rn_store st) \<and>
         messages (rn_store st') s None = Inr (ms @ [\<lparr>wp_info = info\<lparr>mdata := AssistantData final\<rparr>, wp_parts = ps\<rparr>])))"

lemma update_tail_run:
  assumes "store_ok (rn_store st)" "\<not> isRust s (rn_store st)" "messages (rn_store st) s None = Inr (hist @ parent # rest)"
    and p: "marker_part parent = Some p" "psession p = s" "tail_of p = None" and t: "tail = None \<or> truthy tail"
  shows "\<exists>st' parent'. update_tail now (Some p) tail st = (Inr (), st') \<and> wp_info parent' = wp_info parent \<and>
    (\<exists>c. find_compaction (wp_parts parent') = Some c \<and> cp_tail_start_id c = tail) \<and>
    messages (rn_store st') s None = Inr (hist @ parent' # rest) \<and> store_ok (rn_store st') \<and>
    map pid (wp_parts parent') = map pid (wp_parts parent)"
proof -
  obtain c where c: "pdata p = CompactionData c" "find_compaction (wp_parts parent) = Some c"
    using find_compaction_find p(1) unfolding marker_part_def by blast
  have none: "cp_tail_start_id c = None" using p(3) by (simp add: tail_of_def c(1))
  show ?thesis
  proof (cases tail)
    case None
    then show ?thesis using c none assms(1,3)
      by (intro exI[of _ st] exI[of _ parent]) (auto simp: update_tail_def return_run_def truthy_def)
  next
    case (Some x)
    then have tr: "truthy tail" "tail_of p \<noteq> tail" using t p(3) by auto
    let ?q = "set_tail tail p" and ?parent = "parent\<lparr>wp_parts := map (new_part [set_tail tail p]) (wp_parts parent)\<rparr>"
    obtain st' where st': "updatePart now ?q (rn_store st) = Inr st'" "messages st' s None = Inr (hist @ ?parent # rest)"
      using tail_written[OF assms(1-3) p(1,2)] by blast
    have d: "distinct (map pid (wp_parts parent))" using messages_parts(1)[OF assms(1,3)] by auto
    have "find_compaction (wp_parts ?parent) = Some (c\<lparr>cp_tail_start_id := tail\<rparr>)"
      using find_compaction_update[OF p(1)[unfolded marker_part_def] d, of ?q] by (simp add: set_tail_keys set_tail_def c(1))
    moreover have "update_tail now (Some p) tail st = (Inr (), st\<lparr>rn_store := st'\<rparr>)"
      using tr st'(1) by (simp add: update_tail_def store_run_def)
    moreover have "map pid (wp_parts ?parent) = map pid (wp_parts parent)"
      by (auto simp: new_part_def split: option.splits)
    moreover have "store_ok st'" by (rule updatePart_ok[OF st'(1) assms(1)])
    ultimately show ?thesis using st'(2) by (intro exI[of _ "st\<lparr>rn_store := st'\<rparr>"] exI[of _ ?parent]) auto
  qed
qed

lemma select_tail_in: "snd (select e cfg m ms) = None \<or> (\<exists>x\<in>set ms. snd (select e cfg m ms) = Some (msg_id x))"
  using select_cut[where e = e and cfg = cfg and m = m and ms = ms] by (auto split: prod.splits)


lemma updateMessage_existing:
  assumes ok: "store_ok st" and own: "\<not> isRust s st" and i: "msession i = s" "mid i = mid i0"
    and ms: "messages st s None = Inr (ms @ [\<lparr>wp_info = i0, wp_parts = ps\<rparr>])"
  shows "\<exists>st'. updateMessage i st = Inr st' \<and> store_ok st' \<and> rustOwned st' = rustOwned st \<and>
    messages st' s None = Inr (ms @ [\<lparr>wp_info = i, wp_parts = ps\<rparr>])"
proof -
  let ?f = "\<lambda>x. if mw_id x = mid i then x\<lparr>mw_data := mdata i\<rparr> else x"
  let ?rs = "sort_key msg_key (filter (\<lambda>r. mw_session r = s) (message_table st))"
  let ?st = "publish (MessageUpdated i) (st\<lparr>message_table := map ?f (message_table st)\<rparr>)"
  obtain r where "r \<in> set (message_table st)" "mw_id r = mid i0" using messages_msg_row[OF ok ms, of "\<lparr>wp_info = i0, wp_parts = ps\<rparr>"] by auto
  then have "mid i \<in> set (map mw_id (message_table st))" using i(2) by (auto simp: image_iff intro: bexI[of _ r])
  then have u: "updateMessage i st = Inr ?st"
    using own i(1) by (simp add: updateMessage_def project_message_def upsert_message_def msg_row_of_def cong: if_cong)
  have ok': "store_ok ?st" by (rule updateMessage_ok[OF u ok])
  have "filter (\<lambda>r. mw_session r = s) (map ?f (message_table st)) = map ?f (filter (\<lambda>r. mw_session r = s) (message_table st))"
    by (simp add: filter_map o_def if_distrib cong: if_cong)
  then have rows: "sort_key msg_key (filter (\<lambda>r. mw_session r = s) (message_table ?st)) = map ?f ?rs"
    by (simp add: sort_key_map if_distrib cong: if_cong)
  have "hydrate st ?rs = ms @ [\<lparr>wp_info = i0, wp_parts = ps\<rparr>]" using ms messages_ordered[OF ok] by simp
  then obtain a r where ar: "?rs = a @ [r]" "hydrate st a = ms" "info_of r = i0" "parts st (mw_id r) = ps"
    by (auto simp: hydrate_def map_eq_append_conv)
  have r: "mw_id r = mid i" "mw_session r = s" using ar(1,3) i(2) by (auto simp: info_of_def dest!: arg_cong[where f = set])
  have "distinct (map mw_id (filter (\<lambda>r. mw_session r = s) (message_table st)))"
    using ok by (intro distinct_map_filter') (simp add: store_ok_def)
  then have "distinct (map mw_id ?rs)" by (auto simp: distinct_map)
  then have "\<And>x. x \<in> set a \<Longrightarrow> mw_id x \<noteq> mid i" unfolding ar(1) using r(1) by (auto simp: image_iff)
  then have a: "map ?f a = a" by (intro map_idI) auto
  have parts: "parts ?st = parts st" by (simp add: fun_eq_iff parts_def)
  have "messages ?st s None = Inr (hydrate ?st (map ?f ?rs))" unfolding messages_ordered[OF ok'] rows ..
  also have "hydrate ?st (map ?f ?rs) = ms @ [\<lparr>wp_info = i, wp_parts = ps\<rparr>]"
  proof -
    have h: "hydrate ?st xs = hydrate st xs" for xs by (simp add: hydrate_def parts)
    have "info_of (?f r) = i" using r i(1) by (simp add: info_of_def)
    then show ?thesis unfolding ar(1) map_append a h using ar(2,4) r(1) by (simp add: hydrate_def)
  qed
  finally show ?thesis using u ok' by (intro exI[of _ ?st]) simp
qed

text \<open>A processor that writes no part and ends the message at once.\<close>

definition example_processor :: "unit summary_req \<Rightarrow> msg_info \<Rightarrow> run_state \<Rightarrow> proc_exit \<times> run_state" where
  "example_processor req info st =
     (case mdata info of
        UserData _ \<Rightarrow> (ProcDied [], st)
      | AssistantData a \<Rightarrow>
          (case updateMessage (info\<lparr>mdata := AssistantData (a\<lparr>a_finish := Some (js ''stop'')\<rparr>)\<rparr>) (rn_store st) of
             Inl _ \<Rightarrow> (ProcDied [], st)
           | Inr st' \<Rightarrow> (ProcDone FContinue (a\<lparr>a_finish := Some (js ''stop'')\<rparr>), st\<lparr>rn_store := st'\<rparr>)))"

definition example_model :: full_model where
  "example_model = \<lparr>providerID = [], model_id = [], model_name = [], limit_context = 100000, limit_input = None, limit_output = 1000, md_npm = []\<rparr>"

definition example_ce :: "unit comp_env" where
  "example_ce = \<lparr>ce_cfg = example_cfg, ce_agent_model = None, ce_getModel = (\<lambda>_ _. Some example_model), ce_providers = [],
     ce_convert = (\<lambda>_ _. []), ce_processor = example_processor, ce_message = (\<lambda>n. js ''msg_9''), ce_part = (\<lambda>n. js ''prt_9''),
     ce_clock = (\<lambda>n. 9), ce_cwd = [], ce_root = [], ce_fold = (\<lambda>c. c), ce_sidecar = (\<lambda>_ st. st)\<rparr>"

lemma example_summarises:
  assumes "mdata info = AssistantData a" "msession info = s"
  shows "summarises example_ce s info (a\<lparr>a_finish := Some (js ''stop'')\<rparr>) []"
  unfolding summarises_def
proof (intro allI impI)
  fix req :: "unit summary_req" and st :: run_state and ms
  assume st: "store_ok (rn_store st)" "\<not> isRust s (rn_store st)" "messages (rn_store st) s None = Inr (ms @ [\<lparr>wp_info = info, wp_parts = []\<rparr>])"
  let ?i = "info\<lparr>mdata := AssistantData (a\<lparr>a_finish := Some (js ''stop'')\<rparr>)\<rparr>"
  obtain st' where "updateMessage ?i (rn_store st) = Inr st'" "store_ok st'" "rustOwned st' = rustOwned (rn_store st)"
    "messages st' s None = Inr (ms @ [\<lparr>wp_info = ?i, wp_parts = []\<rparr>])"
    using updateMessage_existing[OF st(1,2) _ _ st(3), of ?i] assms(2) by auto
  then show "\<exists>st'. ce_processor example_ce req info st = (ProcDone FContinue (a\<lparr>a_finish := Some (js ''stop'')\<rparr>), st') \<and> store_ok (rn_store st') \<and>
      rustOwned (rn_store st') = rustOwned (rn_store st) \<and>
      messages (rn_store st') s None = Inr (ms @ [\<lparr>wp_info = info\<lparr>mdata := AssistantData (a\<lparr>a_finish := Some (js ''stop'')\<rparr>)\<rparr>, wp_parts = []\<rparr>])"
    by (intro exI[of _ "st\<lparr>rn_store := st'\<rparr>"]) (simp add: example_ce_def example_processor_def assms(1))
qed

definition example_marker_part :: msg_part where
  "example_marker_part = \<lparr>pid = js ''prt_1'', pmessage = js ''msg_2'', psession = js ''ses_1'',
     pdata = CompactionData \<lparr>cp_auto = False, cp_overflow = None, cp_tail_start_id = None\<rparr>\<rparr>"

definition example_run_env :: env where
  "example_run_env = \<lparr>e_flag = None, e_lower = (\<lambda>s. s), e_found = \<lparr>contextWindows = [], outputLimits = []\<rparr>\<rparr>"


section \<open>Interruption\<close>

definition interrupted :: "'r comp_env \<Rightarrow> jstring \<Rightarrow> msg_info \<Rightarrow> bool" where
  "interrupted ce s info \<longleftrightarrow>
     (\<forall>req st ms. store_ok (rn_store st) \<longrightarrow> \<not> isRust s (rn_store st) \<longrightarrow> messages (rn_store st) s None = Inr (ms @ [\<lparr>wp_info = info, wp_parts = []\<rparr>]) \<longrightarrow>
       (\<exists>st' i ps. ce_processor ce req info st = (ProcInterrupted, st') \<and> store_ok (rn_store st') \<and>
         rustOwned (rn_store st') = rustOwned (rn_store st) \<and> mid i = mid info \<and>
         messages (rn_store st') s None = Inr (ms @ [\<lparr>wp_info = i, wp_parts = ps\<rparr>])))"

text \<open>
  C36. A compaction that is interrupted, whatever it has written of its summary by then, leaves the
  messages of the session as they were.
\<close>

theorem compaction_interrupt_rolls_back:
  assumes ok: "store_ok (rn_store st)" and own: "\<not> isRust s (rn_store st)" and sess: "s \<in> set (map sw_id (session_table (rn_store st)))"
    and ms: "messages (rn_store st) s None = Inr ms"
    and parent: "findLast (\<lambda>m. msg_id m = parentID) input = Some parent" "mdata (wp_info parent) = UserData u"
    and m: "choose_model ce (rn_env st) u overflow = Inr m"
    and new: "ce_message ce 0 \<notin> set (map mw_id (message_table (rn_store st)))"
    and last: "list_all (\<lambda>r. mw_session r = s \<longrightarrow> msg_key r < (ce_clock ce 0, ce_message ce 0)) (message_table (rn_store st))"
    and proc: "interrupted ce s (placeholder ce parentID s u m)"
  shows "\<exists>st'. processCompaction ce parentID input s auto overflow st = (Inl RunInterrupted, st') \<and> messages (rn_store st') s None = Inr ms"
proof -
  let ?info = "placeholder ce parentID s u m"
  obtain replay msgs where r: "(if overflow then overflow_replay parentID input else (None, input)) = (replay, msgs)" by fastforce
  let ?hist = "compaction_history parent msgs"
  obtain head tail where sel: "select (rn_env st) (ce_cfg ce) (limits m) (visible_history ?hist) = (head, tail)" by fastforce
  let ?req = "summary_request ce u m head ?hist"
  have info: "msession ?info = s" "mid ?info = ce_message ce 0" "created (mdata ?info) = ce_clock ce 0"
    by (simp_all add: placeholder_def created_def)
  obtain st1 where st1: "updateMessage ?info (rn_store st) = Inr st1" "store_ok st1" "rustOwned st1 = rustOwned (rn_store st)"
    "messages st1 s None = Inr (ms @ [\<lparr>wp_info = ?info, wp_parts = []\<rparr>])"
    using updateMessage_append[OF ok, of ?info, unfolded info, OF own sess new _ ms] last by (auto simp: list_all_iff)
  have own1: "\<not> isRust s st1" using own st1(3) by (simp add: isRust_def)
  obtain s2 i ps where s2: "ce_processor ce ?req ?info (st\<lparr>rn_store := st1\<rparr>) = (ProcInterrupted, s2)" "store_ok (rn_store s2)"
    "rustOwned (rn_store s2) = rustOwned st1" "mid i = mid ?info" "messages (rn_store s2) s None = Inr (ms @ [\<lparr>wp_info = i, wp_parts = ps\<rparr>])"
    using proc st1(2,4) own1 unfolding interrupted_def by (auto dest!: spec[of _ ?req] spec[of _ "st\<lparr>rn_store := st1\<rparr>"])
  have own2: "\<not> isRust s (rn_store s2)" using own1 s2(3) by (simp add: isRust_def)
  let ?x = "\<lparr>wp_info = i, wp_parts = ps\<rparr>"
  let ?st = "s2\<lparr>rn_store := removeMessage (ce_sidecar ce) s (mid ?info) (rn_store s2)\<rparr>"
  have "msg_id y \<noteq> mid ?info" if "y \<in> set ms" for y
    using messages_ids(1)[OF s2(2,5)] s2(4) that by (auto simp: image_iff)
  then have "filter (\<lambda>y. msg_id y \<notin> set (map msg_id [?x])) (ms @ [?x]) = ms" using s2(4) by (simp add: filter_id_conv)
  then have "messages (rn_store ?st) s None = Inr ms"
    using removed_messages_read[OF s2(2) own2 s2(5), of "ce_sidecar ce" "[?x]"] s2(4) by simp
  moreover have "processCompaction ce parentID input s auto overflow st = (Inl RunInterrupted, ?st)"
    using st1(1) s2(1) unfolding processCompaction_def parent(1) option.case parent(2) info_data.case Let_def r m sum.case prod.case sel
    by (simp add: bind_run_def store_run_def on_interrupt_def run_processor_def)
  ultimately show ?thesis by blast
qed

section \<open>Overflows\<close>

text \<open>
  After an overflow what precedes the last message of the user is summarised, and that message is
  sent again in place of the original. If the end of the summarised part is kept, so is the original
  with its attachments: it lies between the kept message and the marker.
\<close>

lemma overflow_keeps_oversized:
  assumes "overflow_replay (msg_id marker) (hist @ [marker]) = (Some orig, before)" "msg_id marker \<notin> set (map msg_id hist)" "x \<in> set before"
  shows "orig \<in> set (kept_tail (Some (msg_id x)) hist)"
proof -
  have "findIndex (\<lambda>m. msg_id m = msg_id marker) (hist @ [marker]) = Some (length hist)"
    using assms(2) by (auto simp: findIndex_Some nth_append image_iff) (metis nth_mem)
  then obtain i where i: "find (\<lambda>i. plain_user ((hist @ [marker]) ! i)) (rev [0..<length hist]) = Some i"
    "orig = (hist @ [marker]) ! i" "before = take i (hist @ [marker])"
    using assms(1) by (auto simp: overflow_replay_def split: option.splits if_splits)
  have "i < length hist" using i(1) by (auto simp: find_Some_iff rev_nth)
  then have o: "orig = hist ! i" "before = take i hist" "hist = take i hist @ hist ! i # drop (Suc i) hist"
    using i(2,3) by (simp_all add: nth_append id_take_nth_drop)
  have "dropWhile (\<lambda>m. msg_id m \<noteq> msg_id x) (take i hist @ hist ! i # drop (Suc i) hist) =
      dropWhile (\<lambda>m. msg_id m \<noteq> msg_id x) (take i hist) @ hist ! i # drop (Suc i) hist"
    using assms(3) o(2) by (intro dropWhile_append1) auto
  then show ?thesis using o by (simp add: kept_tail_def)
qed

text \<open>The shortened history is an end of the history that fits, unless there is nothing left to drop.\<close>

lemma truncate_loop_result:
  "(\<exists>k. truncate_loop limit ms = drop k ms) \<and>
   (estimate_messages (truncate_loop limit ms) \<le> limit \<or> length (truncate_loop limit ms) \<le> 2 \<or>
    list_all (\<lambda>m. \<not> plain_user m) (truncate_loop limit ms))"
proof (induction limit ms rule: truncate_loop.induct)
  case (1 limit ms)
  show ?case
  proof (cases "estimate_messages ms > limit \<and> length ms > 2")
    case False
    then have "truncate_loop limit ms = drop 0 ms" by (auto simp: truncate_loop.simps[of limit ms])
    then show ?thesis using False by (intro conjI exI[of _ 0]) auto
  next
    case big: True
    show ?thesis
    proof (cases "findIndex plain_user ms")
      case None
      then have "truncate_loop limit ms = drop 0 ms" using big by (simp add: truncate_loop.simps[of limit ms])
      then show ?thesis using None by (intro conjI exI[of _ 0]) (auto simp: findIndex_None list_all_iff)
    next
      case (Some i)
      let ?n = "if i + 1 < length ms \<and> \<not> is_user (ms ! (i + 1)) then 2 else 1 :: nat"
      have t: "truncate_loop limit ms = truncate_loop limit (drop ?n ms)"
        using big Some by (simp add: truncate_loop.simps[of limit ms])
      from "1.IH"[OF big Some] obtain k where k: "truncate_loop limit (drop ?n ms) = drop k (drop ?n ms)" by blast
      have "\<exists>k. truncate_loop limit ms = drop k ms" unfolding t k by (auto simp: drop_drop)
      then show ?thesis using "1.IH"[OF big Some] unfolding t by simp
    qed
  qed
qed

text \<open>
  Of a history that was shortened to a question and its answer, which fit, \<open>select\<close> keeps nothing:
  the kept turn starts at the first message. The marker then hides the whole history instead of what
  was cut off.
\<close>

lemma shortened_pair_lost:
  assumes "plain_user u" "\<not> is_user a" "estimate_messages [u, a] \<le> preserveRecentBudget e cfg m"
  shows "snd (select e cfg m [u, a]) = None"
proof -
  have "turn_starts [u, a] = [0]" using assms(1,2) by (simp add: turn_starts_def plain_user_def upt_rec)
  then have t: "turns [u, a] = [\<lparr>tn_start = 0, tn_end = 2, tn_id = msg_id u\<rparr>]" by (simp add: turns_def)
  show ?thesis
  proof (cases "(case cfg_tail_turns cfg of Some n \<Rightarrow> n | None \<Rightarrow> DEFAULT_TAIL_TURNS) \<le> 0")
    case False
    then have "Suc 0 - nat (case cfg_tail_turns cfg of Some n \<Rightarrow> n | None \<Rightarrow> DEFAULT_TAIL_TURNS) = 0" by linarith
    then show ?thesis using False assms(3) by (simp add: select_def Let_def t)
  qed (simp add: select_def)
qed

section \<open>The marker\<close>

lemma updatePart_append:
  assumes ok: "store_ok st" and own: "\<not> isRust (psession p) st" and new: "pid p \<notin> set (map pw_id (part_table st))"
    and ms: "messages st s None = Inr (ms @ [\<lparr>wp_info = i, wp_parts = []\<rparr>])" and p: "pmessage p = mid i"
  shows "\<exists>st'. updatePart now p st = Inr st' \<and> store_ok st' \<and> messages st' s None = Inr (ms @ [\<lparr>wp_info = i, wp_parts = [p]\<rparr>])"
proof -
  let ?st = "publish (PartUpdated p now) (st\<lparr>part_table := part_table st @ [part_row_of now p]\<rparr>)"
  let ?rs = "sort_key msg_key (filter (\<lambda>r. mw_session r = s) (message_table st))"
  obtain r where "r \<in> set (message_table st)" "mw_id r = mid i" using messages_msg_row[OF ok ms, of "\<lparr>wp_info = i, wp_parts = []\<rparr>"] by auto
  then have "mid i \<in> mw_id ` set (message_table st)" by (auto simp: image_iff intro: bexI[of _ r])
  then have u: "updatePart now p st = Inr ?st"
    using own new p by (simp add: updatePart_def project_part_def upsert_part_def part_row_of_def)
  have ok': "store_ok ?st" by (rule updatePart_ok[OF u ok])
  have "hydrate st ?rs = ms @ [\<lparr>wp_info = i, wp_parts = []\<rparr>]" using ms messages_ordered[OF ok] by simp
  then obtain a r where ar: "?rs = a @ [r]" "hydrate st a = ms" "info_of r = i" "parts st (mw_id r) = []"
    by (auto simp: hydrate_def map_eq_append_conv)
  have r: "mw_id r = mid i" using ar(3) by (auto simp: info_of_def)
  have "length (parts st (mid i)) = length (filter (\<lambda>x. pw_message x = mid i) (part_table st))" by (simp add: parts_def)
  then have e: "filter (\<lambda>x. pw_message x = mid i) (part_table st) = []" using ar(4) r by simp
  have d: "distinct (map msg_id ms @ [mid i])" using messages_ids(1)[OF ok ms] by simp
  have "map msg_id ms = map mw_id a" unfolding ar(2)[symmetric] by (simp add: hydrate_def info_of_def)
  then have "mid i \<notin> set (map mw_id a)" using d by (simp del: set_map)
  then have "mw_id x \<noteq> mid i" if "x \<in> set a" for x
    using that by (auto simp: image_iff)
  moreover have "parts ?st j = parts st j" if "j \<noteq> mid i" for j using that p by (simp add: parts_def part_row_of_def)
  ultimately have "hydrate ?st a = hydrate st a" by (simp add: hydrate_def)
  moreover have "parts ?st (mid i) = [p]" using p by (simp add: parts_def e part_row_of_def part_of_def)
  ultimately have "hydrate ?st ?rs = ms @ [\<lparr>wp_info = i, wp_parts = [p]\<rparr>]"
    unfolding ar(1) using ar(2,3) r by (auto simp: hydrate_def)
  then show ?thesis using u ok' by (intro exI[of _ ?st]) (simp add: messages_ordered[OF ok'])
qed

text \<open>A new marker is the last message of the session; it has a part that \<open>process\<close> takes for a marker without a tail.\<close>

lemma create_appends_marker:
  assumes "store_ok (rn_store st)" "\<not> isRust s (rn_store st)" "s \<in> set (map sw_id (session_table (rn_store st)))"
    "ce_message ce 0 \<notin> set (map mw_id (message_table (rn_store st)))" "ce_part ce 0 \<notin> set (map pw_id (part_table (rn_store st)))"
    "list_all (\<lambda>r. mw_session r = s \<longrightarrow> msg_key r < (ce_clock ce 0, ce_message ce 0)) (message_table (rn_store st))"
    "messages (rn_store st) s None = Inr ms"
  shows "\<exists>st' parent p. create_compaction ce s agent m auto overflow st = (Inr (), st') \<and> store_ok (rn_store st') \<and>
    messages (rn_store st') s None = Inr (ms @ [parent]) \<and> is_user parent \<and> marker_part parent = Some p \<and> tail_of p = None \<and> psession p = s"
proof -
  let ?i = "\<lparr>mid = ce_message ce 0, msession = s, mdata = UserData \<lparr>u_created = ce_clock ce 0, u_format = None, u_summary = None,
      u_agent = agent, u_model = m, u_system = None, u_locale = None, u_tools = None\<rparr>\<rparr>"
  let ?p = "\<lparr>pid = ce_part ce 0, pmessage = ce_message ce 0, psession = s,
      pdata = CompactionData \<lparr>cp_auto = auto, cp_overflow = overflow, cp_tail_start_id = None\<rparr>\<rparr>"
  have i: "msession ?i = s" "mid ?i = ce_message ce 0" "created (mdata ?i) = ce_clock ce 0" by (simp_all add: created_def)
  obtain st1 where st1: "updateMessage ?i (rn_store st) = Inr st1" "store_ok st1" "rustOwned st1 = rustOwned (rn_store st)"
    "part_table st1 = part_table (rn_store st)" "messages st1 s None = Inr (ms @ [\<lparr>wp_info = ?i, wp_parts = []\<rparr>])"
    using updateMessage_append[OF assms(1), of ?i, unfolded i, OF assms(2-4) _ assms(7)] assms(6) by (auto simp: list_all_iff)
  obtain st2 where st2: "updatePart (ce_clock ce 1) ?p st1 = Inr st2" "store_ok st2"
    "messages st2 s None = Inr (ms @ [\<lparr>wp_info = ?i, wp_parts = [?p]\<rparr>])"
    using updatePart_append[OF st1(2) _ _ st1(5), of ?p "ce_clock ce 1"] assms(2,5) st1(3,4) by (auto simp: isRust_def)
  have "create_compaction ce s agent m auto overflow st = (Inr (), st\<lparr>rn_store := st2\<rparr>)"
    using st1(1) st2(1) by (simp add: create_compaction_def bind_run_def store_run_def)
  moreover have "marker_part \<lparr>wp_info = ?i, wp_parts = [?p]\<rparr> = Some ?p" "tail_of ?p = None" "is_user \<lparr>wp_info = ?i, wp_parts = [?p]\<rparr>"
    by (simp_all add: marker_part_def tail_of_def is_user_def)
  ultimately show ?thesis using st2(2,3)
    by (intro exI[of _ "st\<lparr>rn_store := st2\<rparr>"] exI[of _ "\<lparr>wp_info = ?i, wp_parts = [?p]\<rparr>"] exI[of _ ?p]) simp
qed

definition interrupting_ce :: "unit comp_env" where
  "interrupting_ce = example_ce\<lparr>ce_processor := (\<lambda>req info st. (ProcInterrupted, st))\<rparr>"

theorem compaction_interrupt_rolls_back_witness:
  "\<exists>st st'. processCompaction interrupting_ce (js ''msg_2'')
       [\<lparr>wp_info = example_user (js ''msg_1''), wp_parts = []\<rparr>, \<lparr>wp_info = example_user (js ''msg_2''), wp_parts = [example_marker_part]\<rparr>]
       (js ''ses_1'') False False \<lparr>rn_env = example_run_env, rn_store = st\<rparr> = (Inl RunInterrupted, st') \<and>
     messages (rn_store st') (js ''ses_1'') None = messages st (js ''ses_1'') None"
proof -
  let ?ms = "[\<lparr>wp_info = example_user (js ''msg_1''), wp_parts = []\<rparr>, \<lparr>wp_info = example_user (js ''msg_2''), wp_parts = [example_marker_part]\<rparr>]"
  obtain st where st: "store_ok st" "session_table st = session_table example_two" "message_table st = message_table example_two"
    "rustOwned st = []" "messages st (js ''ses_1'') None = Inr ?ms"
    using example_with_part[of example_marker_part] by (auto simp: example_marker_part_def)
  let ?st = "\<lparr>rn_env = example_run_env, rn_store = st\<rparr>"
  obtain u where u: "mdata (example_user (js ''msg_2'')) = UserData u" by (simp add: example_user_def)
  have "\<exists>st'. processCompaction interrupting_ce (js ''msg_2'') ?ms (js ''ses_1'') False False ?st = (Inl RunInterrupted, st') \<and>
      messages (rn_store st') (js ''ses_1'') None = Inr ?ms"
  proof (rule compaction_interrupt_rolls_back)
    show "store_ok (rn_store ?st)" "messages (rn_store ?st) (js ''ses_1'') None = Inr ?ms" using st by simp_all
    show "\<not> isRust (js ''ses_1'') (rn_store ?st)" using st(4) by (simp add: isRust_def)
    show "js ''ses_1'' \<in> set (map sw_id (session_table (rn_store ?st)))" using st(2) example_store_sessions(1) by (simp add: example_two_tables(5))
    show "findLast (\<lambda>m. msg_id m = js ''msg_2'') ?ms = Some \<lparr>wp_info = example_user (js ''msg_2''), wp_parts = [example_marker_part]\<rparr>"
      by (simp add: findLast_def example_user_def)
    show "mdata (wp_info \<lparr>wp_info = example_user (js ''msg_2''), wp_parts = [example_marker_part]\<rparr>) = UserData u" using u by simp
    show "choose_model interrupting_ce (rn_env ?st) u False = Inr example_model" by (simp add: choose_model_def interrupting_ce_def example_ce_def)
    show "ce_message interrupting_ce 0 \<notin> set (map mw_id (message_table (rn_store ?st)))"
      by (simp add: interrupting_ce_def example_ce_def st(3) example_two_tables(2) msg_row_of_def example_user_def)
    show "list_all (\<lambda>r. mw_session r = js ''ses_1'' \<longrightarrow> msg_key r < (ce_clock interrupting_ce 0, ce_message interrupting_ce 0)) (message_table (rn_store ?st))"
      by (simp add: interrupting_ce_def example_ce_def st(3) example_two_tables(2) msg_row_of_def example_user_def created_def)
    show "interrupted interrupting_ce (js ''ses_1'') (placeholder interrupting_ce (js ''msg_2'') (js ''ses_1'') u example_model)"
      unfolding interrupted_def interrupting_ce_def by simp
  qed
  then show ?thesis using st(5) by metis
qed

end
