(* ===== verification/Spec2Isabelle.thy ===== *)
theory Spec2Isabelle
  imports Bash_Arity Permission Edit Todo Stepper Sync Global_Sync Lock Truncate Runner Content_Cache Auto_Respond Overflow Compaction_Run
begin

text \<open>
  \<^bold>\<open>A verification library for duoduo-code.\<close>

  duoduo-code is a coding agent: a TypeScript server (\<open>src/packages/duoduo\<close>) runs model sessions,
  executes their tool calls on the user's files after asking for permission, and streams what
  happens as events to the clients (\<open>src/packages/app\<close>, the terminal client and the desktop
  shells). This library models the parts of that code that decide something: what may be done
  without asking, what an edit or a patch does to a file, how the task list may change, how the
  event logs are built and replayed, what the client keeps of them, and how concurrent users of
  a resource are kept apart, and how identifiers, runs and outputs are bounded and ordered.

  \<^bold>\<open>Theories and sources.\<close> Paths are relative to \<open>src/packages/duoduo/src\<close> unless they start with
  \<open>app\<close> or \<open>shared\<close>.

  \<^item> \<open>JS_Prelude\<close>: strings (sequences of UTF-16 code units), array methods and insertion-ordered
    maps of JavaScript as far as the sources use them, their lemmas, and the locale
    \<open>keyed_store\<close> for tables addressed by a key, interpreted on those maps.
  \<^item> \<open>Wildcard\<close>: \<open>util/wildcard.ts\<close>. \<open>compile\<close> builds the regular expression, \<open>rmatch\<close> runs it.
    A match is equivalent to the intended meaning of stars, question marks and the optional
    argument part; a table lookup returns the most specific pattern.
  \<^item> \<open>Permission\<close>: \<open>permission/evaluate.ts\<close>, \<open>permission/index.ts\<close>, the normalisation of
    \<open>config/permission.ts\<close> and the allow-list of \<open>project/instance.ts\<close>. The service state is a
    record (table of open requests, approved rules, trace of published events and completed
    promises); \<open>ask\<close>, \<open>reply\<close>, the time-out and the finalizer are state transformers, and a run
    is any sequence of them. The last matching rule decides, a request is completed at most
    once, a rejection reaches exactly its session, an approval covers later calls.
  \<^item> \<open>Bash_Arity\<close>: \<open>permission/arity.ts\<close>, the prefix of a shell command that names it.
  \<^item> \<open>Patch\<close>: \<open>patch/index.ts\<close> and \<open>util/bom.ts\<close>. The parser, the search for the lines of a
    chunk under four comparisons, the replacements and their application to a file map. Printed
    hunks are parsed back, replacements are disjoint and applied exactly, no other file changes.
  \<^item> \<open>Edit\<close>: the replacers and \<open>replace\<close> of \<open>tool/edit.ts\<close>. \<open>replace\<close> refines the specification
    that the first proposal which occurs once is replaced; \<open>levenshtein\<close> is the edit distance.
  \<^item> \<open>Todo\<close>: \<open>session/todo.ts\<close>, the task list and its transaction: allowed status changes, the
    order of tasks, identifiers, and that \<open>get\<close> reads what \<open>update\<close> stored.
  \<^item> \<open>Stepper\<close>: \<open>v2/session-event.ts\<close>, \<open>v2/session-entry.ts\<close> and \<open>v2/session-entry-stepper.ts\<close>,
    the fold of session events to entries. The locale \<open>step_adapter\<close> is the storage interface of
    the step function, interpreted on the code's memory adapter. At most one assistant entry is
    open, all others are frozen, tool calls complete under any interleaving.
  \<^item> \<open>Sync\<close>: \<open>sync/index.ts\<close> and its tables, the replicated event log: sequence numbers have no
    gaps, replaying applies every event exactly once and in order.
  \<^item> \<open>Binary\<close>: \<open>shared/util/binary.ts\<close>, search and insertion in sorted arrays. The locale
    \<open>id_collection\<close> is what the reducer relies on, interpreted on sorted arrays here and on the
    store's lists per key in \<open>Global_Sync\<close>.
  \<^item> \<open>Session_Trim\<close>: \<open>app/context/global-sync\<close> (\<open>session-trim.ts\<close>, \<open>session-cache.ts\<close>,
    \<open>eviction.ts\<close>), which sessions and directories the client keeps.
  \<^item> \<open>Global_Sync\<close>: \<open>event-reducer.ts\<close> of the same directory and \<open>app/utils/diffs.ts\<close>, the
    client's copy of the server state: always sorted, last update wins, deletion purges.
  \<^item> \<open>Lock\<close>: \<open>util/lock.ts\<close>, the reader-writer lock: exclusion, and that disposals always end
    with every waiting call resolved.
  \<^item> \<open>Runner\<close>: \<open>effect/runner.ts\<close>, the state machine of a session's runs and shell commands: a
    single one is in progress, and every caller is served exactly once.
  \<^item> \<open>Identifier\<close>: \<open>id/id.ts\<close> and \<open>app/utils/id.ts\<close>, the ordered identifiers: in order of creation
    within a window of \<open>2^36\<close> milliseconds, wrapping at its end, the same on server and client.
  \<^item> \<open>Truncate\<close>: \<open>tool/truncate.ts\<close>, the bounded preview of a long tool output and the clean-up
    of saved outputs, which compares identifiers of \<open>Identifier\<close> and asks \<open>Permission\<close>.

  \<^item> \<open>Content_Cache\<close>: \<open>app/context/file/content-cache.ts\<close>, the client's cache of file contents:
    eviction ends within its limits, byte counts are exact.
  \<^item> \<open>Encode\<close>: \<open>shared/util/encode.ts\<close>, base64 over UTF-8 and the 32-bit checksums, on words.
  \<^item> \<open>Auto_Respond\<close>: \<open>app/context/permission-auto-respond.ts\<close>, which requests the client answers.
  \<^item> \<open>Overflow\<close>: \<open>session/overflow.ts\<close>, \<open>util/token.ts\<close> and the output limit of
    \<open>provider/transform.ts\<close>: token estimates, context windows and the target of a compaction.
  \<^item> \<open>Message\<close>: \<open>session/message-v2.ts\<close>, messages and parts, and what of them a model is sent. Every
    tool call is answered, secrets are redacted (the locale \<open>secret_pattern\<close>, interpreted on the
    patterns that match by themselves), media can be stripped.
  \<^item> \<open>Session_Store\<close>: the tables of \<open>session/session.sql.ts\<close>, the projectors, the ownership of rows
    and the operations of \<open>session/session.ts\<close>. A step relation covers every operation that writes;
    keys stay unique and references intact, both ways of reading agree, removal reaches exactly the
    descendants.
  \<^item> \<open>Session_Fork\<close>: what \<open>fork\<close> leaves in the store.
  \<^item> \<open>Compaction\<close>: \<open>session/compaction.ts\<close>, which end of a history is kept and which tool outputs are
    cleared.
  \<^item> \<open>Summary\<close>: \<open>session/summary.ts\<close>, the changes of a session and the names of files as git prints
    them.
  \<^item> \<open>Revert\<close>: \<open>session/revert.ts\<close>, rolling a session back, undoing that, and the removal of what was
    rolled back.
  \<^item> \<open>Compaction_Run\<close>: \<open>process\<close> and \<open>create\<close> of \<open>session/compaction.ts\<close>. From the marker to the
    store a finished compaction leaves the chosen end, the marker and the summary; an interrupted
    one leaves nothing.

  \<^bold>\<open>How the parts interact.\<close> The service of \<open>Permission\<close> decides with \<open>Wildcard\<close>; the shell tool
  asks with the prefixes of \<open>Bash_Arity\<close>. Tools change files through \<open>Edit\<close> and \<open>Patch\<close>. The
  server publishes what happens through \<open>Sync\<close>, and the client applies it with \<open>Global_Sync\<close>,
  which keeps its lists with \<open>Binary\<close> and bounds them with \<open>Session_Trim\<close>. Messages are written and
  read through \<open>Session_Store\<close>; \<open>Compaction_Run\<close> chooses with \<open>Compaction\<close> and \<open>Overflow\<close>, asks for
  the summary with the messages of \<open>Message\<close>, and its result is read with \<open>filterCompacted\<close>;
  \<open>Revert\<close> removes through \<open>Session_Store\<close> and compares snapshots with \<open>Summary\<close>.

  \<^bold>\<open>Conventions.\<close>

  \<^item> Strings are lists of code units; case folding of the regular expressions is a parameter.
  \<^item> JavaScript numbers that count are \<open>nat\<close> or \<open>int\<close>; they stay far below the range in which
    doubles are exact. The similarity of the edit tool divides numbers; it is compared as
    rationals.
  \<^item> Thrown errors are values of a datatype per component; what a failing operation leaves
    behind is part of its result. Promises and deferred values are numbers, and a trace records
    which of them were completed and how; a state is changed by one function per atomic section
    of the code, and a step relation interleaves them freely.
  \<^item> A database transaction is one state transformer that keeps the old tables when it fails.
  \<^item> The store of the client is a record; replacing a value and reconciling it are the same.
  \<^item> Loops are recursive functions with termination proofs. Two loops are written as
    \<open>partial_function\<close> with \<open>None\<close> for not returning: \<open>try_multi\<close> of \<open>Edit\<close>, which runs forever
    for an empty search text, and \<open>content_evict_loop\<close> of \<open>Content_Cache\<close>; the properties prove that
    they return where the code calls them. The recursive query for the descendants of a session
    (\<open>descendants\<close> of \<open>Session_Store\<close>) has one more than the number of sessions as fuel, more levels
    than a chain of parents can have; \<open>remove_session_subtree\<close> proves it enough when parents are acyclic, and for
    a cycle, where SQLite would not return, the value is \<open>None\<close>.
  \<^item> Code that is not part of the repository (projector functions, identifier generators, the
    platform) is an argument of the definitions that call it.

  \<^item> The processor that streams a model's answer, the snapshots made by git and the Rust process
    are arguments too; what a property relies on is among its assumptions, and its witness has a
    concrete instance.

  \<^bold>\<open>Not modelled.\<close> The user interfaces (components, themes, translations), generated clients,
  the Rust crates, providers and protocol adapters, language servers, the HTTP routes, process
  and file system access, the prompts themselves, and \<open>session/prompt.ts\<close> and
  \<open>session/processor.ts\<close>, which join all of these by effects. Of the modelled files the manifest
  names what is left out, mainly logging, schemas and listing queries.
\<close>

end
